(* ===== verification/Kospam_Prelude.thy ===== *)
theory Kospam_Prelude
  imports Main "HOL-Library.Word" "HOL-Library.Sublist" "HOL-Library.Monad_Syntax"
begin

text \<open>
  Shared base of the development: the type of C bytes and of C strings, the fact collections
  the component proofs use, and the generic lemmas on lists, options and words that more than
  one component needs.

  A byte is a \<open>char\<close> of HOL (eight bits).  The contents of a C string is a \<open>string\<close> without the
  terminating NUL; a block of memory is a \<open>buf\<close>, the list of all its bytes, NULs included.
  Anything the C standard leaves undefined because memory outside a block is read or written is
  the value \<open>None\<close> of an \<open>option\<close> result.
\<close>

type_synonym buf = "char list"

abbreviation NUL :: char where
  "NUL \<equiv> CHR 0x00"

abbreviation CR :: char where
  "CR \<equiv> CHR 0x0D"

abbreviation LF :: char where
  "LF \<equiv> CHR 0x0A"

abbreviation TAB :: char where
  "TAB \<equiv> CHR 0x09"

abbreviation SPACE :: char where
  "SPACE \<equiv> CHR 0x20"

abbreviation DQUOTE :: char where
  "DQUOTE \<equiv> CHR 0x22"

abbreviation SQUOTE :: char where
  "SQUOTE \<equiv> CHR 0x27"

text \<open>Sizes of buffers in \<open>config.h\<close> and \<open>defs.h\<close>.\<close>

abbreviation SMALLBUFSIZE :: nat where
  "SMALLBUFSIZE \<equiv> 512"

abbreviation MAXBUFSIZE :: nat where
  "MAXBUFSIZE \<equiv> 8192"

abbreviation BIGBUFSIZE :: nat where
  "BIGBUFSIZE \<equiv> 131072"

abbreviation TINYBUFSIZE :: nat where
  "TINYBUFSIZE \<equiv> 128"

text \<open>The numeric value of a byte, as \<open>unsigned char\<close>.\<close>

abbreviation byte :: "char \<Rightarrow> nat" where
  "byte c \<equiv> of_char c"

named_theorems mem_simps \<open>reading and writing C memory blocks\<close>
named_theorems str_defs \<open>definitions of the C string library\<close>
named_theorems word_inj \<open>injective operations on machine words\<close>

section \<open>Lists\<close>

lemma takeWhile_neq_append_stop:
  "z \<notin> set xs \<Longrightarrow> takeWhile (\<lambda>c. c \<noteq> z) (xs @ z # ys) = xs"
  by (induction xs) auto

lemma takeWhile_neq_no: "z \<notin> set (takeWhile (\<lambda>c. c \<noteq> z) xs)"
  by (auto dest: set_takeWhileD)

lemma takeWhile_neq_idem: "z \<notin> set xs \<Longrightarrow> takeWhile (\<lambda>c. c \<noteq> z) xs = xs"
  by (auto simp: takeWhile_eq_all_conv)

lemma split_at_first:
  assumes "z \<in> set xs"
  shows "xs = takeWhile (\<lambda>c. c \<noteq> z) xs @ z # drop (Suc (length (takeWhile (\<lambda>c. c \<noteq> z) xs))) xs"
proof -
  have "dropWhile (\<lambda>c. c \<noteq> z) xs \<noteq> []"
    using assms by (auto simp: dropWhile_eq_Nil_conv)
  then obtain y ys where d: "dropWhile (\<lambda>c. c \<noteq> z) xs = y # ys"
    by (cases "dropWhile (\<lambda>c. c \<noteq> z) xs") auto
  then have "y = z"
    using hd_dropWhile [of "\<lambda>c. c \<noteq> z" xs] by simp
  have "xs = takeWhile (\<lambda>c. c \<noteq> z) xs @ z # ys"
    using takeWhile_dropWhile_id [of "\<lambda>c. c \<noteq> z" xs] d \<open>y = z\<close> by simp
  then show ?thesis
    by (metis append_eq_conv_conj drop_Suc list.sel(3) tl_drop)
qed

lemma length_takeWhile_less:
  assumes "z \<in> set xs"
  shows "length (takeWhile (\<lambda>c. c \<noteq> z) xs) < length xs"
  using arg_cong [OF split_at_first [OF assms], of length] by simp

lemma drop_eq_ConsD: "drop i b = c # s \<Longrightarrow> i < length b \<and> b ! i = c \<and> drop (Suc i) b = s"
  by (metis drop_Suc drop_all hd_drop_conv_nth leI list.distinct(1) list.sel(1) list.sel(3) tl_drop)

lemma drop_eq_appendD: "drop i b = s @ r \<Longrightarrow> drop (i + length s) b = r"
  by (metis add.commute append_eq_conv_conj drop_drop)

lemma drop_eq_append_length: "drop i b = s @ r \<Longrightarrow> i \<le> length b \<Longrightarrow> length b = i + length s + length r"
  by (metis add.assoc add_diff_cancel_left' le_add_diff_inverse length_append length_drop)

lemma drop_nth_prefix:
  assumes "drop i b = s @ r" and "j < length s"
  shows "b ! (i + j) = s ! j"
proof -
  have "i \<le> length b"
    using assms by (metis drop_all length_append less_nat_zero_code linorder_le_cases list.size(3)
        trans_less_add1)
  then have "b ! (i + j) = drop i b ! j" by simp
  then show ?thesis using assms by (simp add: nth_append)
qed

section \<open>Words\<close>

lemma inj_word_mult_odd:
  fixes a b x y :: "'a::len word"
  assumes "b * a = 1" and "x * a = y * a"
  shows "x = y"
proof -
  have "x * a * b = y * a * b" using assms(2) by simp
  moreover have "z * a * b = z" for z :: "'a word"
    using assms(1) by (simp add: mult.assoc mult.commute [of a b])
  ultimately show ?thesis by simp
qed

section \<open>Bytes\<close>

lemma byte_less_256: "byte c < 256"
  by (cases c) (simp add: of_char_def horner_sum_bit_eq_take_bit)

lemma byte_less_256_word: "byte c < 2 ^ LENGTH(64)"
  by (rule less_trans [OF byte_less_256]) simp

end
