(* ===== verification/C_Strings.thy ===== *)
theory C_Strings
  imports Kospam_Prelude
begin

text \<open>
  The functions of \<open>string.h\<close>, \<open>strings.h\<close>, \<open>ctype.h\<close>, \<open>stdlib.h\<close> and \<open>stdio.h\<close> the program
  calls, on the contents of C strings.  A search returns the offset of the match, \<open>None\<close> for
  a NULL pointer.  Character classes are those of the C locale (and of every UTF-8 locale, where
  a byte above 127 is in none of them).
\<close>

section \<open>Character classes\<close>

definition isspace :: "char \<Rightarrow> bool" where
  "isspace c \<longleftrightarrow> c = SPACE \<or> (9 \<le> byte c \<and> byte c \<le> 13)"

definition isdigit :: "char \<Rightarrow> bool" where
  "isdigit c \<longleftrightarrow> 48 \<le> byte c \<and> byte c \<le> 57"

definition isupper :: "char \<Rightarrow> bool" where
  "isupper c \<longleftrightarrow> 65 \<le> byte c \<and> byte c \<le> 90"

definition islower :: "char \<Rightarrow> bool" where
  "islower c \<longleftrightarrow> 97 \<le> byte c \<and> byte c \<le> 122"

definition isxdigit :: "char \<Rightarrow> bool" where
  "isxdigit c \<longleftrightarrow> isdigit c \<or> (65 \<le> byte c \<and> byte c \<le> 70) \<or> (97 \<le> byte c \<and> byte c \<le> 102)"

definition tolower :: "char \<Rightarrow> char" where
  "tolower c = (if isupper c then char_of (byte c + 32) else c)"

declare isspace_def [str_defs] isdigit_def [str_defs] isupper_def [str_defs]
  islower_def [str_defs] isxdigit_def [str_defs] tolower_def [str_defs]

lemma byte_eq_iff: "byte c = byte d \<longleftrightarrow> c = d"
  by simp

lemma byte_NUL_iff: "byte c = 0 \<longleftrightarrow> c = NUL"
proof -
  have "byte NUL = 0" by simp
  then show ?thesis by (metis byte_eq_iff)
qed

lemma byte_char_of: "n < 256 \<Longrightarrow> byte (char_of n) = n"
  by simp

lemma byte_tolower: "byte (tolower c) = (if isupper c then byte c + 32 else byte c)"
  by (simp add: tolower_def isupper_def)

lemma tolower_NUL_iff [simp]: "tolower c = NUL \<longleftrightarrow> c = NUL"
proof -
  have "byte (tolower c) = 0 \<longleftrightarrow> byte c = 0"
    by (simp only: byte_tolower) (auto simp: isupper_def)
  then show ?thesis by (simp only: byte_NUL_iff)
qed

lemma tolower_idem [simp]: "tolower (tolower c) = tolower c"
proof -
  have "\<not> isupper (tolower c)"
    by (simp only: isupper_def byte_tolower) simp
  then show ?thesis by (simp only: tolower_def [of "tolower c"] if_False)
qed

section \<open>Comparison\<close>

text \<open>
  \<open>strncmp (a, b, n) == 0\<close> and \<open>strncasecmp (a, b, n) == 0\<close>: the first \<open>n\<close> bytes agree, where
  a terminator among them ends both strings.
\<close>

definition strncmp_eq :: "string \<Rightarrow> string \<Rightarrow> nat \<Rightarrow> bool" where
  "strncmp_eq a b n \<longleftrightarrow> take n a = take n b"

definition strcasecmp_eq :: "string \<Rightarrow> string \<Rightarrow> bool" where
  "strcasecmp_eq a b \<longleftrightarrow> map tolower a = map tolower b"

definition strncasecmp_eq :: "string \<Rightarrow> string \<Rightarrow> nat \<Rightarrow> bool" where
  "strncasecmp_eq a b n \<longleftrightarrow> map tolower (take n a) = map tolower (take n b)"

declare strncmp_eq_def [str_defs] strcasecmp_eq_def [str_defs] strncasecmp_eq_def [str_defs]

section \<open>Search\<close>

fun strchr :: "string \<Rightarrow> char \<Rightarrow> nat option" where
  "strchr [] ch = None"
| "strchr (c # s) ch = (if c = ch then Some 0 else map_option Suc (strchr s ch))"

fun strrchr :: "string \<Rightarrow> char \<Rightarrow> nat option" where
  "strrchr [] ch = None"
| "strrchr (c # s) ch =
     (case strrchr s ch of Some i \<Rightarrow> Some (Suc i)
      | None \<Rightarrow> if c = ch then Some 0 else None)"

fun strstr :: "string \<Rightarrow> string \<Rightarrow> nat option" where
  "strstr [] n = (if n = [] then Some 0 else None)"
| "strstr (c # s) n = (if prefix n (c # s) then Some 0 else map_option Suc (strstr s n))"

definition strcasestr :: "string \<Rightarrow> string \<Rightarrow> nat option" where
  "strcasestr s n = strstr (map tolower s) (map tolower n)"

lemma strchr_None_iff: "strchr s ch = None \<longleftrightarrow> ch \<notin> set s"
  by (induction s) auto

lemma strchr_SomeD:
  "strchr s ch = Some i \<Longrightarrow> i < length s \<and> s ! i = ch \<and> ch \<notin> set (take i s)"
  by (induction s arbitrary: i) (auto split: if_splits)

lemma strchr_takeWhile:
  "strchr s ch = (if ch \<in> set s then Some (length (takeWhile (\<lambda>c. c \<noteq> ch) s)) else None)"
  by (induction s) auto

lemma strrchr_None_iff: "strrchr s ch = None \<longleftrightarrow> ch \<notin> set s"
  by (induction s) (auto split: option.splits)

lemma strrchr_SomeD:
  "strrchr s ch = Some i \<Longrightarrow> i < length s \<and> s ! i = ch \<and> ch \<notin> set (drop (Suc i) s)"
proof (induction s arbitrary: i)
  case (Cons c s)
  then show ?case
    by (cases "strrchr s ch") (auto simp: strrchr_None_iff split: if_splits)
qed simp

lemma strstr_Nil [simp]: "strstr s [] = Some 0"
  by (cases s) auto

lemma strstr_SomeD: "strstr s n = Some i \<Longrightarrow> i \<le> length s \<and> prefix n (drop i s)"
  by (induction s arbitrary: i) (auto split: if_splits)

lemma strstr_Some_first: "strstr s n = Some i \<Longrightarrow> j < i \<Longrightarrow> \<not> prefix n (drop j s)"
proof (induction s arbitrary: i j)
  case (Cons c s)
  then show ?case by (cases j) (auto split: if_splits)
qed (simp split: if_splits)

lemma strstr_None_iff: "strstr s n = None \<longleftrightarrow> \<not> sublist n s"
proof (induction s)
  case (Cons c s)
  then show ?case by (auto simp: sublist_Cons_right)
qed auto

lemma strstr_length: "strstr s n = Some i \<Longrightarrow> i + length n \<le> length s"
  using strstr_SomeD [of s n i] by (auto dest!: prefix_length_le)

lemma strcasestr_length: "strcasestr s n = Some i \<Longrightarrow> i + length n \<le> length s"
  unfolding strcasestr_def using strstr_length by fastforce

section \<open>Formatted output into a sized buffer\<close>

text \<open>\<open>snprintf (dst, size, "%s", s)\<close>: at most \<open>size - 1\<close> bytes and the terminator.\<close>

definition snprintf_s :: "nat \<Rightarrow> string \<Rightarrow> string" where
  "snprintf_s n s = take (n - 1) s"

lemma snprintf_s_length [simp]: "length (snprintf_s n s) \<le> n - 1"
  by (simp add: snprintf_s_def)

lemma snprintf_s_fits: "length s < n \<Longrightarrow> snprintf_s n s = s"
  by (simp add: snprintf_s_def)

text \<open>Decimal digits, for \<open>%llu\<close> and \<open>%d\<close>.\<close>

fun show_nat :: "nat \<Rightarrow> string" where
  "show_nat n = (if n < 10 then [char_of (48 + n)] else show_nat (n div 10) @ [char_of (48 + n mod 10)])"

declare show_nat.simps [simp del]

lemma length_show_nat: "n < 10 ^ k \<Longrightarrow> 0 < k \<Longrightarrow> length (show_nat n) \<le> k"
proof (induction k arbitrary: n)
  case (Suc k)
  show ?case
  proof (cases "n < 10")
    case False
    with Suc.prems have "0 < k" by (cases k) auto
    have "n div 10 < 10 ^ k" using Suc.prems by (simp add: less_mult_imp_div_less mult.commute)
    then have "length (show_nat (n div 10)) \<le> k" using Suc.IH \<open>0 < k\<close> by blast
    with False show ?thesis by (simp add: show_nat.simps [of n])
  qed (simp add: show_nat.simps)
qed simp

lemma show_nat_nonempty [simp]: "show_nat n \<noteq> []"
  by (subst show_nat.simps) simp

section \<open>Number parsing\<close>

text \<open>
  \<open>strtol (s, \&end, base)\<close> for bases 10 and 16: white space, a sign, for base 16 an optional
  \<open>0x\<close> in front of a hexadecimal digit, then the longest run of digits.  The value saturates at
  the bounds of a 64 bit \<open>long\<close>; without digits it is 0 and \<open>end\<close> is the start of \<open>s\<close>.
\<close>

definition digit_val :: "char \<Rightarrow> nat" where
  "digit_val c = (if isdigit c then byte c - 48 else byte (tolower c) - 97 + 10)"

definition is_base_digit :: "nat \<Rightarrow> char \<Rightarrow> bool" where
  "is_base_digit base c = (if base = 16 then isxdigit c else isdigit c)"

definition digits_val :: "nat \<Rightarrow> string \<Rightarrow> nat" where
  "digits_val base ds = foldl (\<lambda>v c. v * base + digit_val c) 0 ds"

definition clamp_long :: "int \<Rightarrow> int" where
  "clamp_long v = max (- (2 ^ 63)) (min (2 ^ 63 - 1) v)"

definition strtol :: "string \<Rightarrow> nat \<Rightarrow> int \<times> nat" where
  "strtol s base =
     (let ws = length (takeWhile isspace s);
          s1 = drop ws s;
          neg = (s1 \<noteq> [] \<and> hd s1 = CHR ''-'');
          sg = (if s1 \<noteq> [] \<and> (hd s1 = CHR ''-'' \<or> hd s1 = CHR ''+'') then 1 else 0);
          s2 = drop sg s1;
          px = (if base = 16 \<and> strncasecmp_eq s2 ''0x'' 2 \<and> length s2 > 2 \<and> isxdigit (s2 ! 2)
                then 2 else 0);
          ds = takeWhile (is_base_digit base) (drop px s2)
      in if ds = [] then (0, 0)
         else (clamp_long ((if neg then -1 else 1) * int (digits_val base ds)),
               ws + sg + px + length ds))"

end
