(* ===== verification/C_Buffer.thy ===== *)
theory C_Buffer
  imports C_Strings
begin

text \<open>
  C memory blocks with bounds: checked reads and writes, the C string that starts at an offset,
  and the shape of loop that most of the program's decoders share.  Such a loop walks a read
  pointer \<open>src\<close> and a write pointer \<open>dst\<close> over one block, emits at each round at most as many
  bytes as it consumes, and stops at the terminator.  The locale \<open>inplace_loop\<close> states that
  contract once; its clients are the loops of \<open>strings.c\<close>, \<open>entities.c\<close> and \<open>html.c\<close>.
\<close>

section \<open>Checked access\<close>

definition rd :: "buf \<Rightarrow> nat \<Rightarrow> char option" where
  "rd b i = (if i < length b then Some (b ! i) else None)"

definition wr :: "buf \<Rightarrow> nat \<Rightarrow> char \<Rightarrow> buf option" where
  "wr b i c = (if i < length b then Some (b[i := c]) else None)"

fun wr_all :: "buf \<Rightarrow> nat \<Rightarrow> string \<Rightarrow> buf option" where
  "wr_all b i [] = Some b"
| "wr_all b i (c # cs) = (case wr b i c of None \<Rightarrow> None | Some b' \<Rightarrow> wr_all b' (Suc i) cs)"

definition cstr :: "buf \<Rightarrow> string" where
  "cstr b = takeWhile (\<lambda>c. c \<noteq> NUL) b"

definition terminated :: "buf \<Rightarrow> nat \<Rightarrow> bool" where
  "terminated b p \<longleftrightarrow> NUL \<in> set (drop p b)"

text \<open>\<open>strlen (b + p)\<close>; without a terminator it runs off the block.\<close>

definition strlen_at :: "buf \<Rightarrow> nat \<Rightarrow> nat option" where
  "strlen_at b p = (if terminated b p then Some (length (cstr (drop p b))) else None)"

definition put :: "buf \<Rightarrow> nat \<Rightarrow> string \<Rightarrow> buf" where
  "put b i s = take i b @ s @ drop (i + length s) b"

text \<open>
  What an in-place rewriting of the C string at \<open>p\<close> promises: the block keeps its size, nothing
  in front of \<open>p\<close> and nothing behind the old terminator changes, and the string at \<open>p\<close> is now
  the C string \<open>out\<close>, which is not longer than the old one.
\<close>

definition overwrites :: "nat \<Rightarrow> buf \<Rightarrow> buf \<Rightarrow> string \<Rightarrow> bool" where
  "overwrites p b b' out \<longleftrightarrow>
     length b' = length b \<and> take p b' = take p b \<and> cstr (drop p b') = cstr out \<and> terminated b' p \<and>
     drop (p + Suc (length (cstr (drop p b)))) b' = drop (p + Suc (length (cstr (drop p b)))) b \<and>
     length (cstr (drop p b')) \<le> length (cstr (drop p b))"

lemma overwrites_cong: "overwrites p b b' s \<Longrightarrow> cstr s = cstr t \<Longrightarrow> overwrites p b b' t"
  unfolding overwrites_def by (elim conjE, intro conjI) simp_all

lemma length_cstr_le: "length (cstr b) \<le> length b"
  by (simp add: cstr_def length_takeWhile_le)

lemma cstr_no_NUL [simp]: "NUL \<notin> set (cstr b)"
  by (simp add: cstr_def takeWhile_neq_no)

lemma cstr_id [mem_simps]: "NUL \<notin> set s \<Longrightarrow> cstr s = s"
  by (simp add: cstr_def takeWhile_neq_idem)

lemma cstr_append_NUL [mem_simps]: "cstr (s @ NUL # r) = cstr s"
  by (induction s) (auto simp: cstr_def)

lemma cstr_Nil [mem_simps]: "cstr [] = []"
  by (simp add: cstr_def)

lemma cstr_Cons [mem_simps]: "cstr (c # s) = (if c = NUL then [] else c # cstr s)"
  by (simp add: cstr_def)

lemma terminatedE:
  assumes "terminated b p"
  obtains r where "drop p b = cstr (drop p b) @ NUL # r" and "p < length b"
proof -
  from assms have N: "NUL \<in> set (drop p b)" by (simp add: terminated_def)
  then have "p < length b" by (metis drop_all empty_iff empty_set linorder_le_less_linear)
  with split_at_first [OF N] show ?thesis by (auto simp: cstr_def intro: that)
qed

lemma strlen_at_terminated [mem_simps]:
  "terminated b p \<Longrightarrow> strlen_at b p = Some (length (cstr (drop p b)))"
  by (simp add: strlen_at_def)

lemma rd_drop [mem_simps]: "drop i b = c # s \<Longrightarrow> rd b i = Some c"
  using drop_eq_ConsD [of i b c s] by (simp add: rd_def)

lemma rd_drop_nth: "drop i b = s @ r \<Longrightarrow> j < length s \<Longrightarrow> rd b (i + j) = Some (s ! j)"
proof -
  assume a: "drop i b = s @ r" "j < length s"
  then have "length (drop i b) \<ge> length s" by simp
  with a(2) have "i + j < length b" by simp
  with drop_nth_prefix [OF a] show ?thesis by (simp add: rd_def)
qed

lemma rd_beyond_drop: "drop i b = r \<Longrightarrow> rd b (i + j) = (if j < length r then Some (r ! j) else None)"
  by (auto simp: rd_def)

lemma wr_put: "i < length b \<Longrightarrow> wr b i c = Some (put b i [c])"
  by (simp add: wr_def put_def upd_conv_take_nth_drop)

lemma length_put [simp]: "i + length s \<le> length b \<Longrightarrow> length (put b i s) = length b"
  by (simp add: put_def)

lemma put_Nil [simp]: "put b i [] = b"
  by (simp add: put_def)

lemma drop_put: "i + length s \<le> k \<Longrightarrow> i \<le> length b \<Longrightarrow> drop k (put b i s) = drop k b"
  by (simp add: put_def)

lemma take_put: "i + length s \<le> length b \<Longrightarrow> take (i + length s) (put b i s) = take i b @ s"
  by (simp add: put_def)

lemma take_put_less: "k \<le> i \<Longrightarrow> i \<le> length b \<Longrightarrow> take k (put b i s) = take k b"
  by (simp add: put_def min_def)

lemma put_put: "i \<le> length b \<Longrightarrow> put (put b i xs) (i + length xs) ys = put b i (xs @ ys)"
  by (simp add: put_def ac_simps)

lemma wr_all_put: "i + length s \<le> length b \<Longrightarrow> wr_all b i s = Some (put b i s)"
proof (induction s arbitrary: b i)
  case (Cons c s)
  then have "wr b i c = Some (put b i [c])" by (simp add: wr_put)
  moreover have "wr_all (put b i [c]) (Suc i) s = Some (put (put b i [c]) (Suc i) s)"
    using Cons by simp
  moreover have "put (put b i [c]) (Suc i) s = put b i (c # s)"
    using put_put [of i b "[c]" s] Cons.prems by simp
  ultimately show ?case by simp
qed simp

lemma wr_all_None: "i \<le> length b \<Longrightarrow> length b < i + length s \<Longrightarrow> wr_all b i s = None"
proof (induction s arbitrary: b i)
  case (Cons c s)
  then show ?case using Cons.IH [of "Suc i" "b[i := c]"] by (simp add: wr_def)
qed simp

text \<open>
  The state of the block when a loop that started at \<open>p\<close> has written \<open>out\<close>: the bytes behind the
  old string, its terminator included, are still there.
\<close>

definition emitted :: "nat \<Rightarrow> buf \<Rightarrow> buf \<Rightarrow> string \<Rightarrow> bool" where
  "emitted p b b1 out \<longleftrightarrow>
     length b1 = length b \<and> take (p + length out) b1 = take p b @ out \<and>
     drop (p + length (cstr (drop p b))) b1 = drop (p + length (cstr (drop p b))) b \<and>
     length out \<le> length (cstr (drop p b))"

lemma terminated_length:
  "terminated b p \<Longrightarrow> p + length (cstr (drop p b)) < length b"
  by (erule terminatedE) (drule drop_eq_append_length, simp_all)

lemma emitted_rd:
  assumes "terminated b p" "emitted p b b1 out" "k < length out"
  shows "rd b1 (p + k) = Some (out ! k)"
proof -
  have l: "p + k < length b1" "p < length b"
    using assms terminated_length [OF assms(1)] by (auto simp: emitted_def)
  have "b1 ! (p + k) = take (p + length out) b1 ! (p + k)" using assms(3) by simp
  also have "\<dots> = out ! k" using assms(2) l by (simp add: emitted_def nth_append)
  finally show ?thesis using l by (simp add: rd_def)
qed

lemma emitted_terminate:
  assumes "terminated b p" "emitted p b b1 out" "k \<le> length out"
  shows "\<exists>b2. wr b1 (p + k) NUL = Some b2 \<and> overwrites p b b2 (take k out)"
proof -
  let ?s = "cstr (drop p b)" and ?b2 = "put b1 (p + k) [NUL]"
  have l: "length b1 = length b" "p + k < length b" "p < length b" "length out \<le> length ?s"
    using assms terminated_length [OF assms(1)] by (auto simp: emitted_def)
  have tk: "take (p + k) b1 = take p b @ take k out"
  proof -
    have "take (p + k) b1 = take (p + k) (take (p + length out) b1)"
      using assms(3) by (simp only: take_take min.absorb1 add_le_cancel_left)
    also have "\<dots> = take (p + k) (take p b @ out)" using assms(2) by (simp add: emitted_def)
    finally show ?thesis using l by simp
  qed
  have b2: "?b2 = take p b @ take k out @ NUL # drop (Suc (p + k)) b1"
    by (simp add: put_def tk)
  then have dp: "drop p ?b2 = take k out @ NUL # drop (Suc (p + k)) b1" using l by simp
  have "overwrites p b ?b2 (take k out)"
    unfolding overwrites_def
  proof (intro conjI)
    show "length ?b2 = length b" using l by simp
    show "take p ?b2 = take p b" using l by (subst b2) simp
    show "cstr (drop p ?b2) = cstr (take k out)" by (subst dp) (simp add: cstr_append_NUL)
    show "terminated ?b2 p" by (simp add: terminated_def dp)
    have "cstr (drop p ?b2) = cstr (take k out)" by (subst dp) (simp add: cstr_append_NUL)
    then show "length (cstr (drop p ?b2)) \<le> length ?s"
      using length_cstr_le [of "take k out"] l(4) by simp
    have "drop (p + Suc (length ?s)) b1 = drop 1 (drop (p + length ?s) b1)" by simp
    also have "\<dots> = drop (p + Suc (length ?s)) b" using assms(2) by (simp add: emitted_def)
    finally show "drop (p + Suc (length ?s)) ?b2 = drop (p + Suc (length ?s)) b"
      using l assms(3) by (simp add: drop_put)
  qed
  then show ?thesis using l by (auto simp: wr_put)
qed

section \<open>The stream a loop computes\<close>

text \<open>
  One round on the rest \<open>s\<close> of the input: output, number of bytes consumed, next state.
  \<open>stream\<close> repeats it to the end of the input.  The state may record more than the variables of the
  loop, such as a part of the text already read.
\<close>

function stream :: "('s \<Rightarrow> string \<Rightarrow> string \<times> nat \<times> 's) \<Rightarrow> 's \<Rightarrow> string \<Rightarrow> string" where
  "stream step st s =
     (if s = [] then []
      else let (out, n, st') = step st s in out @ stream step st' (drop (max 1 n) s))"
  by pat_completeness auto
termination
  by (relation "measure (\<lambda>(step, st, s). length s)") auto

declare stream.simps [simp del]

lemma stream_Nil [simp]: "stream step st [] = []"
  by (simp add: stream.simps)

lemma stream_step:
  "s \<noteq> [] \<Longrightarrow> step st s = (out, n, st') \<Longrightarrow> 0 < n \<Longrightarrow> stream step st s = out @ stream step st' (drop n s)"
  by (subst stream.simps) (simp add: max_def Suc_leI)

section \<open>The in-place loop\<close>

locale inplace_loop =
  fixes loop :: "buf \<Rightarrow> nat \<Rightarrow> nat \<Rightarrow> 's \<Rightarrow> (buf \<times> nat) option"
    and step :: "'s \<Rightarrow> string \<Rightarrow> string \<times> nat \<times> 's"
    and inv :: "buf \<Rightarrow> nat \<Rightarrow> nat \<Rightarrow> 's \<Rightarrow> bool"
  assumes stops: "drop src b = NUL # r \<Longrightarrow> inv b src dst st \<Longrightarrow> loop b src dst st = Some (b, dst)"
    and steps: "drop src b = s @ NUL # r \<Longrightarrow> NUL \<notin> set s \<Longrightarrow> s \<noteq> [] \<Longrightarrow> dst \<le> src \<Longrightarrow>
      inv b src dst st \<Longrightarrow> step st s = (out, n, st') \<Longrightarrow>
      loop b src dst st = loop (put b dst out) (src + n) (dst + length out) st' \<and>
      inv (put b dst out) (src + n) (dst + length out) st'"
    and consumes: "s \<noteq> [] \<Longrightarrow> NUL \<notin> set s \<Longrightarrow> step st s = (out, n, st') \<Longrightarrow>
      0 < n \<and> n \<le> length s \<and> length out \<le> n"
begin

lemma loop_stream:
  "drop src b = s @ NUL # r \<Longrightarrow> NUL \<notin> set s \<Longrightarrow> dst \<le> src \<Longrightarrow> inv b src dst st \<Longrightarrow>
   \<exists>b'. loop b src dst st = Some (b', dst + length (stream step st s)) \<and>
     length b' = length b \<and>
     take (dst + length (stream step st s)) b' = take dst b @ stream step st s \<and>
     drop (src + length s) b' = drop (src + length s) b \<and>
     length (stream step st s) \<le> length s"
proof (induction s arbitrary: b src dst st rule: length_induct)
  case (1 s)
  show ?case
  proof (cases "s = []")
    case True
    with 1 show ?thesis by (simp add: stops)
  next
    case False
    obtain out n st' where st: "step st s = (out, n, st')" by (cases "step st s") auto
    have n: "0 < n" "n \<le> length s" "length out \<le> n" using consumes [OF False _ st] 1 by auto
    let ?b = "put b dst out" and ?s = "drop n s"
    have len: "length b = src + length s + Suc (length r)"
      using drop_eq_append_length [of src b s "NUL # r"] 1(2)
      by (metis drop_all length_Cons list.distinct(1) append_is_Nil_conv nat_le_linear)
    have lb: "length ?b = length b" using n 1(4) len by simp
    have ds: "drop (src + n) ?b = ?s @ NUL # r"
    proof -
      have "drop (src + n) ?b = drop n (drop src b)"
        using n 1(4) len by (simp add: drop_put add.commute)
      then show ?thesis using n by (simp add: 1(2))
    qed
    have lp: "loop b src dst st = loop ?b (src + n) (dst + length out) st'"
      and iv: "inv ?b (src + n) (dst + length out) st'"
      using steps [OF 1(2,3) False 1(4,5) st] by auto
    have "length ?s < length s" "NUL \<notin> set ?s" "dst + length out \<le> src + n"
      using n False 1(3,4) by (auto dest: in_set_dropD)
    with 1(1) ds iv obtain b' where b':
      "loop ?b (src + n) (dst + length out) st' =
         Some (b', dst + length out + length (stream step st' ?s))"
      "length b' = length ?b"
      "take (dst + length out + length (stream step st' ?s)) b' =
         take (dst + length out) ?b @ stream step st' ?s"
      "drop (src + n + length ?s) b' = drop (src + n + length ?s) ?b"
      "length (stream step st' ?s) \<le> length ?s"
      by blast
    have "drop (src + length s) b' = drop (src + length s) b"
      using b'(4) n len 1(4) by (simp add: drop_put)
    moreover have "take (dst + length out) ?b = take dst b @ out"
      using n len 1(4) by (simp add: take_put)
    ultimately show ?thesis
      using b' n lp lb stream_step [of s step st out n st', OF False st n(1)] by (auto simp: add.assoc)
  qed
qed

text \<open>Run from the start of the string at \<open>p\<close>, the loop has emitted the stream.\<close>

lemma loop_emits:
  assumes "terminated b p" and "inv b p p st"
  shows "\<exists>b1. loop b p p st =
       Some (b1, p + length (stream step st (cstr (drop p b)))) \<and>
     emitted p b b1 (stream step st (cstr (drop p b)))"
proof -
  obtain r where r: "drop p b = cstr (drop p b) @ NUL # r" using terminatedE [OF assms(1)] .
  show ?thesis
    using loop_stream [OF r cstr_no_NUL order_refl assms(2)] by (auto simp: emitted_def)
qed

text \<open>With the terminator the caller writes behind it, the stream has replaced the string.\<close>

lemma loop_overwrites:
  assumes "terminated b p" and "inv b p p st"
  obtains b1 b2 where "loop b p p st = Some (b1, p + length (stream step st (cstr (drop p b))))"
    "wr b1 (p + length (stream step st (cstr (drop p b)))) NUL = Some b2"
    "overwrites p b b2 (stream step st (cstr (drop p b)))"
proof -
  let ?out = "stream step st (cstr (drop p b))"
  obtain b1 where b1: "loop b p p st = Some (b1, p + length ?out)" "emitted p b b1 ?out"
    using loop_emits [OF assms] by blast
  obtain b2 where "wr b1 (p + length ?out) NUL = Some b2" "overwrites p b b2 (take (length ?out) ?out)"
    using emitted_terminate [OF assms(1) b1(2) order_refl] by blast
  with b1(1) that show ?thesis by simp
qed

end

end
