(* ===== verification/Base64.thy ===== *)
theory Base64
  imports C_Buffer
begin

text \<open>
  \<open>src/base64.c\<close>: decoding of a base64 text in place.  The first pass keeps the characters of the
  alphabet, the second decodes groups of four.  The arithmetic on the six bit values is done on
  \<open>8 word\<close>: the C code computes in \<open>int\<close> and stores the low eight bits.
\<close>

unbundle bit_operations_syntax

definition base64_dec_table :: "8 word list" where
  "base64_dec_table =
    [80, 80, 80, 80, 80, 80, 80, 80, 80, 80, 80, 80, 80, 80, 80, 80,
     80, 80, 80, 80, 80, 80, 80, 80, 80, 80, 80, 80, 80, 80, 80, 80,
     80, 80, 80, 80, 80, 80, 80, 80, 80, 80, 80, 62, 80, 80, 80, 63,
     52, 53, 54, 55, 56, 57, 58, 59, 60, 61, 80, 80, 80, 0, 80, 80,
     80,  0,  1,  2,  3,  4,  5,  6,  7,  8,  9, 10, 11, 12, 13, 14,
     15, 16, 17, 18, 19, 20, 21, 22, 23, 24, 25, 80, 80, 80, 80, 80,
     80, 26, 27, 28, 29, 30, 31, 32, 33, 34, 35, 36, 37, 38, 39, 40,
     41, 42, 43, 44, 45, 46, 47, 48, 49, 50, 51, 80, 80, 80, 80, 80] @ replicate 128 80"

definition dec :: "char \<Rightarrow> 8 word" where
  "dec c = base64_dec_table ! byte c"

definition valid_base64_char :: "char \<Rightarrow> bool" where
  "valid_base64_char c \<longleftrightarrow>
     (byte (CHR ''A'') \<le> byte c \<and> byte c \<le> byte (CHR ''Z'')) \<or>
     (byte (CHR ''a'') \<le> byte c \<and> byte c \<le> byte (CHR ''z'')) \<or>
     (byte (CHR ''0'') \<le> byte c \<and> byte c \<le> byte (CHR ''9'')) \<or>
     c = CHR ''+'' \<or> c = CHR ''/'' \<or> c = CHR ''=''"

text \<open>The first pass: \<open>i\<close> runs over the \<open>n\<close> characters of the text at \<open>p\<close>, \<open>k\<close> of them are kept.\<close>

function clean_loop :: "nat \<Rightarrow> nat \<Rightarrow> buf \<Rightarrow> nat \<Rightarrow> nat \<Rightarrow> (buf \<times> nat) option" where
  "clean_loop p n b i k =
     (if i < n then
        do { c \<leftarrow> rd b (p + i);
             if valid_base64_char c then do { b' \<leftarrow> wr b (p + k) c; clean_loop p n b' (Suc i) (Suc k) }
             else clean_loop p n b (Suc i) k }
      else Some (b, k))"
  by pat_completeness auto
termination
  by (relation "measure (\<lambda>(p, n, b, i, k). n - i)") auto

declare clean_loop.simps [simp del]

text \<open>The three bytes of a group.\<close>

definition byte1 :: "8 word \<Rightarrow> 8 word \<Rightarrow> char" where
  "byte1 a b = char_of (unat (push_bit 2 a OR drop_bit 4 b))"

definition byte2 :: "8 word \<Rightarrow> 8 word \<Rightarrow> char" where
  "byte2 b c = char_of (unat (push_bit 4 b OR drop_bit 2 c))"

definition byte3 :: "8 word \<Rightarrow> 8 word \<Rightarrow> char" where
  "byte3 c d = char_of (unat (push_bit 6 c OR d))"

text \<open>
  The second pass over the \<open>n\<close> clean characters, \<open>pad\<close> of them padding.  The result is the block
  and whether the loop ran to its end (an invalid character returns \<open>-1\<close> at once).
\<close>

function decode_loop :: "nat \<Rightarrow> nat \<Rightarrow> nat \<Rightarrow> buf \<Rightarrow> nat \<Rightarrow> nat \<Rightarrow> (buf \<times> bool) option" where
  "decode_loop p n pad buf i j =
     (if i < n - pad then
        do { a \<leftarrow> map_option dec (rd buf (p + i));
             b \<leftarrow> map_option dec (rd buf (p + i + 1));
             c \<leftarrow> (if i + 2 < n then map_option dec (rd buf (p + i + 2)) else Some 0);
             d \<leftarrow> (if i + 3 < n then map_option dec (rd buf (p + i + 3)) else Some 0);
             if a > 63 \<or> b > 63 \<or> c > 63 \<or> d > 63 then Some (buf, False)
             else do {
               buf1 \<leftarrow> wr buf (p + j) (byte1 a b);
               buf2 \<leftarrow> (if i + 2 < n - pad then wr buf1 (p + j + 1) (byte2 b c) else Some buf1);
               buf3 \<leftarrow> (if i + 3 < n - pad then wr buf2 (p + j + 2) (byte3 c d) else Some buf2);
               decode_loop p n pad buf3 (i + 4) (j + 3) } }
      else Some (buf, True))"
  by pat_completeness auto
termination
  by (relation "measure (\<lambda>(p, n, pad, buf, i, j). n - pad - i)") auto

declare decode_loop.simps [simp del]

definition count_padding :: "buf \<Rightarrow> nat \<Rightarrow> nat \<Rightarrow> nat option" where
  "count_padding b p clean_len =
     (if clean_len > 0 then
        do { c1 \<leftarrow> rd b (p + (clean_len - 1));
             if clean_len > 1 then
               do { c2 \<leftarrow> rd b (p + (clean_len - 2));
                    Some ((if c1 = CHR ''='' then 1 else 0) + (if c2 = CHR ''='' then 1 else 0)) }
             else Some (if c1 = CHR ''='' then 1 else 0) }
      else Some 0)"

definition base64_decode :: "buf \<Rightarrow> nat \<Rightarrow> (int \<times> buf) option" where
  "base64_decode b p =
     do { input_len \<leftarrow> strlen_at b p;
          if input_len = 0 then Some (0, b)
          else do {
            (b1, clean_len) \<leftarrow> clean_loop p input_len b 0 0;
            b2 \<leftarrow> wr b1 (p + clean_len) NUL;
            if clean_len mod 4 \<noteq> 0 \<and> clean_len > 0 then Some (-1, b2)
            else do {
              padding \<leftarrow> count_padding b2 p clean_len;
              let output_len = clean_len div 4 * 3 - padding;
              (b3, ok) \<leftarrow> decode_loop p clean_len padding b2 0 0;
              if \<not> ok then Some (-1, b3)
              else do { b4 \<leftarrow> wr b3 (p + output_len) NUL; Some (int output_len, b4) } } } }"

section \<open>The clean pass\<close>

lemma dec_table_le:
  "list_all (\<lambda>n. base64_dec_table ! n \<le> 63) ([65..<91] @ [97..<123] @ [48..<58] @ [43, 47, 61])"
  by code_simp

lemma dec_valid: "valid_base64_char c \<Longrightarrow> dec c \<le> 63"
proof -
  assume "valid_base64_char c"
  then have "byte c \<in> set ([65..<91] @ [97..<123] @ [48..<58] @ [43, 47, 61])"
    by (auto simp: valid_base64_char_def simp del: upt_rec_numeral)
  then show ?thesis using dec_table_le by (simp only: list_all_iff dec_def)
qed

lemma valid_not_NUL: "valid_base64_char c \<Longrightarrow> c \<noteq> NUL"
  by (auto simp: valid_base64_char_def)

lemma clean_loop_filter:
  assumes "drop (p + i) b = s @ r" "length s = n - i" "k \<le> i" "i \<le> n" "p + n \<le> length b"
  shows "\<exists>b'. clean_loop p n b i k = Some (b', k + length (filter valid_base64_char s)) \<and>
     length b' = length b \<and>
     take (p + k + length (filter valid_base64_char s)) b' = take (p + k) b @ filter valid_base64_char s \<and>
     drop (p + n) b' = drop (p + n) b"
  using assms
proof (induction s arbitrary: b i k)
  case Nil
  then show ?case by (subst clean_loop.simps) simp
next
  case (Cons c s)
  then have i: "i < n" "length s = n - Suc i" by auto
  have c: "rd b (p + i) = Some c" "drop (p + Suc i) b = s @ r"
    using drop_eq_ConsD [of "p + i" b c "s @ r"] Cons.prems(1) by (auto simp: rd_def)
  show ?case
  proof (cases "valid_base64_char c")
    case False
    have "clean_loop p n b i k = clean_loop p n b (Suc i) k"
      using i c False by (subst clean_loop.simps) simp
    then show ?thesis using Cons.IH [OF c(2) i(2)] Cons.prems False i by simp
  next
    case True
    let ?b = "put b (p + k) [c]"
    have l: "p + k < length b" using Cons.prems i by simp
    have "clean_loop p n b i k = clean_loop p n ?b (Suc i) (Suc k)"
      using i c True l by (subst clean_loop.simps) (simp add: wr_put)
    moreover have "drop (p + Suc i) ?b = s @ r" using c l Cons.prems by (simp add: drop_put)
    moreover have "take (p + Suc k) ?b = take (p + k) b @ [c]"
      using take_put [of "p + k" "[c]" b] l by simp
    moreover have "drop (p + n) ?b = drop (p + n) b"
      using drop_put [of "p + k" "[c]" "p + n" b] l i Cons.prems(3) by simp
    ultimately show ?thesis
      using Cons.IH [of "Suc i" ?b "Suc k"] i l True Cons.prems by simp
  qed
qed

section \<open>The decoding pass\<close>

text \<open>Reference: the bytes of the groups of four characters.\<close>

fun decode_groups :: "string \<Rightarrow> string" where
  "decode_groups (w # x # y # z # s) =
     byte1 (dec w) (dec x) # byte2 (dec x) (dec y) # byte3 (dec y) (dec z) # decode_groups s"
| "decode_groups s = []"

lemma length_decode_groups: "length (decode_groups s) = length s div 4 * 3"
  by (induction s rule: decode_groups.induct) (auto simp: div_add_self1)

lemma length4: "length (s :: string) mod 4 = 0 \<Longrightarrow> s \<noteq> [] \<Longrightarrow>
  \<exists>w x y z t. s = w # x # y # z # t \<and> length t mod 4 = 0"
  by (induction s rule: decode_groups.induct) auto

text \<open>One round on a group of valid characters: the bytes that are not padding are written.\<close>

lemma decode_loop_step:
  assumes "drop (p + i) b = w # x # y # z # s @ r" "i + 4 + length s = n" "j \<le> i" "pad \<le> 2"
    "pad = 0 \<or> i + 4 \<le> n" "\<forall>c\<in>{w, x, y, z}. valid_base64_char c" "length s mod 4 = 0"
  defines "out \<equiv> (if s = [] then take (3 - pad) [byte1 (dec w) (dec x), byte2 (dec x) (dec y), byte3 (dec y) (dec z)]
      else [byte1 (dec w) (dec x), byte2 (dec x) (dec y), byte3 (dec y) (dec z)])"
  shows "decode_loop p n pad b i j = decode_loop p n pad (put b (p + j) out) (i + 4) (j + 3)"
proof -
  have d: "dec w \<le> 63" "dec x \<le> 63" "dec y \<le> 63" "dec z \<le> 63"
    using assms(6) dec_valid by auto
  have rds: "rd b (p + i) = Some w" "rd b (p + i + 1) = Some x" "rd b (p + i + 2) = Some y"
    "rd b (p + i + 3) = Some z"
    using rd_drop_nth [of "p + i" b "[w, x, y, z]" "s @ r" 0] rd_drop_nth [of "p + i" b "[w, x, y, z]" "s @ r" 1]
      rd_drop_nth [of "p + i" b "[w, x, y, z]" "s @ r" 2] rd_drop_nth [of "p + i" b "[w, x, y, z]" "s @ r" 3]
      assms(1) by auto
  have "4 \<le> length (drop (p + i) b)" by (simp add: assms(1))
  then have l: "p + j + 3 < length b" using assms(3) by simp
  have s4: "s = [] \<or> 4 \<le> length s" using assms(7) by (cases s rule: decode_groups.cases) auto
  have le: "p + j \<le> length b" using l by simp
  have pp: "put (put b (p + j) [e]) (p + j + 1) [f] = put b (p + j) [e, f]"
      "put (put b (p + j) [e, f]) (p + j + 2) [g] = put b (p + j) [e, f, g]" for e f g
    using put_put [OF le, of "[e]" "[f]"] put_put [OF le, of "[e, f]" "[g]"] by simp_all
  have w3: "wr b (p + j) e = Some (put b (p + j) [e])"
    "wr (put b (p + j) [e]) (p + j + 1) f = Some (put b (p + j) [e, f])"
    "wr (put b (p + j) [e, f]) (p + j + 2) g = Some (put b (p + j) [e, f, g])" for e f g
    using l by (simp_all add: wr_put pp [simplified])
  have n: "\<not> 63 < dec w \<and> \<not> 63 < dec x \<and> \<not> 63 < dec y \<and> \<not> 63 < dec z" using d by auto
  have i: "i < n - pad" using assms(2,4) by linarith
  show ?thesis
  proof (cases "s = []")
    case False
    then have "i + 3 < n - pad" "i + 2 < n - pad" "i + 3 < n" "i + 2 < n" using s4 assms(2,4) by linarith+
    with False i n show ?thesis
      by (subst decode_loop.simps) (simp add: rds [simplified] w3 [simplified] out_def)
  next
    case True
    then have ni: "n = i + 4" using assms(2) by simp
    have "pad = 0 \<or> pad = 1 \<or> pad = 2" using assms(4) by linarith
    then show ?thesis using True i n
      by (elim disjE; subst decode_loop.simps) (simp_all add: rds [simplified] w3 [simplified] out_def ni)
  qed
qed

lemma decode_loop_correct:
  assumes "drop (p + i) b = s @ r" "i + length s = n" "j \<le> i" "pad \<le> 2" "pad = 0 \<or> s \<noteq> []"
    "\<forall>c\<in>set s. valid_base64_char c" "length s mod 4 = 0" "p + n \<le> length b"
  shows "\<exists>b'. decode_loop p n pad b i j = Some (b', True) \<and> length b' = length b \<and>
     take (p + j + (length s div 4 * 3 - pad)) b' =
       take (p + j) b @ take (length s div 4 * 3 - pad) (decode_groups s) \<and>
     drop (p + n) b' = drop (p + n) b"
  using assms
proof (induction s arbitrary: b i j rule: decode_groups.induct)
  case (1 w x y z s)
  let ?g = "[byte1 (dec w) (dec x), byte2 (dec x) (dec y), byte3 (dec y) (dec z)]"
  let ?out = "if s = [] then take (3 - pad) ?g else ?g"
  let ?b = "put b (p + j) ?out"
  have lo: "length ?out \<le> 3" by simp
  have lp: "p + j + 4 \<le> length b" using 1 by simp
  have lb: "length ?b = length b" using lp lo by (simp del: if_split) 
  have st: "decode_loop p n pad b i j = decode_loop p n pad ?b (i + 4) (j + 3)"
    using 1 by (intro decode_loop_step [where r = r]) auto
  have dr: "drop (p + n) ?b = drop (p + n) b"
    using 1 lp lo by (intro drop_put) auto
  show ?case
  proof (cases "s = []")
    case True
    have "decode_loop p n pad ?b (i + 4) (j + 3) = Some (?b, True)"
      using "1.prems" True by (subst decode_loop.simps) auto
    moreover have "take (p + j + (3 - pad)) ?b = take (p + j) b @ take (3 - pad) ?g"
      using take_put [of "p + j" "take (3 - pad) ?g" b] lp True by (simp del: take_Cons_numeral)
    ultimately show ?thesis using st dr lb True by simp
  next
    case False
    have "drop (p + (i + 4)) b = s @ r"
      using drop_eq_appendD [of "p + i" b "[w, x, y, z]" "s @ r"] "1.prems"(1)
      by (simp add: eval_nat_numeral)
    then have "drop (p + (i + 4)) ?b = s @ r"
      using drop_put [of "p + j" ?out "p + (i + 4)" b] lp lo "1.prems"(3) by (simp del: if_split)
    moreover have "take (p + (j + 3)) ?b = take (p + j) b @ ?g"
      using take_put [of "p + j" ?g b] lp False by (simp add: eval_nat_numeral)
    ultimately obtain b' where b': "decode_loop p n pad ?b (i + 4) (j + 3) = Some (b', True)"
      "length b' = length b" "take (p + (j + 3) + (length s div 4 * 3 - pad)) b' =
         take (p + j) b @ ?g @ take (length s div 4 * 3 - pad) (decode_groups s)"
      "drop (p + n) b' = drop (p + n) b"
      using "1.IH" [of "i + 4" ?b "j + 3"] "1.prems" False dr lb by auto
    have "4 \<le> length s" using "1.prems"(7) False by (cases s rule: decode_groups.cases) auto
    then have "1 \<le> length s div 4" by simp
    then have "3 \<le> length s div 4 * 3" by linarith
    then have len: "length (w # x # y # z # s) div 4 * 3 - pad = 3 + (length s div 4 * 3 - pad)"
      using "1.prems"(4) by (simp add: div_add_self1)
    have dg: "decode_groups (w # x # y # z # s) = ?g @ decode_groups s" by simp
    have "take (p + j + (3 + (length s div 4 * 3 - pad))) b' =
        take (p + j) b @ take (3 + (length s div 4 * 3 - pad)) (?g @ decode_groups s)"
      using b'(3) by (simp add: add.assoc numeral_3_eq_3)
    then show ?thesis
      unfolding st len dg b'(1) using b'(2,4) by (intro exI [of _ b']) simp
  qed
qed (auto simp: decode_loop.simps)

text \<open>What is in the block afterwards: the data, a terminator, and the bytes behind the old string.\<close>

definition holds_data :: "nat \<Rightarrow> buf \<Rightarrow> buf \<Rightarrow> string \<Rightarrow> bool" where
  "holds_data p b b' out \<longleftrightarrow>
     length b' = length b \<and> take (p + Suc (length out)) b' = take p b @ out @ [NUL] \<and>
     drop (p + Suc (length (cstr (drop p b)))) b' = drop (p + Suc (length (cstr (drop p b)))) b"

definition padding_of :: "string \<Rightarrow> nat" where
  "padding_of c = (if c \<noteq> [] \<and> last c = CHR ''='' then 1 else 0) +
     (if length c > 1 \<and> c ! (length c - 2) = CHR ''='' then 1 else 0)"

definition decode_spec :: "string \<Rightarrow> string" where
  "decode_spec c = take (length c div 4 * 3 - padding_of c) (decode_groups c)"

lemma padding_of_le: "padding_of c \<le> 2" "c = [] \<Longrightarrow> padding_of c = 0"
  by (auto simp: padding_of_def)

lemma length_decode_spec: "length (decode_spec c) = length c div 4 * 3 - padding_of c"
  by (simp add: decode_spec_def length_decode_groups)

text \<open>What the second half of the routine does with a clean text.\<close>

lemma decode_clean:
  assumes "take (p + Suc (length c)) b2 = t @ c @ [NUL]" "length t = p" "length c mod 4 = 0"
    "\<forall>x\<in>set c. valid_base64_char x" "p + Suc (length c) \<le> length b2"
  obtains b3 b4 where "decode_loop p (length c) (padding_of c) b2 0 0 = Some (b3, True)"
    "wr b3 (p + length (decode_spec c)) NUL = Some b4" "length b4 = length b2"
    "take (p + Suc (length (decode_spec c))) b4 = t @ decode_spec c @ [NUL]"
    "drop (p + Suc (length c)) b4 = drop (p + Suc (length c)) b2"
proof -
  have "b2 = t @ c @ NUL # drop (p + Suc (length c)) b2"
    using append_take_drop_id [of "p + Suc (length c)" b2] unfolding assms(1) by simp
  then have d: "drop (p + 0) b2 = c @ NUL # drop (p + Suc (length c)) b2" "take p b2 = t"
    by (metis add.right_neutral append_eq_conv_conj assms(2))+
  have lo: "length (decode_spec c) \<le> length c"
  proof -
    have "length c div 4 * 3 \<le> length c div 4 * 4" by simp
    then show ?thesis by (simp add: length_decode_spec)
  qed
  have "padding_of c = 0 \<or> c \<noteq> []" using padding_of_le [of c] by auto
  then obtain b3 where b3: "decode_loop p (length c) (padding_of c) b2 0 0 = Some (b3, True)"
    "length b3 = length b2" "take (p + length (decode_spec c)) b3 = t @ decode_spec c"
    "drop (p + length c) b3 = drop (p + length c) b2"
    using decode_loop_correct [OF d(1), of "length c" 0 "padding_of c"] assms d(2) padding_of_le [of c]
    by (auto simp: decode_spec_def length_decode_groups)
  let ?b4 = "put b3 (p + length (decode_spec c)) [NUL]"
  have l: "p + length (decode_spec c) < length b3" using assms(5) b3(2) lo by simp
  have "drop (p + Suc (length c)) b3 = drop (p + Suc (length c)) b2"
    using arg_cong [OF b3(4), of "drop 1"] by simp
  then have "drop (p + Suc (length c)) ?b4 = drop (p + Suc (length c)) b2"
    using l lo by (simp add: drop_put)
  moreover have "take (p + Suc (length (decode_spec c))) ?b4 = t @ decode_spec c @ [NUL]"
    using take_put [of "p + length (decode_spec c)" "[NUL]" b3] l b3(3) by simp
  ultimately show ?thesis using that [of b3 ?b4] b3(1,2) l by (simp add: wr_put)
qed

lemma rd_in_take:
  assumes "take (p + n) b = t @ c" "length t = p" "i < length c" "p + n \<le> length b"
  shows "rd b (p + i) = Some (c ! i)"
proof -
  have n: "length c = n" using arg_cong [OF assms(1), of length] assms(2,4) by simp
  then have "b ! (p + i) = take (p + n) b ! (p + i)" using assms(3) by simp
  then show ?thesis using assms n by (simp add: rd_def nth_append)
qed

lemma base64_decode_spec:
  assumes "terminated b p"
  defines "c \<equiv> filter valid_base64_char (cstr (drop p b))"
  shows "\<exists>b'. base64_decode b p =
      Some (if length c mod 4 = 0 then int (length (decode_spec c)) else -1, b') \<and>
    holds_data p b b' (if length c mod 4 = 0 then decode_spec c else c)"
proof -
  let ?s = "cstr (drop p b)" and ?n = "length (cstr (drop p b))"
  obtain r where r: "drop p b = ?s @ NUL # r" using terminatedE [OF assms(1)] by blast
  have l: "p + ?n < length b" by (rule terminated_length [OF assms(1)])
  show ?thesis
  proof (cases "?s = []")
    case True
    then have "base64_decode b p = Some (0, b)" "c = []" 
      using assms(1) by (auto simp: base64_decode_def strlen_at_terminated c_def)
    moreover have "take (Suc p) b = take p b @ [NUL]" "p < length b"
      using r l True by (simp_all add: take_Suc_conv_app_nth) (metis append_Nil drop_eq_ConsD)
    ultimately show ?thesis by (simp add: holds_data_def True decode_spec_def)
  next
    case False
    obtain b1 where b1: "clean_loop p ?n b 0 0 = Some (b1, length c)" "length b1 = length b"
      "take (p + length c) b1 = take p b @ c" "drop (p + ?n) b1 = drop (p + ?n) b"
      using clean_loop_filter [of p 0 b ?s "NUL # r" ?n 0] r l by (auto simp: c_def)
    have lc: "length c \<le> ?n" by (simp add: c_def)
    let ?b2 = "put b1 (p + length c) [NUL]"
    have wr2: "wr b1 (p + length c) NUL = Some ?b2" using b1(2) l lc by (simp add: wr_put)
    have b2: "length ?b2 = length b" "take (p + Suc (length c)) ?b2 = take p b @ c @ [NUL]"
      using b1 l lc take_put [of "p + length c" "[NUL]" b1] by auto
    have "drop (p + Suc ?n) b1 = drop (p + Suc ?n) b"
      using arg_cong [OF b1(4), of "drop 1"] by simp
    then have d2: "drop (p + Suc ?n) ?b2 = drop (p + Suc ?n) b" using b1(2) l lc by (simp add: drop_put)
    have ld: "p + Suc (length c) \<le> length ?b2" "Suc (length c) \<le> Suc ?n" using l lc b2(1) by auto
    show ?thesis
    proof (cases "length c mod 4 = 0")
      case nz: False
      then have "c \<noteq> []" by auto
      then have "base64_decode b p = Some (-1, ?b2)"
        using assms(1) False b1(1) wr2 nz by (simp add: base64_decode_def strlen_at_terminated)
      moreover have "holds_data p b ?b2 c" using b2 d2 by (simp add: holds_data_def)
      ultimately show ?thesis using nz by auto
    next
      case mz: True
      have "\<forall>x\<in>set c. valid_base64_char x" by (auto simp: c_def)
      then obtain b3 b4 where d: "decode_loop p (length c) (padding_of c) ?b2 0 0 = Some (b3, True)"
        "wr b3 (p + length (decode_spec c)) NUL = Some b4" "length b4 = length ?b2"
        "take (p + Suc (length (decode_spec c))) b4 = take p b @ decode_spec c @ [NUL]"
        "drop (p + Suc (length c)) b4 = drop (p + Suc (length c)) ?b2"
        using decode_clean [OF b2(2) _ mz] ld l by auto
      have "drop (p + Suc ?n) b4 = drop (?n - length c) (drop (p + Suc (length c)) b4)" using lc by (simp add: add.commute)
      also have "\<dots> = drop (p + Suc ?n) b" using d(5) d2 lc by (simp add: add.commute)
      finally have hd: "holds_data p b b4 (decode_spec c)" using d b2 by (simp add: holds_data_def)
      have r: "i < length c \<Longrightarrow> rd ?b2 (p + i) = Some (c ! i)" for i
        using rd_in_take [OF b2(2) _ _ ld(1), of i] l by (simp add: nth_append)
      have ol: "length c div 4 * 3 - padding_of c = length (decode_spec c)" by (simp add: length_decode_spec)
      have "count_padding ?b2 p (length c) = Some (padding_of c)"
        using r [of "length c - 1"] r [of "length c - 2"]
        by (cases "c = []") (auto simp: count_padding_def padding_of_def last_conv_nth)
      then have "base64_decode b p = Some (int (length (decode_spec c)), b4)"
        using assms(1) False b1(1) wr2 mz d(1,2) ol
        by (simp add: base64_decode_def strlen_at_terminated)
      then show ?thesis using mz hd by auto
    qed
  qed
qed

section \<open>Round trip with an encoder\<close>

definition b64_alphabet :: string where
  "b64_alphabet = ''ABCDEFGHIJKLMNOPQRSTUVWXYZabcdefghijklmnopqrstuvwxyz0123456789+/''"

definition enc :: "8 word \<Rightarrow> char" where
  "enc v = b64_alphabet ! unat v"

definition sextet1 :: "char \<Rightarrow> 8 word" where
  "sextet1 x = drop_bit 2 (of_char x)"

definition sextet2 :: "char \<Rightarrow> char \<Rightarrow> 8 word" where
  "sextet2 x y = push_bit 4 (take_bit 2 (of_char x)) OR drop_bit 4 (of_char y)"

definition sextet3 :: "char \<Rightarrow> char \<Rightarrow> 8 word" where
  "sextet3 y z = push_bit 2 (take_bit 4 (of_char y)) OR drop_bit 6 (of_char z)"

definition sextet4 :: "char \<Rightarrow> 8 word" where
  "sextet4 z = take_bit 6 (of_char z)"

fun base64_encode :: "string \<Rightarrow> string" where
  "base64_encode [] = []"
| "base64_encode [x] = [enc (sextet1 x), enc (sextet2 x NUL), CHR ''='', CHR ''='']"
| "base64_encode [x, y] = [enc (sextet1 x), enc (sextet2 x y), enc (sextet3 y NUL), CHR ''='']"
| "base64_encode (x # y # z # s) =
     enc (sextet1 x) # enc (sextet2 x y) # enc (sextet3 y z) # enc (sextet4 z) # base64_encode s"

lemma take_bit6_less: "take_bit 6 w < (64 :: 8 word)"
proof -
  have "unat (take_bit 6 w) < 2 ^ 6" by (simp only: unsigned_take_bit_eq take_bit_nat_less_exp)
  then show ?thesis by (simp add: word_less_nat_alt)
qed

lemma six_bits:
  fixes w :: "8 word"
  assumes "\<And>n. bit w n \<Longrightarrow> n < 6"
  shows "w < 64"
proof -
  have "take_bit 6 w = w" using assms by (intro bit_word_eqI) (auto simp: bit_simps)
  then show ?thesis using take_bit6_less [of w] by simp
qed

lemma bit_8: "bit (w :: 8 word) n \<Longrightarrow> n < 8"
  by (drule bit_imp_le_length) simp

lemma sextet_less: "sextet1 x < 64" "sextet2 x y < 64" "sextet3 y z < 64" "sextet4 z < 64"
  by (rule six_bits, auto simp: sextet1_def sextet2_def sextet3_def sextet4_def bit_simps dest: bit_8)+

lemma table_alphabet: "list_all (\<lambda>n. base64_dec_table ! byte (b64_alphabet ! n) = of_nat n \<and> b64_alphabet ! n \<noteq> CHR ''='') [0..<64]"
  by code_simp

lemma dec_enc: "v < 64 \<Longrightarrow> dec (enc v) = v" "v < 64 \<Longrightarrow> enc v \<noteq> CHR ''=''"
proof -
  assume "v < 64"
  then have "unat v \<in> set [0..<64]" by (simp add: word_less_nat_alt del: upt_rec_numeral)
  then have "base64_dec_table ! byte (b64_alphabet ! unat v) = of_nat (unat v) \<and> b64_alphabet ! unat v \<noteq> CHR ''=''"
    using table_alphabet by (simp only: list_all_iff) blast
  then show "dec (enc v) = v" "enc v \<noteq> CHR ''=''" by (simp_all add: dec_def enc_def)
qed

lemma char_of_unat: "char_of (unat (of_char x :: 8 word)) = x"
proof -
  have "unat (of_char x :: 8 word) = byte x"
  proof -
    have "(of_char x :: 8 word) = of_nat (byte x)" by (rule of_nat_of_char [symmetric])
    then show ?thesis using byte_less_256 [of x] by (simp only: unat_of_nat) simp
  qed
  then show ?thesis by simp
qed

lemma Suc_Suc_diff: "2 \<le> n \<Longrightarrow> Suc (Suc (n - 2)) = n"
  by simp

lemma join_sextets:
  "byte1 (sextet1 x) (sextet2 x y) = x"
  "byte2 (sextet2 x y) (sextet3 y z) = y"
  "byte3 (sextet3 y z) (sextet4 z) = z"
proof -
  have "push_bit 2 (sextet1 x) OR drop_bit 4 (sextet2 x y) = (of_char x :: 8 word)"
    by (rule bit_word_eqI, rename_tac n, case_tac "2 \<le> n") (auto simp: sextet1_def sextet2_def bit_simps Suc_Suc_diff dest: bit_8)
  moreover have "push_bit 4 (sextet2 x y) OR drop_bit 2 (sextet3 y z) = (of_char y :: 8 word)"
    by (rule bit_word_eqI, rename_tac n, case_tac "4 \<le> n") (auto simp: sextet2_def sextet3_def bit_simps Suc_Suc_diff dest: bit_8)
  moreover have "push_bit 6 (sextet3 y z) OR sextet4 z = (of_char z :: 8 word)"
    by (rule bit_word_eqI) (auto simp: sextet3_def sextet4_def bit_simps Suc_Suc_diff dest: bit_8)
  ultimately show "byte1 (sextet1 x) (sextet2 x y) = x" "byte2 (sextet2 x y) (sextet3 y z) = y"
    "byte3 (sextet3 y z) (sextet4 z) = z"
    by (simp_all only: byte1_def byte2_def byte3_def char_of_unat)
qed

lemma length_base64_encode_mod: "length (base64_encode s) mod 4 = 0"
  by (induction s rule: base64_encode.induct) auto

lemma padding_of_Cons4:
  assumes "s \<noteq> []" "length s mod 4 = 0"
  shows "padding_of (w # x # y # z # s) = padding_of s"
proof -
  have "4 \<le> length s" using assms by (cases s rule: decode_groups.cases) auto
  then have "length s - 2 + 4 = length (w # x # y # z # s) - 2" "1 < length s" by simp_all
  then show ?thesis using assms(1) by (auto simp: padding_of_def nth_Cons' eval_nat_numeral)
qed

lemma decode_spec_encode: "decode_spec (base64_encode bs) = bs"
proof (induction bs rule: base64_encode.induct)
  case (4 x y z s)
  let ?t = "base64_encode s"
  have m: "length ?t mod 4 = 0" by (rule length_base64_encode_mod)
  show ?case
  proof (cases "?t = []")
    case True
    then have "s = []" using 4 by (simp add: decode_spec_def)
    then show ?thesis
      by (simp add: decode_spec_def padding_of_def dec_enc sextet_less join_sextets)
  next
    case False
    have "4 \<le> length ?t" using False m by (cases ?t rule: decode_groups.cases) auto
    then have "1 \<le> length ?t div 4" by simp
    then have "2 \<le> length ?t div 4 * 3" by linarith
    then have "3 + length ?t div 4 * 3 - padding_of ?t = Suc (Suc (Suc (length ?t div 4 * 3 - padding_of ?t)))"
      using padding_of_le [of ?t] by linarith
    then show ?thesis
      using 4 padding_of_Cons4 [OF False m]
      by (simp add: decode_spec_def dec_enc sextet_less join_sextets div_add_self1)
  qed
qed (simp_all add: decode_spec_def padding_of_def dec_enc sextet_less join_sextets)

lemma holds_data_overwrites:
  assumes "holds_data p b b' out" "terminated b p" "length out \<le> length (cstr (drop p b))"
  shows "overwrites p b b' out"
proof -
  have l: "p + length (cstr (drop p b)) < length b" by (rule terminated_length [OF assms(2)])
  have t: "take (p + Suc (length out)) b' = take p b @ out @ [NUL]" "length b' = length b"
    using assms(1) by (simp_all add: holds_data_def)
  have "b' = (take p b @ out @ [NUL]) @ drop (p + Suc (length out)) b'"
    unfolding t(1) [symmetric] by simp
  then have d: "drop p b' = out @ NUL # drop (p + Suc (length out)) b'" "take p b' = take p b"
    using l by (metis (no_types, lifting) append.assoc append_Cons append_Nil append_eq_conv_conj length_take less_imp_le_nat
        min.absorb2 add_leE)+
  have c: "cstr (drop p b') = cstr out" by (subst d(1)) (simp add: cstr_append_NUL)
  have "terminated b' p" by (subst terminated_def, subst d(1)) simp
  then show ?thesis
    using assms(1,3) c d(2) length_cstr_le [of out] by (simp add: overwrites_def holds_data_def)
qed

text \<open>
  C14: Decoding in place undoes base64 encoding.  If the characters of the base64 alphabet in the
  text at \<open>p\<close> are the encoding of the data \<open>bs\<close> (any other characters, such as line ends, may stand
  between them), \<open>base64_decode\<close> returns the number of bytes of \<open>bs\<close> and leaves \<open>bs\<close> and a
  terminator at \<open>p\<close>, with nothing changed in front of \<open>p\<close> or behind the old string.
\<close>

theorem base64_round_trip:
  assumes "terminated b p" and "filter valid_base64_char (cstr (drop p b)) = base64_encode bs"
  shows "\<exists>b'. base64_decode b p = Some (int (length bs), b') \<and> holds_data p b b' bs"
  using base64_decode_spec [OF assms(1)] assms(2) length_base64_encode_mod [of bs]
  by (simp add: decode_spec_encode)

lemma base64_round_trip_witness:
  "\<exists>b'. base64_decode (''SGVs bG8='' @ [NUL]) 0 = Some (5, b') \<and> holds_data 0 (''SGVs bG8='' @ [NUL]) b' ''Hello''"
  using base64_round_trip [of "''SGVs bG8='' @ [NUL]" 0 "''Hello''"]
  by (simp add: terminated_def cstr_def valid_base64_char_def enc_def b64_alphabet_def sextet1_def
      sextet2_def sextet3_def sextet4_def) 

text \<open>
  C15: The error behaviour: \<open>base64_decode\<close> never leaves the block of a terminated text, and it
  returns -1 exactly when the number of base64 characters in the text is not a multiple of four;
  then the text has been replaced by those characters.
\<close>

theorem base64_decode_error_iff:
  assumes "terminated b p"
  shows "\<exists>n b'. base64_decode b p = Some (n, b') \<and>
    (n = -1 \<longleftrightarrow> length (filter valid_base64_char (cstr (drop p b))) mod 4 \<noteq> 0) \<and>
    (n = -1 \<longrightarrow> holds_data p b b' (filter valid_base64_char (cstr (drop p b)))) \<and>
    (n \<noteq> -1 \<longrightarrow> n \<le> int (length (cstr (drop p b))))"
proof -
  let ?c = "filter valid_base64_char (cstr (drop p b))"
  obtain b' where b': "base64_decode b p =
      Some (if length ?c mod 4 = 0 then int (length (decode_spec ?c)) else -1, b')"
    "holds_data p b b' (if length ?c mod 4 = 0 then decode_spec ?c else ?c)"
    using base64_decode_spec [OF assms] by blast
  have "length (decode_spec ?c) \<le> length ?c" by (simp add: length_decode_spec) 
  then have "length (decode_spec ?c) \<le> length (cstr (drop p b))"
    by (meson length_filter_le le_trans)
  then show ?thesis using b' by (cases "length ?c mod 4 = 0") auto
qed

lemma base64_decode_error_iff_witness:
  "\<exists>n b'. base64_decode (''SGVsb'' @ [NUL]) 0 = Some (n, b') \<and> n = -1"
  using base64_decode_error_iff [of "''SGVsb'' @ [NUL]" 0]
  by (auto simp: terminated_def cstr_def valid_base64_char_def)

end
