(* ===== verification/Quoted_Printable.thy ===== *)
theory Quoted_Printable
  imports C_Buffer
begin

text \<open>
  \<open>src/qp.c\<close>: decoding of quoted-printable text in place.  The loop runs over the length the text
  had at the start, but asks for \<open>strlen (p)\<close> again before it decodes: once a decoded NUL has been
  written, everything behind it is copied as it is.
\<close>

definition hex_table :: "nat list" where
  "hex_table =
    replicate 48 0 @
    [0, 1, 2, 3, 4, 5, 6, 7, 8, 9, 0, 0, 0, 0, 0, 0,
     0, 10, 11, 12, 13, 14, 15, 0, 0, 0, 0, 0, 0, 0, 0, 0] @ replicate 16 0 @
    [0, 10, 11, 12, 13, 14, 15, 0, 0, 0, 0, 0, 0, 0, 0, 0] @ replicate 144 0"

definition hex_char :: "char \<Rightarrow> char \<Rightarrow> char" where
  "hex_char a b = char_of (16 * hex_table ! byte a + hex_table ! byte b)"

text \<open>The bytes at \<open>p + i + 1\<close> and \<open>p + i + 2\<close> are looked at only when they are in front of the terminator.\<close>

function decodeQP_loop :: "nat \<Rightarrow> nat \<Rightarrow> buf \<Rightarrow> nat \<Rightarrow> nat \<Rightarrow> (buf \<times> nat) option" where
  "decodeQP_loop p len b i k =
     (if i < len then
        do { c \<leftarrow> rd b (p + i);
             n \<leftarrow> strlen_at b p;
             if c = CHR ''='' \<and> i + 2 < n \<and> isxdigit (b ! (p + i + 1)) \<and> isxdigit (b ! (p + i + 2)) then
               do { b' \<leftarrow> wr b (p + k) (hex_char (b ! (p + i + 1)) (b ! (p + i + 2)));
                    decodeQP_loop p len b' (i + 3) (Suc k) }
             else if c = CHR ''='' \<and> i + 1 < n \<and> b ! (p + i + 1) = CR \<and> i + 2 < n \<and> b ! (p + i + 2) = LF then
               decodeQP_loop p len b (i + 3) k
             else if c = CHR ''='' \<and> i + 1 < n \<and> b ! (p + i + 1) = LF then
               decodeQP_loop p len b (i + 2) k
             else do { b' \<leftarrow> wr b (p + k) (if c = CHR ''_'' then SPACE else c);
                       decodeQP_loop p len b' (Suc i) (Suc k) } }
      else Some (b, k))"
  by pat_completeness auto
termination
  by (relation "measure (\<lambda>(p, len, b, i, k). len - i)") auto

declare decodeQP_loop.simps [simp del]

definition decodeQP :: "buf \<Rightarrow> nat \<Rightarrow> buf option" where
  "decodeQP b p =
     do { len \<leftarrow> strlen_at b p;
          (b', k) \<leftarrow> decodeQP_loop p len b 0 0;
          wr b' (p + k) NUL }"

section \<open>The loop computes a stream\<close>

text \<open>The state says whether a NUL has been written.\<close>

definition qp_step :: "bool \<Rightarrow> string \<Rightarrow> string \<times> nat \<times> bool" where
  "qp_step z s =
     (case s of
        [] \<Rightarrow> ([], 1, z)
      | c # t \<Rightarrow>
          if \<not> z \<and> c = CHR ''='' \<and> length t \<ge> 2 \<and> isxdigit (t ! 0) \<and> isxdigit (t ! 1)
          then ([hex_char (t ! 0) (t ! 1)], 3, hex_char (t ! 0) (t ! 1) = NUL)
          else if \<not> z \<and> c = CHR ''='' \<and> length t \<ge> 2 \<and> t ! 0 = CR \<and> t ! 1 = LF then ([], 3, z)
          else if \<not> z \<and> c = CHR ''='' \<and> length t \<ge> 1 \<and> t ! 0 = LF then ([], 2, z)
          else ([if c = CHR ''_'' then SPACE else c], 1, z))"

lemma qp_step_Cons:
  "qp_step z (c # t) =
     (if \<not> z \<and> c = CHR ''='' \<and> length t \<ge> 2 \<and> isxdigit (t ! 0) \<and> isxdigit (t ! 1)
      then ([hex_char (t ! 0) (t ! 1)], 3, hex_char (t ! 0) (t ! 1) = NUL)
      else if \<not> z \<and> c = CHR ''='' \<and> length t \<ge> 2 \<and> t ! 0 = CR \<and> t ! 1 = LF then ([], 3, z)
      else if \<not> z \<and> c = CHR ''='' \<and> length t \<ge> 1 \<and> t ! 0 = LF then ([], 2, z)
      else ([if c = CHR ''_'' then SPACE else c], 1, z))"
  by (simp add: qp_step_def)

definition qp_run :: "nat \<Rightarrow> nat \<Rightarrow> buf \<Rightarrow> nat \<Rightarrow> nat \<Rightarrow> bool \<Rightarrow> (buf \<times> nat) option" where
  "qp_run p len b src dst z =
     map_option (\<lambda>(b', k). (b', p + k))
       (decodeQP_loop p len b (src - p) (dst - p))"

text \<open>The block inside the loop: \<open>U\<close> has been written, \<open>V\<close> is left over, \<open>s\<close> is still to be read.\<close>

definition qp_inv :: "nat \<Rightarrow> nat \<Rightarrow> buf \<Rightarrow> nat \<Rightarrow> nat \<Rightarrow> bool \<Rightarrow> bool" where
  "qp_inv p len b src dst z \<longleftrightarrow> (\<exists>P U V s r. b = P @ U @ V @ s @ NUL # r \<and> length P = p \<and>
     dst = p + length U \<and> src = dst + length V \<and> p + len = src + length s \<and>
     z = (NUL \<in> set U) \<and> NUL \<notin> set V \<and> NUL \<notin> set s)"

lemma cstr_append: "NUL \<notin> set u \<Longrightarrow> cstr (u @ v) = u @ cstr v"
  by (simp add: cstr_def takeWhile_append)

lemma cstr_append_in: "NUL \<in> set u \<Longrightarrow> length (cstr (u @ v)) < length u"
  by (induction u) (auto simp: cstr_Cons)

text \<open>What \<open>strlen (p)\<close> says inside the loop.\<close>

lemma qp_inv_strlen:
  assumes "qp_inv p len b src dst z"
  shows "\<exists>n. strlen_at b p = Some n \<and> (z \<longrightarrow> n < src - p) \<and> (\<not> z \<longrightarrow> n = len)"
proof -
  obtain P U V s r where b: "b = P @ U @ V @ s @ NUL # r" "length P = p" "dst = p + length U"
    "src = dst + length V" "p + len = src + length s" "z = (NUL \<in> set U)" "NUL \<notin> set V" "NUL \<notin> set s"
    using assms by (auto simp: qp_inv_def)
  have d: "drop p b = U @ V @ s @ NUL # r" using b by simp
  then have "terminated b p" by (simp add: terminated_def)
  moreover have "z \<Longrightarrow> length (cstr (drop p b)) < src - p"
    using cstr_append_in [of U "V @ s @ NUL # r"] b d by simp
  moreover have "\<not> z \<Longrightarrow> length (cstr (drop p b)) = len"
    using b unfolding d by (simp add: cstr_append cstr_Cons)
  ultimately show ?thesis by (auto simp: strlen_at_terminated)
qed

lemma qp_invI:
  "b = P @ U @ V @ s @ NUL # r \<Longrightarrow> length P = p \<Longrightarrow> dst = p + length U \<Longrightarrow> src = dst + length V \<Longrightarrow>
   p + len = src + length s \<Longrightarrow> z = (NUL \<in> set U) \<Longrightarrow> NUL \<notin> set V \<Longrightarrow> NUL \<notin> set s \<Longrightarrow>
   qp_inv p len b src dst z"
  by (unfold qp_inv_def, intro exI conjI)

lemma qp_invE:
  assumes "qp_inv p len b src dst z" "drop src b = s @ NUL # r" "NUL \<notin> set s"
  obtains P U V where "b = P @ U @ V @ s @ NUL # r" "length P = p" "dst = p + length U"
    "src = dst + length V" "p + len = src + length s" "z = (NUL \<in> set U)" "NUL \<notin> set V"
proof -
  obtain P U V s' r' where b: "b = P @ U @ V @ s' @ NUL # r'" "length P = p" "dst = p + length U"
    "src = dst + length V" "p + len = src + length s'" "z = (NUL \<in> set U)" "NUL \<notin> set V" "NUL \<notin> set s'"
    using assms by (auto simp: qp_inv_def)
  have e: "s' @ NUL # r' = s @ NUL # r" using b(1-4) assms(2) by simp
  have "s' = s" using arg_cong [OF e, of cstr] b(8) assms(3) by (simp add: cstr_append_NUL cstr_id)
  with e b that show ?thesis by simp
qed

lemma qp_inv_put:
  assumes "qp_inv p len b src dst z" "drop src b = s @ NUL # r" "NUL \<notin> set s" "length out \<le> n" "n \<le> length s"
  shows "qp_inv p len (put b dst out) (src + n) (dst + length out) (z \<or> NUL \<in> set out)"
proof -
  obtain P U V where b: "b = P @ U @ V @ s @ NUL # r" "length P = p" "dst = p + length U"
    "src = dst + length V" "p + len = src + length s" "z = (NUL \<in> set U)" "NUL \<notin> set V"
    using qp_invE [OF assms(1-3)] by blast
  define X where "X = drop (length out) (V @ take n s)"
  have "put b dst out = P @ (U @ out) @ X @ drop n s @ NUL # r"
    using assms(4,5) b(1-4) drop_append [of "length out - length V" "take n s" "drop n s"]
    by (simp add: put_def X_def)
  moreover have "NUL \<notin> set X" "NUL \<notin> set (drop n s)"
    using b(7) assms(3) by (auto simp: X_def dest!: in_set_dropD in_set_takeD)
  moreover have "length X = length V + n - length out" using assms(5) by (simp add: X_def)
  ultimately show ?thesis
    using b assms(4,5) by (intro qp_invI [of _ P "U @ out" X "drop n s" r]) auto
qed

interpretation qp: inplace_loop "qp_run p len" qp_step "qp_inv p len" for p len
proof unfold_locales
  fix src :: nat and b r dst st
  assume a: "drop src b = NUL # r" "qp_inv p len b src dst st"
  obtain P U V where b: "b = P @ U @ V @ [] @ NUL # r" "length P = p" "dst = p + length U"
    "src = dst + length V" "p + len = src + length []" "st = (NUL \<in> set U)" "NUL \<notin> set V"
    by (rule qp_invE [OF a(2), of "[]" r]) (use a in simp_all)
  then show "qp_run p len b src dst st = Some (b, dst)"
    using b by (simp add: qp_run_def decodeQP_loop.simps)
next
  fix src :: nat and b s r dst st out n st'
  assume a: "drop src b = s @ NUL # r" "NUL \<notin> set s" "s \<noteq> []" "dst \<le> src" "qp_inv p len b src dst st"
    "qp_step st s = (out, n, st')"
  obtain c t where s: "s = c # t" using a(3) by (cases s) auto
  show "qp_run p len b src dst st = qp_run p len (put b dst out) (src + n) (dst + length out) st' \<and>
     qp_inv p len (put b dst out) (src + n) (dst + length out) st'"
  proof -
    define i where "i = src - p"
    define k where "k = dst - p"
    obtain P U V where b: "b = P @ U @ V @ s @ NUL # r" "length P = p" "dst = p + length U" "src = dst + length V"
      "p + len = src + length s"
      by (rule qp_invE [OF a(5,1,2)], rule that)
    then have pk: "src = p + i" "dst = p + k" "k \<le> i" and len: "i < len" "i + Suc (length t) = len"
      using s by (simp_all add: i_def k_def)
    obtain m where m: "strlen_at b p = Some m" "st \<longrightarrow> m < i" "\<not> st \<longrightarrow> m = len"
      using qp_inv_strlen [OF a(5)] unfolding i_def by auto
    have rd: "rd b (p + i) = Some c" "p + k < length b"
      using a(1) s drop_eq_ConsD [of src b c "t @ NUL # r"] pk by (auto simp: rd_def)
    have nx: "1 \<le> length t \<Longrightarrow> b ! (p + i + 1) = t ! 0" "2 \<le> length t \<Longrightarrow> b ! (p + i + 2) = t ! 1"
      using drop_nth_prefix [of src b s "NUL # r" 1] drop_nth_prefix [of src b s "NUL # r" 2] a(1) s pk
      by (auto simp: Suc_le_eq)
    have st': "st' = (st \<or> NUL \<in> set out)" "length out \<le> n" "n \<le> length s"
      using a(2,6) s by (auto simp: qp_step_Cons split: if_splits)
    have c2: "i + 2 < m \<longleftrightarrow> \<not> st \<and> 2 \<le> length t" and c1: "i + 1 < m \<longleftrightarrow> \<not> st \<and> 1 \<le> length t"
      using m(2,3) len by linarith+
    have hex: "(c = CHR ''='' \<and> i + 2 < m \<and> isxdigit (b ! (p + i + 1)) \<and> isxdigit (b ! (p + i + 2))) =
        (\<not> st \<and> c = CHR ''='' \<and> 2 \<le> length t \<and> isxdigit (t ! 0) \<and> isxdigit (t ! 1))"
      unfolding c2 using nx by auto
    have crlf: "(c = CHR ''='' \<and> i + 1 < m \<and> b ! (p + i + 1) = CR \<and> i + 2 < m \<and> b ! (p + i + 2) = LF) =
        (\<not> st \<and> c = CHR ''='' \<and> 2 \<le> length t \<and> t ! 0 = CR \<and> t ! 1 = LF)"
      unfolding c1 c2 using nx by auto
    have lf: "(c = CHR ''='' \<and> i + 1 < m \<and> b ! (p + i + 1) = LF) =
        (\<not> st \<and> c = CHR ''='' \<and> 1 \<le> length t \<and> t ! 0 = LF)"
      unfolding c1 using nx by auto
    define H where "H \<longleftrightarrow> \<not> st \<and> c = CHR ''='' \<and> 2 \<le> length t \<and> isxdigit (t ! 0) \<and> isxdigit (t ! 1)"
    define C where "C \<longleftrightarrow> \<not> st \<and> c = CHR ''='' \<and> 2 \<le> length t \<and> t ! 0 = CR \<and> t ! 1 = LF"
    define L where "L \<longleftrightarrow> \<not> st \<and> c = CHR ''='' \<and> 1 \<le> length t \<and> t ! 0 = LF"
    define hb where "hb = hex_char (b ! (p + i + 1)) (b ! (p + i + 2))"
    define hc where "hc = hex_char (t ! 0) (t ! 1)"
    let ?next = "decodeQP_loop p len" and ?x = "if c = CHR ''_'' then SPACE else c"
    have round: "?next b i k =
        (if H then ?next (put b (p + k) [hb]) (i + 3) (Suc k)
         else if C then ?next b (i + 3) k
         else if L then ?next b (i + 2) k
         else ?next (put b (p + k) [?x]) (Suc i) (Suc k))"
      by (subst decodeQP_loop.simps)
        (simp only: len(1) if_True rd(1) m(1) Option.bind.simps wr_put [OF rd(2)] hex crlf lf
          H_def [symmetric] C_def [symmetric] L_def [symmetric] hb_def [symmetric])
    have nx2: "H \<Longrightarrow> hb = hc"
      using nx by (simp add: H_def hb_def hc_def)
    have "(if H then ([hc], 3, hc = NUL)
        else if C then ([], 3, st) else if L then ([], 2, st) else ([?x], 1, st)) = (out, n, st')"
      using a(6) unfolding s qp_step_Cons
      by (simp only: H_def [symmetric] C_def [symmetric] L_def [symmetric] hc_def [symmetric])
    then have "?next b i k = ?next (put b (p + k) out) (i + n) (k + length out)"
      unfolding round by (cases H; cases C; cases L) (auto simp only: nx2 if_True if_False prod.inject
          list.size add_Suc_right add_0_right One_nat_def put_Nil)
    then show ?thesis
      using qp_inv_put [OF a(5,1,2) st'(2,3)] st'(1) pk by (simp add: qp_run_def add.assoc)
  qed
qed (auto simp: qp_step_def Suc_le_eq split: if_splits list.splits)

section \<open>What is decoded\<close>

text \<open>Reference: quoted-printable decoding of a text, without the special role of NUL.\<close>

fun qp_decode :: "string \<Rightarrow> string" where
  "qp_decode [] = []"
| "qp_decode (c # s) =
     (if c = CHR ''='' then
        (case s of
           x # y # t \<Rightarrow>
             if isxdigit x \<and> isxdigit y then hex_char x y # qp_decode t
             else if x = CR \<and> y = LF then qp_decode t
             else if x = LF then qp_decode (y # t)
             else c # qp_decode s
         | [x] \<Rightarrow> if x = LF then [] else c # qp_decode s
         | [] \<Rightarrow> [c])
      else (if c = CHR ''_'' then SPACE else c) # qp_decode s)"

lemma qp_stream_Cons:
  "stream qp_step z (c # s) =
     (case qp_step z (c # s) of (out, n, z') \<Rightarrow> out @ stream qp_step z' (drop n (c # s)))"
proof -
  obtain out n z' where st: "qp_step z (c # s) = (out, n, z')" by (rule prod_cases3)
  moreover have "0 < n" using st by (auto simp: qp_step_Cons split: if_splits)
  ultimately show ?thesis using stream_step [of "c # s" qp_step z out n z'] by simp
qed

lemma qp_stream_cstr:
  "NUL \<notin> set s \<Longrightarrow> cstr (stream qp_step False s) = cstr (qp_decode s)"
proof (induction s rule: qp_decode.induct)
  case (2 c s)
  show ?case
  proof (cases "c = CHR ''=''")
    case False
    then show ?thesis using 2 by (simp add: qp_stream_Cons qp_step_Cons cstr_Cons)
  next
    case c: True
    consider (nil) "s = []" | (one) x where "s = [x]" | (two) x y t where "s = x # y # t"
      by (metis neq_Nil_conv)
    then show ?thesis
    proof cases
      case nil
      then show ?thesis using c by (simp add: qp_stream_Cons qp_step_Cons)
    next
      case one
      then show ?thesis using c by (simp add: qp_stream_Cons qp_step_Cons cstr_Cons)
    next
      case two
      let ?st = "stream qp_step"
      have d: "drop 2 s = t" "drop (Suc 0) s = y # t" by (simp_all add: two)
      have q: "qp_step False (c # s) =
          (if isxdigit x \<and> isxdigit y then ([hex_char x y], 3, hex_char x y = NUL)
           else if x = CR \<and> y = LF then ([], 3, False)
           else if x = LF then ([], 2, False) else ([c], 1, False))"
        by (simp add: qp_step_Cons c two)
      have z: "?st False (c # s) =
          (if isxdigit x \<and> isxdigit y then hex_char x y # ?st (hex_char x y = NUL) t
           else if x = CR \<and> y = LF then ?st False t
           else if x = LF then ?st False (y # t) else c # ?st False s)"
        unfolding qp_stream_Cons [of False c s] q by (auto simp: d)
      have dq: "qp_decode (c # s) =
          (if isxdigit x \<and> isxdigit y then hex_char x y # qp_decode t
           else if x = CR \<and> y = LF then qp_decode t
           else if x = LF then qp_decode (y # t) else c # qp_decode s)"
        by (subst qp_decode.simps(2)) (simp only: c two list.case if_True simp_thms)
      have n: "NUL \<notin> set s" "NUL \<notin> set t" "NUL \<notin> set (y # t)" "c \<noteq> NUL" using "2.prems" two by auto
      show ?thesis unfolding z dq
        using 2(2) [OF c two refl _ n(2)] 2(3) [OF c two refl _ _ n(2)] 2(4) [OF c two refl _ _ _ n(3)]
          2(5) [OF c two refl _ _ _ n(1)]
        by (cases "hex_char x y = NUL") (auto simp: cstr_Cons n(4) simp del: qp_decode.simps)
    qed
  qed
qed simp

text \<open>
  In place decoding of quoted-printable text is total on terminated blocks and leaves, as a C
  string, exactly what the reference decoder produces, with nothing changed in front of the text or
  behind its old end.
\<close>

lemma decodeQP_total:
  assumes "terminated b p"
  shows "\<exists>b'. decodeQP b p = Some b' \<and> overwrites p b b' (qp_decode (cstr (drop p b)))"
proof -
  let ?s = "cstr (drop p b)" and ?n = "length (cstr (drop p b))"
  obtain r where r: "drop p b = ?s @ NUL # r" "p < length b" using terminatedE [OF assms] by blast
  then have "b = take p b @ [] @ [] @ ?s @ NUL # r" by (metis append_Nil append_take_drop_id)
  then have "qp_inv p ?n b p p False" using r(2) by (intro qp_invI [of b "take p b"]) auto
  then obtain b1 b2 where b: "qp_run p ?n b p p False = Some (b1, p + length (stream qp_step False ?s))"
    "wr b1 (p + length (stream qp_step False ?s)) NUL = Some b2" "overwrites p b b2 (stream qp_step False ?s)"
    using qp.loop_overwrites [OF assms] by blast
  then have "decodeQP_loop p ?n b 0 0 = Some (b1, length (stream qp_step False ?s))"
    by (auto simp: qp_run_def)
  then show ?thesis
    using b(2) overwrites_cong [OF b(3) qp_stream_cstr [OF cstr_no_NUL]] assms
    by (simp add: decodeQP_def strlen_at_terminated)
qed

section \<open>Round trip with an encoder\<close>

text \<open>
  What an encoder of RFC 2045 may write for a text: bytes that stand for themselves, bytes written as two
  hexadecimal digits, each of either case, and soft line breaks anywhere.  The \<open>Q\<close> encoding of the words of
  RFC 2047 uses the same pieces, but an underscore that is not escaped stands for a blank.
\<close>

datatype qp_piece = Literal char | Escaped char bool bool | Soft_break bool

definition nibble :: "bool \<Rightarrow> nat \<Rightarrow> char" where
  "nibble lower n = (if lower then ''0123456789abcdef'' else ''0123456789ABCDEF'') ! n"

fun qp_written :: "qp_piece \<Rightarrow> string" where
  "qp_written (Literal c) = [c]"
| "qp_written (Escaped c hi lo) = [CHR ''='', nibble hi (byte c div 16), nibble lo (byte c mod 16)]"
| "qp_written (Soft_break cr) = (if cr then [CHR ''='', CR, LF] else [CHR ''='', LF])"

fun qp_meant :: "bool \<Rightarrow> qp_piece \<Rightarrow> string" where
  "qp_meant q (Literal c) = [if q \<and> c = CHR ''_'' then SPACE else c]"
| "qp_meant q (Escaped c hi lo) = [c]"
| "qp_meant q (Soft_break cr) = []"

definition qp_encoding :: "qp_piece list \<Rightarrow> string" where
  "qp_encoding ps = concat (map qp_written ps)"

definition qp_text :: "bool \<Rightarrow> qp_piece list \<Rightarrow> string" where
  "qp_text q ps = concat (map (qp_meant q) ps)"

lemma nibbles:
  "list_all (\<lambda>l. list_all (\<lambda>n. isxdigit (nibble l n) \<and> hex_table ! byte (nibble l n) = n) [0..<16]) [True, False]"
  by code_simp

lemma hex_char_nibbles:
  "isxdigit (nibble hi (byte c div 16))" "isxdigit (nibble lo (byte c mod 16))"
  "hex_char (nibble hi (byte c div 16)) (nibble lo (byte c mod 16)) = c"
proof -
  have n: "n < 16 \<Longrightarrow> isxdigit (nibble l n) \<and> hex_table ! byte (nibble l n) = n" for n l
    using nibbles by (cases l) (simp_all only: list_all_iff set_upt atLeastLessThan_iff list.set ball_simps, simp_all)
  have d: "byte c div 16 < 16" "byte c mod 16 < 16" using byte_less_256 [of c]
    by (simp_all add: less_mult_imp_div_less)
  show "isxdigit (nibble hi (byte c div 16))" "isxdigit (nibble lo (byte c mod 16))"
    using n [OF d(1)] n [OF d(2)] by auto
  show "hex_char (nibble hi (byte c div 16)) (nibble lo (byte c mod 16)) = c"
    using n [OF d(1)] n [OF d(2)] by (simp add: hex_char_def)
qed

lemma isxdigit_line_end: "\<not> isxdigit CR" "\<not> isxdigit LF"
  by (simp_all add: isxdigit_def isdigit_def)

lemma qp_decode_soft: "qp_decode (CHR ''='' # LF # t) = qp_decode t" "qp_decode (CHR ''='' # CR # LF # t) = qp_decode t"
  by (cases t; simp add: isxdigit_line_end)+

lemma qp_decode_encoding: "Literal (CHR ''='') \<notin> set ps \<Longrightarrow> qp_decode (qp_encoding ps) = qp_text True ps"
proof (induction ps)
  case (Cons x ps)
  then have IH: "qp_decode (qp_encoding ps) = qp_text True ps" by simp
  have x: "qp_encoding (y # ps) = qp_written y @ qp_encoding ps" "qp_text True (y # ps) = qp_meant True y @ qp_text True ps"
    for y by (simp_all add: qp_encoding_def qp_text_def)
  show ?case
  proof (cases x)
    case (Soft_break cr)
    then show ?thesis unfolding Soft_break x by (cases cr) (simp_all add: qp_decode_soft IH del: qp_decode.simps)
  qed (use Cons.prems in \<open>auto simp: x IH hex_char_nibbles\<close>)
qed (simp add: qp_encoding_def qp_text_def)

lemma qp_text_eq_iff: "qp_text True ps = qp_text False ps \<longleftrightarrow> Literal (CHR ''_'') \<notin> set ps"
proof (induction ps)
  case (Cons x ps)
  then show ?case by (cases x) (auto simp: qp_text_def)
qed (simp add: qp_text_def)

text \<open>
  C16: Decoding in place undoes the \<open>Q\<close> encoding of RFC 2047 and, exactly for texts whose underscores are
  escaped, the quoted-printable encoding of RFC 2045.  Whatever pieces the encoder chose, escapes of either
  case and soft line breaks included, the text of the \<open>Q\<close> encoding is restored, for a text without NUL; this is
  the text of the quoted-printable encoding if and only if no underscore stands for itself, and otherwise
  that text with blanks for these underscores.
\<close>

theorem qp_round_trip:
  assumes "terminated b p" and "cstr (drop p b) = qp_encoding ps" and "Literal (CHR ''='') \<notin> set ps"
    and "NUL \<notin> set (qp_text True ps)"
  shows "\<exists>b'. decodeQP b p = Some b' \<and> overwrites p b b' (qp_text True ps) \<and> cstr (drop p b') = qp_text True ps \<and>
    (cstr (drop p b') = qp_text False ps \<longleftrightarrow> Literal (CHR ''_'') \<notin> set ps)"
  using decodeQP_total [OF assms(1)] qp_decode_encoding [OF assms(3)] assms(2,4) qp_text_eq_iff [of ps]
  by (auto simp: overwrites_def cstr_id)

lemma qp_round_trip_witness:
  "\<exists>b'. decodeQP (''a=3d='' @ [LF] @ ''b_c'' @ [NUL]) 0 = Some b' \<and> cstr b' = ''a=b c'' \<and> cstr b' \<noteq> ''a=b_c''"
proof -
  let ?ps = "[Literal (CHR ''a''), Escaped (CHR ''='') False True, Soft_break False, Literal (CHR ''b''),
    Literal (CHR ''_''), Literal (CHR ''c'')]"
  have c: "cstr (drop 0 (''a=3d='' @ [LF] @ ''b_c'' @ [NUL])) = qp_encoding ?ps"
    by (simp add: cstr_def nibble_def qp_encoding_def)
  have "terminated (''a=3d='' @ [LF] @ ''b_c'' @ [NUL]) 0" by (simp add: terminated_def)
  from qp_round_trip [OF this c] show ?thesis by (auto simp: qp_text_def)
qed

end
