(* ===== verification/Html.thy ===== *)
theory Html
  imports C_Buffer
begin

text \<open>
  \<open>src/entities.c\<close> and \<open>src/html.c\<close>: UTF-8 encoding of a code point, replacing numeric character
  references, and reducing HTML to its text, all in place.  A search in the rest of the text works
  on the C string that starts at the read pointer; the single bytes the code looks at are checked
  reads, so that looking in front of the block is the value \<open>None\<close>.
\<close>

unbundle bit_operations_syntax

section \<open>UTF-8\<close>

definition utf8_byte :: "32 word \<Rightarrow> char" where
  "utf8_byte w = char_of (unat w)"

definition encode_utf8 :: "32 word \<Rightarrow> string" where
  "encode_utf8 cp =
     (if cp \<le> 0x7F then [utf8_byte cp]
      else if cp \<le> 0x7FF then
        [utf8_byte (0xC0 OR (drop_bit 6 cp AND 0x1F)), utf8_byte (0x80 OR (cp AND 0x3F))]
      else if cp \<le> 0xFFFF then
        [utf8_byte (0xE0 OR (drop_bit 12 cp AND 0x0F)), utf8_byte (0x80 OR (drop_bit 6 cp AND 0x3F)),
         utf8_byte (0x80 OR (cp AND 0x3F))]
      else if cp \<le> 0x10FFFF then
        [utf8_byte (0xF0 OR (drop_bit 18 cp AND 0x07)), utf8_byte (0x80 OR (drop_bit 12 cp AND 0x3F)),
         utf8_byte (0x80 OR (drop_bit 6 cp AND 0x3F)), utf8_byte (0x80 OR (cp AND 0x3F))]
      else [])"

text \<open>Reference: reading one code point.\<close>

definition is_cont :: "char \<Rightarrow> bool" where
  "is_cont c \<longleftrightarrow> byte c div 64 = 2"

fun decode_utf8 :: "string \<Rightarrow> nat option" where
  "decode_utf8 [a] = (if byte a < 128 then Some (byte a) else None)"
| "decode_utf8 [a, b] =
     (if byte a div 32 = 6 \<and> is_cont b then Some (byte a mod 32 * 64 + byte b mod 64) else None)"
| "decode_utf8 [a, b, c] =
     (if byte a div 16 = 14 \<and> is_cont b \<and> is_cont c
      then Some (byte a mod 16 * 4096 + byte b mod 64 * 64 + byte c mod 64) else None)"
| "decode_utf8 [a, b, c, d] =
     (if byte a div 8 = 30 \<and> is_cont b \<and> is_cont c \<and> is_cont d
      then Some (byte a mod 8 * 262144 + byte b mod 64 * 4096 + byte c mod 64 * 64 + byte d mod 64) else None)"
| "decode_utf8 _ = None"

lemma unat_or_take_bit:
  fixes c w :: "32 word"
  assumes "take_bit n c = 0" and "unat c + 2 ^ n \<le> 2 ^ 32"
  shows "unat (c OR take_bit n w) = unat c + unat w mod 2 ^ n"
proof -
  have "c AND take_bit n w = take_bit n c AND w"
    by (rule bit_word_eqI) (auto simp: bit_simps)
  then have "c OR take_bit n w = c + take_bit n w"
    using assms(1) by (simp add: disjunctive_add_eq_or)
  moreover have t: "unat (take_bit n w) = unat w mod 2 ^ n"
    by (simp add: unsigned_take_bit_eq flip: take_bit_eq_mod)
  moreover have "unat c + unat (take_bit n w) < 2 ^ LENGTH(32)"
    using assms(2) unfolding t
    by (simp add: less_le_trans [OF add_strict_left_mono [OF mod_less_divisor]])
  ultimately show ?thesis by (metis unat_add_lem)
qed

lemma or_lead:
  "unat (0xC0 OR (w AND 0x1F) :: 32 word) = 192 + unat w mod 32"
  "unat (0xE0 OR (w AND 0x0F) :: 32 word) = 224 + unat w mod 16"
  "unat (0xF0 OR (w AND 0x07) :: 32 word) = 240 + unat w mod 8"
  "unat (0x80 OR (w AND 0x3F) :: 32 word) = 128 + unat w mod 64"
proof -
  have m: "w AND 0x1F = take_bit 5 w" "w AND 0x0F = take_bit 4 w" "w AND 0x07 = take_bit 3 w"
      "w AND 0x3F = take_bit 6 w"
    by (simp_all add: take_bit_eq_mask mask_eq_exp_minus_1)
  show "unat (0xC0 OR (w AND 0x1F) :: 32 word) = 192 + unat w mod 32"
    "unat (0xE0 OR (w AND 0x0F) :: 32 word) = 224 + unat w mod 16"
    "unat (0xF0 OR (w AND 0x07) :: 32 word) = 240 + unat w mod 8"
    "unat (0x80 OR (w AND 0x3F) :: 32 word) = 128 + unat w mod 64"
    unfolding m by (subst unat_or_take_bit; simp)+
qed

lemma unat_drop_bit_32: "unat (drop_bit n w :: 32 word) = unat w div 2 ^ n"
  using unat_drop_bit_eq [of n w] unfolding drop_bit_eq_div [of n "unat w"] .

lemma byte_utf8: "unat w < 256 \<Longrightarrow> byte (utf8_byte w) = unat w"
  by (simp add: utf8_byte_def)

lemmas utf8_bytes = byte_utf8 or_lead unat_drop_bit_32

lemma lead_byte:
  fixes x m k :: nat
  assumes "x < m"
  shows "(k * m + x) div m = k" "(k * m + x) mod m = x"
  using assms by simp_all

lemma lead_bytes:
  fixes x :: nat
  shows "x < 32 \<Longrightarrow> (192 + x) div 32 = 6" "x < 32 \<Longrightarrow> (192 + x) mod 32 = x"
    "x < 16 \<Longrightarrow> (224 + x) div 16 = 14" "x < 16 \<Longrightarrow> (224 + x) mod 16 = x"
    "x < 8 \<Longrightarrow> (240 + x) div 8 = 30" "x < 8 \<Longrightarrow> (240 + x) mod 8 = x"
    "x < 64 \<Longrightarrow> (128 + x) div 64 = 2" "x < 64 \<Longrightarrow> (128 + x) mod 64 = x"
  using lead_byte [of x 32 6] lead_byte [of x 16 14] lead_byte [of x 8 30] lead_byte [of x 64 2] by simp_all

lemma decode_encode_utf8:
  assumes "cp \<le> 0x10FFFF"
  shows "decode_utf8 (encode_utf8 cp) = Some (unat cp)"
proof -
  define n where "n = unat cp"
  have n: "n \<le> 0x10FFFF" using assms by (simp add: n_def word_le_nat_alt)
  have le: "cp \<le> 0x7F \<longleftrightarrow> n \<le> 0x7F" "cp \<le> 0x7FF \<longleftrightarrow> n \<le> 0x7FF" "cp \<le> 0xFFFF \<longleftrightarrow> n \<le> 0xFFFF"
    by (simp_all add: n_def word_le_nat_alt)
  have b: "byte (utf8_byte (0xC0 OR (drop_bit 6 cp AND 0x1F))) = 192 + n div 64 mod 32"
    "byte (utf8_byte (0xE0 OR (drop_bit 12 cp AND 0x0F))) = 224 + n div 4096 mod 16"
    "byte (utf8_byte (0xF0 OR (drop_bit 18 cp AND 0x07))) = 240 + n div 262144 mod 8"
    "byte (utf8_byte (0x80 OR (drop_bit 12 cp AND 0x3F))) = 128 + n div 4096 mod 64"
    "byte (utf8_byte (0x80 OR (drop_bit 6 cp AND 0x3F))) = 128 + n div 64 mod 64"
    "byte (utf8_byte (0x80 OR (cp AND 0x3F))) = 128 + n mod 64"
    unfolding n_def by (subst byte_utf8; simp only: or_lead unat_drop_bit_32; simp; linarith?)+
  have d: "n div 4096 * 4096 + n div 64 mod 64 * 64 + n mod 64 = n"
    "n div 262144 * 262144 + n div 4096 mod 64 * 4096 + n div 64 mod 64 * 64 + n mod 64 = n"
  proof -
    define q where "q = n div 64"
    have q: "n = q * 64 + n mod 64" by (simp add: q_def)
    have q2: "n div 4096 = q div 64" by (simp add: q_def flip: div_mult2_eq)
    have q3: "n div 262144 = q div 64 div 64" by (simp add: q_def flip: div_mult2_eq)
    have a: "q = q div 64 * 64 + q mod 64" "q div 64 = q div 64 div 64 * 64 + q div 64 mod 64" by simp_all
    show "n div 4096 * 4096 + n div 64 mod 64 * 64 + n mod 64 = n"
      using q a(1) unfolding q2 q_def [symmetric] by linarith
    show "n div 262144 * 262144 + n div 4096 mod 64 * 4096 + n div 64 mod 64 * 64 + n mod 64 = n"
      using q a unfolding q2 q3 q_def [symmetric] by linarith
  qed
  show ?thesis
  proof (cases "n \<le> 0x7F")
    case True
    then show ?thesis using byte_utf8 [of cp] by (simp add: encode_utf8_def le n_def [symmetric])
  next
    case False
    then consider "n \<le> 0x7FF" | "0x7FF < n" "n \<le> 0xFFFF" | "0xFFFF < n" by linarith
    then show ?thesis
    proof cases
      case 1
      then have "n div 64 < 32" by (simp add: less_mult_imp_div_less)
      then show ?thesis using False 1
        by (simp add: encode_utf8_def le assms is_cont_def b lead_bytes n_def [symmetric])
    next
      case 2
      then have "n div 4096 < 16" by (simp add: less_mult_imp_div_less)
      then show ?thesis using False 2 d
        by (simp add: encode_utf8_def le assms is_cont_def b lead_bytes n_def [symmetric])
    next
      case 3
      then have "n div 262144 < 8" using n by (simp add: less_mult_imp_div_less)
      then show ?thesis using False 3 d
        by (simp add: encode_utf8_def le assms is_cont_def b lead_bytes n_def [symmetric])
    qed
  qed
qed

section \<open>Numeric character references\<close>

text \<open>
  The reference at \<open>src\<close>, if there is one: \<open>&#\<close>, an optional \<open>x\<close>, what \<open>strtol\<close> accepts, and a semicolon.
  The code point is cast to \<open>unsigned int\<close>; the second component is \<open>end + 1\<close>.
\<close>

definition char_ref :: "buf \<Rightarrow> nat \<Rightarrow> (32 word \<times> nat) option option" where
  "char_ref b src =
     do { c \<leftarrow> rd b src;
          hash \<leftarrow> (if c = CHR ''&'' then map_option (\<lambda>d. d = CHR ''#'') (rd b (src + 1)) else Some False);
          if hash then
            do { x \<leftarrow> rd b (src + 2);
                 let is_hex = (x = CHR ''x'' \<or> x = CHR ''X'');
                 let start = src + (if is_hex then 3 else 2);
                 let (codepoint, len) = strtol (cstr (drop start b)) (if is_hex then 16 else 10);
                 e \<leftarrow> rd b (start + len);
                 Some (if e = CHR '';'' then Some (word_of_int codepoint, start + len + 1) else None) }
          else Some None }"

lemma char_ref_next: "char_ref b src = Some (Some (cp, next)) \<Longrightarrow> src < next"
  by (auto simp: char_ref_def Let_def bind_eq_Some_conv case_prod_beta split: if_splits)

lemma wr_length: "wr b i c = Some b' \<Longrightarrow> length b' = length b"
  by (auto simp: wr_def split: if_splits)

lemma wr_all_length: "wr_all b i s = Some b' \<Longrightarrow> length b' = length b"
  by (induction b i s rule: wr_all.induct) (auto simp: wr_length split: option.splits)

lemma rd_less: "rd b i = Some c \<Longrightarrow> i < length b"
  by (auto simp: rd_def split: if_splits)

function decode_entities_loop :: "buf \<Rightarrow> nat \<Rightarrow> nat \<Rightarrow> (buf \<times> nat) option" where
  "decode_entities_loop b src dst =
     do { c \<leftarrow> rd b src;
          if c = NUL then Some (b, dst)
          else do {
            ref \<leftarrow> char_ref b src;
            case ref of
              Some (codepoint, next) \<Rightarrow>
                do { b' \<leftarrow> wr_all b dst (encode_utf8 codepoint);
                     decode_entities_loop b' next (dst + length (encode_utf8 codepoint)) }
            | None \<Rightarrow> do { b' \<leftarrow> wr b dst c; decode_entities_loop b' (Suc src) (Suc dst) } } }"
  by pat_completeness auto
termination
  by (relation "measure (\<lambda>(b, src, dst). length b - src)")
     (auto simp: wr_length wr_all_length dest!: rd_less char_ref_next)

declare decode_entities_loop.simps [simp del]

definition decode_html_entities_utf8_inplace :: "buf \<Rightarrow> nat \<Rightarrow> buf option" where
  "decode_html_entities_utf8_inplace b p =
     do { (b', dst) \<leftarrow> decode_entities_loop b p p; wr b' dst NUL }"

text \<open>One round on the rest of the text.\<close>

definition text_ref :: "string \<Rightarrow> (32 word \<times> nat) option" where
  "text_ref s =
     (if length s \<ge> 2 \<and> s ! 0 = CHR ''&'' \<and> s ! 1 = CHR ''#'' then
        let is_hex = (length s \<ge> 3 \<and> (s ! 2 = CHR ''x'' \<or> s ! 2 = CHR ''X''));
            start = (if is_hex then 3 else 2);
            (codepoint, len) = strtol (drop start s) (if is_hex then 16 else 10)
        in if start + len < length s \<and> s ! (start + len) = CHR '';''
           then Some (word_of_int codepoint, start + len + 1) else None
      else None)"

definition ent_step :: "unit \<Rightarrow> string \<Rightarrow> string \<times> nat \<times> unit" where
  "ent_step u s = (case text_ref s of Some (cp, n) \<Rightarrow> (encode_utf8 cp, n, ()) | None \<Rightarrow> ([hd s], 1, ()))"

lemma strtol_cases:
  obtains "strtol s base = (0, 0)"
  | v n where "strtol s base = (v, n)" "0 < n" "n \<le> length s"
proof -
  define ws where "ws = length (takeWhile isspace s)"
  define s1 where "s1 = drop ws s"
  define neg where "neg \<longleftrightarrow> s1 \<noteq> [] \<and> hd s1 = CHR ''-''"
  define sg :: nat where "sg = (if s1 \<noteq> [] \<and> (hd s1 = CHR ''-'' \<or> hd s1 = CHR ''+'') then 1 else 0)"
  define s2 where "s2 = drop sg s1"
  define px :: nat where "px = (if base = 16 \<and> strncasecmp_eq s2 ''0x'' 2 \<and> length s2 > 2 \<and> isxdigit (s2 ! 2)
                then 2 else 0)"
  define ds where "ds = takeWhile (is_base_digit base) (drop px s2)"
  have e: "strtol s base = (if ds = [] then (0, 0)
      else (clamp_long ((if neg then -1 else 1) * int (digits_val base ds)), ws + sg + px + length ds))"
    unfolding strtol_def Let_def ds_def px_def s2_def sg_def neg_def s1_def ws_def ..
  show ?thesis
  proof (cases "ds = []")
    case True
    then show ?thesis using e that(1) by simp
  next
    case False
    have "length ds \<le> length s - (ws + sg + px)"
      using length_takeWhile_le [of "is_base_digit base" "drop px s2"] by (simp add: ds_def s2_def s1_def)
    moreover have "0 < length ds" using False by simp
    ultimately have "ws + sg + px + length ds \<le> length s" by linarith
    with False e that(2) \<open>0 < length ds\<close> show ?thesis by simp
  qed
qed

lemma length_encode_utf8: "length (encode_utf8 cp) \<le> 4" "length (encode_utf8 0) = 1"
  by (simp_all add: encode_utf8_def)

lemma text_ref_length: "text_ref s = Some (cp, n) \<Longrightarrow> 0 < n \<and> n \<le> length s \<and> length (encode_utf8 cp) \<le> n"
proof -
  assume r: "text_ref s = Some (cp, n)"
  define h where "h \<longleftrightarrow> length s \<ge> 3 \<and> (s ! 2 = CHR ''x'' \<or> s ! 2 = CHR ''X'')"
  define start :: nat where "start = (if h then 3 else 2)"
  obtain v len where st: "strtol (drop start s) (if h then 16 else 10) = (v, len)" by (rule prod.exhaust)
  have n: "start + len < length s" "n = start + len + 1" "cp = word_of_int v"
    using r unfolding text_ref_def h_def [symmetric] start_def [symmetric] Let_def st by (auto split: if_splits)
  have "length (encode_utf8 cp) \<le> n"
  proof (rule strtol_cases [of "drop start s" "if h then 16 else 10"])
    assume "strtol (drop start s) (if h then 16 else 10) = (0, 0)"
    then show ?thesis using st n length_encode_utf8(2) by simp
  next
    fix v' m
    assume "strtol (drop start s) (if h then 16 else 10) = (v', m)" "0 < m"
    then show ?thesis using st n length_encode_utf8(1) [of cp] by (simp add: start_def split: if_splits)
  qed
  with n show ?thesis by simp
qed

text \<open>Looking at single bytes of the text and at the string behind one of them.\<close>

lemma rd_text:
  assumes "drop src b = s @ NUL # r" "j \<le> length s"
  shows "rd b (src + j) = Some (if j < length s then s ! j else NUL)"
proof -
  have "rd b (src + j) = Some ((s @ NUL # r) ! j)"
    using rd_beyond_drop [OF assms(1), of j] assms(2) by simp
  then show ?thesis using assms(2) by (simp add: nth_append)
qed

lemma cstr_text:
  assumes "drop src b = s @ NUL # r" "NUL \<notin> set s" "j \<le> length s"
  shows "cstr (drop (src + j) b) = drop j s"
proof -
  have "drop (src + j) b = drop j (s @ NUL # r)" by (simp flip: assms(1) add: add.commute)
  also have "\<dots> = drop j s @ NUL # r" using assms(3) by simp
  also have "cstr \<dots> = drop j s"
    using assms(2) by (simp only: cstr_append_NUL) (rule cstr_id, auto dest: in_set_dropD)
  finally show ?thesis .
qed

lemma strtol_le: "strtol s base = (v, n) \<Longrightarrow> n \<le> length s"
  by (rule strtol_cases [of s base]) auto

lemma char_ref_text:
  assumes "drop src b = s @ NUL # r" "NUL \<notin> set s" "s \<noteq> []"
  shows "char_ref b src = Some (map_option (\<lambda>(cp, n). (cp, src + n)) (text_ref s))"
proof -
  have r0: "rd b src = Some (s ! 0)" using rd_text [OF assms(1), of 0] assms(3) by simp
  have r1: "rd b (src + 1) = Some (if 2 \<le> length s then s ! 1 else NUL)"
    using rd_text [OF assms(1), of 1] assms(3) by (cases s) (auto simp: Suc_le_eq)
  show ?thesis
  proof (cases "length s \<ge> 2 \<and> s ! 0 = CHR ''&'' \<and> s ! 1 = CHR ''#''")
    case False
    then show ?thesis unfolding char_ref_def r0 r1 by (auto simp: text_ref_def)
  next
    case True
    define h where "h \<longleftrightarrow> length s \<ge> 3 \<and> (s ! 2 = CHR ''x'' \<or> s ! 2 = CHR ''X'')"
    define start :: nat where "start = (if h then 3 else 2)"
    have r2: "rd b (src + 2) = Some (if 3 \<le> length s then s ! 2 else NUL)"
      using rd_text [OF assms(1), of 2] True by auto
    have hx: "((if 3 \<le> length s then s ! 2 else NUL) = CHR ''x'' \<or>
        (if 3 \<le> length s then s ! 2 else NUL) = CHR ''X'') = h"
      by (auto simp: h_def)
    have sl: "start \<le> length s" using True by (auto simp: start_def h_def)
    obtain v len where st: "strtol (drop start s) (if h then 16 else 10) = (v, len)" by (rule prod.exhaust)
    have le: "start + len \<le> length s" using strtol_le [OF st] sl by simp
    have so: "src + (if h then 3 else 2) = src + start" by (simp add: start_def)
    have re: "rd b (src + start + len) = Some (if start + len < length s then s ! (start + len) else NUL)"
      using rd_text [OF assms(1) le] by (simp add: add.assoc)
    have "char_ref b src = Some (if start + len < length s \<and> s ! (start + len) = CHR '';''
        then Some (word_of_int v, src + start + len + 1) else None)"
      unfolding char_ref_def r0 r1 Option.bind.simps Let_def
      using True by (simp add: r2 [simplified] hx [simplified] so cstr_text [OF assms(1,2) sl] st re)
    moreover have "text_ref s = (if start + len < length s \<and> s ! (start + len) = CHR '';''
        then Some (word_of_int v, start + len + 1) else None)"
      using True unfolding text_ref_def h_def [symmetric] start_def [symmetric] Let_def st by simp
    ultimately show ?thesis by simp
  qed
qed

interpretation ent: inplace_loop "\<lambda>b src dst u. decode_entities_loop b src dst" ent_step "\<lambda>_ _ _ _. True"
proof unfold_locales
  fix src :: nat and b r dst and st :: unit
  assume "drop src b = NUL # r"
  then show "decode_entities_loop b src dst = Some (b, dst)"
    by (subst decode_entities_loop.simps) (simp add: rd_drop)
next
  fix src :: nat and b s r dst out n and st st' :: unit
  assume a: "drop src b = s @ NUL # r" "NUL \<notin> set s" "s \<noteq> []" "dst \<le> src" "ent_step st s = (out, n, st')"
  obtain c t where s: "s = c # t" using a(3) by (cases s) auto
  have c: "rd b src = Some c" "c \<noteq> NUL" "dst < length b"
    using a s drop_eq_ConsD [of src b c "t @ NUL # r"] by (auto simp: rd_drop)
  have l: "src + length s < length b"
    using drop_eq_append_length [OF a(1)] c a(4) rd_less [OF c(1)] by simp
  show "decode_entities_loop b src dst = decode_entities_loop (put b dst out) (src + n) (dst + length out) \<and> True"
  proof (cases "text_ref s")
    case None
    then show ?thesis using a(5) c
      by (subst decode_entities_loop.simps) (auto simp: char_ref_text [OF a(1-3)] ent_step_def wr_put s)
  next
    case (Some x)
    obtain cp m where x: "x = (cp, m)" by (cases x)
    have "length (encode_utf8 cp) \<le> length s" using text_ref_length Some x by fastforce
    then have "wr_all b dst (encode_utf8 cp) = Some (put b dst (encode_utf8 cp))"
      using l a(4) by (intro wr_all_put) simp
    then show ?thesis using a(5) c Some x
      by (subst decode_entities_loop.simps) (simp add: char_ref_text [OF a(1-3)] ent_step_def)
  qed
next
  fix s out n and st st' :: unit
  assume "s \<noteq> []" "NUL \<notin> set s" "ent_step st s = (out, n, st')"
  then show "0 < n \<and> n \<le> length s \<and> length out \<le> n"
    using text_ref_length [of s] by (auto simp: ent_step_def Suc_le_eq split: option.splits)
qed

text \<open>Texts made of plain text and well formed references.\<close>

datatype ent_piece = Plain string | Dec_ref string | Hex_ref string

fun render_ent :: "ent_piece \<Rightarrow> string" where
  "render_ent (Plain t) = t"
| "render_ent (Dec_ref ds) = ''&#'' @ ds @ '';''"
| "render_ent (Hex_ref ds) = ''&#x'' @ ds @ '';''"

fun meaning_ent :: "ent_piece \<Rightarrow> string" where
  "meaning_ent (Plain t) = t"
| "meaning_ent (Dec_ref ds) = encode_utf8 (of_nat (digits_val 10 ds))"
| "meaning_ent (Hex_ref ds) = encode_utf8 (of_nat (digits_val 16 ds))"

fun wf_ent :: "ent_piece \<Rightarrow> bool" where
  "wf_ent (Plain t) = (CHR ''&'' \<notin> set t)"
| "wf_ent (Dec_ref ds) = (ds \<noteq> [] \<and> (\<forall>c\<in>set ds. isdigit c) \<and> digits_val 10 ds \<le> 0x10FFFF)"
| "wf_ent (Hex_ref ds) = (ds \<noteq> [] \<and> (\<forall>c\<in>set ds. isxdigit c) \<and> digits_val 16 ds \<le> 0x10FFFF)"

lemma tolower_x: "tolower (CHR ''x'') = CHR ''x''" "tolower (CHR '';'') = CHR '';''"
  by (simp_all add: tolower_def isupper_def)

lemma isxdigit_not:
  "isxdigit c \<Longrightarrow> \<not> isspace c \<and> c \<noteq> CHR ''-'' \<and> c \<noteq> CHR ''+'' \<and> tolower c \<noteq> CHR ''x''"
proof -
  assume x: "isxdigit c"
  have "byte (tolower c) \<noteq> byte (CHR ''x'')"
    unfolding byte_tolower using x by (auto simp: isxdigit_def isdigit_def isupper_def)
  then show ?thesis using x by (auto simp: isxdigit_def isdigit_def isspace_def)
qed

lemma not_digit_semicolon: "\<not> isxdigit (CHR '';'')" "\<not> isdigit (CHR '';'')"
  by (simp_all add: isxdigit_def isdigit_def)

lemma strtol_digits:
  assumes "ds \<noteq> []" "\<forall>c\<in>set ds. is_base_digit base c" "digits_val base ds \<le> 0x10FFFF" "base = 10 \<or> base = 16"
  shows "strtol (ds @ CHR '';'' # rest) base = (int (digits_val base ds), length ds)"
proof -
  obtain c cs where ds: "ds = c # cs" using assms(1) by (cases ds) auto
  have x: "\<And>d. d \<in> set ds \<Longrightarrow> isxdigit d"
    using assms(2) by (auto simp: is_base_digit_def isxdigit_def split: if_splits)
  have tk: "takeWhile (is_base_digit base) (ds @ CHR '';'' # rest) = ds"
    using assms(2,4) not_digit_semicolon by (auto simp: takeWhile_append is_base_digit_def)
  have px: "\<not> strncasecmp_eq (c # cs @ CHR '';'' # rest) ''0x'' 2"
    using x isxdigit_not tolower_x by (cases cs) (auto simp: strncasecmp_eq_def ds eval_nat_numeral)
  have "\<not> isspace c" "c \<noteq> CHR ''-''" "c \<noteq> CHR ''+''" using x [of c] isxdigit_not [of c] ds by auto
  then show ?thesis
    using tk px assms(1,3) by (simp add: strtol_def ds Let_def clamp_long_def)
qed

lemma stream_ent_plain:
  "CHR ''&'' \<notin> set t \<Longrightarrow> stream ent_step () (t @ s) = t @ stream ent_step () s"
proof (induction t)
  case (Cons c t)
  then have "ent_step () ((c # t) @ s) = ([c], 1, ())" by (auto simp: ent_step_def text_ref_def)
  then show ?case using Cons stream_step [of "(c # t) @ s" ent_step "()" "[c]" 1 "()"] by simp
qed simp

lemma stream_ent_piece:
  assumes "wf_ent x"
  shows "stream ent_step () (render_ent x @ s) = meaning_ent x @ stream ent_step () s"
proof (cases x)
  case (Plain t)
  with assms stream_ent_plain show ?thesis by simp
next
  case (Dec_ref ds)
  let ?t = "''&#'' @ ds @ CHR '';'' # s"
  have ds: "ds \<noteq> []" "\<forall>c\<in>set ds. isdigit c" "digits_val 10 ds \<le> 0x10FFFF" using assms Dec_ref by auto
  then have st: "strtol (ds @ CHR '';'' # s) 10 = (int (digits_val 10 ds), length ds)"
    by (intro strtol_digits) (auto simp: is_base_digit_def)
  have "isdigit (hd ds)" using ds by simp
  then have "\<not> (?t ! 2 = CHR ''x'' \<or> ?t ! 2 = CHR ''X'')"
    using ds(1) by (cases ds) (auto simp: isdigit_def)
  then have "text_ref ?t = Some (of_nat (digits_val 10 ds), length ds + 3)"
    using st by (simp add: text_ref_def Let_def nth_append)
  then have "ent_step () ?t = (encode_utf8 (of_nat (digits_val 10 ds)), length ds + 3, ())"
    by (simp add: ent_step_def)
  then show ?thesis
    using stream_step [of ?t ent_step "()" "encode_utf8 (of_nat (digits_val 10 ds))" "length ds + 3" "()"]
    by (simp add: Dec_ref eval_nat_numeral)
next
  case (Hex_ref ds)
  let ?t = "''&#x'' @ ds @ CHR '';'' # s"
  have ds: "ds \<noteq> []" "\<forall>c\<in>set ds. isxdigit c" "digits_val 16 ds \<le> 0x10FFFF" using assms Hex_ref by auto
  then have st: "strtol (ds @ CHR '';'' # s) 16 = (int (digits_val 16 ds), length ds)"
    by (intro strtol_digits) (auto simp: is_base_digit_def)
  then have "text_ref ?t = Some (of_nat (digits_val 16 ds), length ds + 4)"
    by (simp add: text_ref_def Let_def nth_append)
  then have "ent_step () ?t = (encode_utf8 (of_nat (digits_val 16 ds)), length ds + 4, ())"
    by (simp add: ent_step_def)
  then show ?thesis
    using stream_step [of ?t ent_step "()" "encode_utf8 (of_nat (digits_val 16 ds))" "length ds + 4" "()"]
    by (simp add: Hex_ref eval_nat_numeral)
qed

lemma stream_ent_pieces:
  "\<forall>x\<in>set xs. wf_ent x \<Longrightarrow> stream ent_step () (concat (map render_ent xs)) = concat (map meaning_ent xs)"
  by (induction xs) (simp_all add: stream_ent_piece)

text \<open>The loop followed by its terminator, for any text.\<close>

lemma decode_entities_total:
  assumes "terminated b p"
  shows "\<exists>b'. decode_html_entities_utf8_inplace b p = Some b' \<and>
     overwrites p b b' (stream ent_step () (cstr (drop p b)))"
proof -
  obtain b1 b2 where "decode_entities_loop b p p = Some (b1, p + length (stream ent_step () (cstr (drop p b))))"
    "wr b1 (p + length (stream ent_step () (cstr (drop p b)))) NUL = Some b2"
    "overwrites p b b2 (stream ent_step () (cstr (drop p b)))"
    using ent.loop_overwrites [OF assms TrueI] .
  then show ?thesis by (simp add: decode_html_entities_utf8_inplace_def)
qed

section \<open>HTML\<close>

definition entity_table :: "(string \<times> char) list" where
  "entity_table = [(''&amp;'', CHR ''&''), (''&lt;'', CHR ''<''), (''&gt;'', CHR ''>''),
     (''&quot;'', DQUOTE), (''&apos;'', SQUOTE), (''&nbsp;'', SPACE)]"

text \<open>
  \<open>decode_entity\<close> on the rest of the text: the number of bytes consumed and the character.  The value
  of a numeric reference is cast to \<open>char\<close>: of however many digits, its low eight bits are kept.
\<close>

definition decode_entity :: "string \<Rightarrow> (nat \<times> char) option" where
  "decode_entity src =
     (case find (\<lambda>(e, ch). strncmp_eq src e (length e)) entity_table of
        Some (e, ch) \<Rightarrow> Some (length e, ch)
      | None \<Rightarrow>
          if length src \<ge> 2 \<and> src ! 0 = CHR ''&'' \<and> src ! 1 = CHR ''#'' then
            let is_hex = (length src \<ge> 3 \<and> (src ! 2 = CHR ''x'' \<or> src ! 2 = CHR ''X''));
                i = (if is_hex then 3 else 2);
                ds = takeWhile (if is_hex then isxdigit else isdigit) (drop i src);
                val = digits_val (if is_hex then 16 else 10) ds
            in if i + length ds < length src \<and> src ! (i + length ds) = CHR '';''
               then Some (i + length ds + 1, char_of (val mod 256)) else None
          else None)"

text \<open>\<open>strncasecmp (b + i, lit, strlen (lit)) == 0\<close>, byte by byte up to the first difference.\<close>

fun ncase_at :: "buf \<Rightarrow> int \<Rightarrow> string \<Rightarrow> bool option" where
  "ncase_at b i [] = Some True"
| "ncase_at b i (l # ls) =
     (if i < 0 then None
      else do { c \<leftarrow> rd b (nat i);
                if tolower c = tolower l then ncase_at b (i + 1) ls else Some False })"

lemma strncmp_eq_prefix: "strncmp_eq s e (length e) \<longleftrightarrow> prefix e s"
  by (simp add: strncmp_eq_def prefix_def) (metis append_eq_conv_conj append_take_drop_id)

lemma decode_entity_consumes: "decode_entity s = Some (n, ch) \<Longrightarrow> 0 < n \<and> n \<le> length s"
proof -
  assume d: "decode_entity s = Some (n, ch)"
  show ?thesis
  proof (cases "find (\<lambda>(e, ch). strncmp_eq s e (length e)) entity_table")
    case None
    then show ?thesis using d by (auto simp: decode_entity_def Let_def split: if_splits)
  next
    case (Some ec)
    obtain e ch' where ec: "ec = (e, ch')" by (cases ec)
    have "(e, ch') \<in> set entity_table" "prefix e s"
      using Some unfolding find_Some_iff ec by (auto simp: strncmp_eq_prefix) (metis nth_mem)
    then have "0 < length e" "length e \<le> length s"
      by (auto simp: entity_table_def dest!: prefix_length_le)
    then show ?thesis using d Some ec by (auto simp: decode_entity_def)
  qed
qed

function normalize_html_loop :: "buf \<Rightarrow> nat \<Rightarrow> nat \<Rightarrow> bool \<Rightarrow> bool \<Rightarrow> bool \<Rightarrow> (buf \<times> nat) option" where
  "normalize_html_loop b src dst in_tag in_script in_style =
     do { c \<leftarrow> rd b src;
          if c = NUL then Some (b, dst)
          else if \<not> in_tag \<and> c = CHR ''<'' then
            do { sc \<leftarrow> ncase_at b (int src) ''<script'';
                 st \<leftarrow> (if sc then Some False else ncase_at b (int src) ''<style'');
                 normalize_html_loop b (Suc src) dst True (in_script \<or> sc) (in_style \<or> st) }
          else if in_tag then
            (if c = CHR ''>'' then
               do { sc \<leftarrow> (if in_script then ncase_at b (int src - 8) ''</script>'' else Some False);
                    st \<leftarrow> (if \<not> sc \<and> in_style then ncase_at b (int src - 7) ''</style>'' else Some False);
                    b' \<leftarrow> wr b dst SPACE;
                    normalize_html_loop b' (Suc src) (Suc dst) False (in_script \<and> \<not> sc) (in_style \<and> \<not> st) }
             else normalize_html_loop b (Suc src) dst True in_script in_style)
          else if \<not> in_script \<and> \<not> in_style then
            (if c = CHR ''&'' then
               (case decode_entity (cstr (drop src b)) of
                  Some (consumed, decoded) \<Rightarrow>
                    do { b' \<leftarrow> wr b dst decoded;
                         normalize_html_loop b' (src + consumed) (Suc dst) False False False }
                | None \<Rightarrow>
                    do { b' \<leftarrow> wr b dst c; normalize_html_loop b' (Suc src) (Suc dst) False False False })
             else do { b' \<leftarrow> wr b dst c; normalize_html_loop b' (Suc src) (Suc dst) False False False })
          else
            do { sc \<leftarrow> (if in_script then ncase_at b (int src) ''</script>'' else Some False);
                 if sc then normalize_html_loop b (Suc src) dst True False in_style
                 else do {
                   st \<leftarrow> (if in_style then ncase_at b (int src) ''</style>'' else Some False);
                   if st then normalize_html_loop b (Suc src) dst True in_script False
                   else normalize_html_loop b (Suc src) dst False in_script in_style } } }"
  by pat_completeness auto
termination
  by (relation "measure (\<lambda>(b, src, dst, _). length b - src)")
     (auto simp: wr_length dest!: rd_less decode_entity_consumes)

declare normalize_html_loop.simps [simp del]

definition normalize_html :: "buf \<Rightarrow> nat \<Rightarrow> buf option" where
  "normalize_html b p = do { (b', dst) \<leftarrow> normalize_html_loop b p p False False False; wr b' dst NUL }"

section \<open>HTML as a stream\<close>

text \<open>
  The state: inside a tag, inside a script, inside a style sheet, and the tag read so far.  The
  last branch of the code never finds an end tag, because \<open>'<'\<close> is handled before.
\<close>

definition starts_with :: "string \<Rightarrow> string \<Rightarrow> bool" where
  "starts_with s lit \<longleftrightarrow> strncasecmp_eq s lit (length lit)"

definition ends_with :: "string \<Rightarrow> string \<Rightarrow> bool" where
  "ends_with s lit \<longleftrightarrow> length lit \<le> length s \<and> map tolower (drop (length s - length lit) s) = map tolower lit"

type_synonym html_state = "bool \<times> bool \<times> bool \<times> string"

fun html_step :: "html_state \<Rightarrow> string \<Rightarrow> string \<times> nat \<times> html_state" where
  "html_step (t, sc, sy, tag) s =
     (let c = hd s in
      if \<not> t \<and> c = CHR ''<'' then
        ([], 1, (True, sc \<or> starts_with s ''<script'',
                 sy \<or> (\<not> starts_with s ''<script'' \<and> starts_with s ''<style''), [c]))
      else if t then
        (if c = CHR ''>'' then
           let e1 = (sc \<and> ends_with (tag @ [c]) ''</script>'');
               e2 = (\<not> e1 \<and> sy \<and> ends_with (tag @ [c]) ''</style>'')
           in ([SPACE], 1, (False, sc \<and> \<not> e1, sy \<and> \<not> e2, []))
         else ([], 1, (True, sc, sy, tag @ [c])))
      else if \<not> sc \<and> \<not> sy then
        (if c = CHR ''&'' then
           (case decode_entity s of
              Some (n, ch) \<Rightarrow> ([ch], n, (False, False, False, []))
            | None \<Rightarrow> ([c], 1, (False, False, False, [])))
         else ([c], 1, (False, False, False, [])))
      else ([], 1, (False, sc, sy, [])))"

declare html_step.simps [simp del]

definition html_text :: "string \<Rightarrow> string" where
  "html_text s = stream html_step (False, False, False, []) s"

text \<open>Comparing forwards is comparing with the rest of the text.\<close>

lemma ncase_at_forward:
  assumes "drop src b = s @ NUL # r" "NUL \<notin> set s" "NUL \<notin> set lit"
  shows "ncase_at b (int src) lit = Some (starts_with s lit)"
  using assms
proof (induction lit arbitrary: src s)
  case Nil
  then show ?case by (simp add: starts_with_def strncasecmp_eq_def)
next
  case (Cons l ls)
  have l: "l \<noteq> NUL" using Cons.prems by auto
  show ?case
  proof (cases s)
    case Nil
    then have "rd b src = Some NUL" using Cons.prems by (simp add: rd_drop)
    moreover have "tolower NUL \<noteq> tolower l" using l by (metis tolower_NUL_iff)
    ultimately show ?thesis using Nil by (simp add: starts_with_def strncasecmp_eq_def)
  next
    case s: (Cons c u)
    then have c: "rd b src = Some c" "drop (Suc src) b = u @ NUL # r" "NUL \<notin> set u"
      using Cons.prems drop_eq_ConsD [of src b c "u @ NUL # r"] by (auto simp: rd_drop)
    have "ncase_at b (int (Suc src)) ls = Some (starts_with u ls)"
      using Cons.IH [OF c(2,3)] Cons.prems by simp
    then show ?thesis using c s
      by (simp add: starts_with_def strncasecmp_eq_def add.commute)
  qed
qed

text \<open>Comparing with bytes that lie inside the block.\<close>

lemma ncase_at_inside:
  assumes "i + length lit \<le> length b"
  shows "ncase_at b (int i) lit = Some (map tolower (take (length lit) (drop i b)) = map tolower lit)"
  using assms
proof (induction lit arbitrary: i)
  case (Cons l ls)
  then have i: "i < length b" "Suc i + length ls \<le> length b" by simp_all
  then have "ncase_at b (int (Suc i)) ls = Some (map tolower (take (length ls) (drop (Suc i) b)) = map tolower ls)"
    using Cons.IH by blast
  moreover have "drop i b = b ! i # drop (Suc i) b" using i(1) by (simp add: Cons_nth_drop_Suc)
  ultimately show ?case using i(1) by (simp add: rd_def add.commute)
qed simp

declare ncase_at.simps [simp del]

lemma tolower_lt: "tolower (CHR ''<'') = CHR ''<''"
  by (simp add: tolower_def isupper_def)

text \<open>
  Comparing backwards from the end of a tag: the tag begins with \<open>'<'\<close>, and an end tag has that
  character only at its beginning, so only the tag itself can match.
\<close>

lemma ncase_at_backward:
  assumes "tag \<noteq> []" "hd tag = CHR ''<''" "length tag \<le> src" "src < length b"
    "take (length tag) (drop (src - length tag) b) = tag" "b ! src = CHR ''>''"
    "length lit = Suc k" "k \<le> src" "\<forall>c\<in>set (tl lit). tolower c \<noteq> CHR ''<''"
  shows "ncase_at b (int src - int k) lit = Some (ends_with (tag @ [CHR ''>'']) lit)"
proof -
  have e: "int src - int k = int (src - k)" using assms(8) by simp
  have w: "ncase_at b (int (src - k)) lit = Some (map tolower (take (Suc k) (drop (src - k) b)) = map tolower lit)"
    using ncase_at_inside [of "src - k" lit b] assms(4,7,8) by simp
  have full: "take (Suc (length tag)) (drop (src - length tag) b) = tag @ [CHR ''>'']"
    using assms(3-6) by (simp add: take_Suc_conv_app_nth)
  have eq: "(map tolower (take (Suc k) (drop (src - k) b)) = map tolower lit) = ends_with (tag @ [CHR ''>'']) lit"
  proof (cases "k \<le> length tag")
    case True
    have "drop (length tag - k) (tag @ [CHR ''>'']) = take (Suc k) (drop (length tag - k) (drop (src - length tag) b))"
      unfolding full [symmetric] using True by (simp only: drop_take) (simp add: Suc_diff_le)
    also have "drop (length tag - k) (drop (src - length tag) b) = drop (src - k) b"
      using True assms(3) by (simp add: add.commute)
    finally show ?thesis using True assms(7) by (simp add: ends_with_def)
  next
    case False
    define j where "j = k - length tag"
    have j: "0 < j" "j \<le> k" using False by (simp_all add: j_def)
    have "take (Suc k) (drop (src - k) b) ! j = b ! (src - length tag)"
      using False assms(3,4,8) by (simp add: j_def)
    also have "b ! (src - length tag) = take (length tag) (drop (src - length tag) b) ! 0"
      using assms(1,3,4) by simp
    also have "\<dots> = hd tag" unfolding assms(5) using assms(1) by (simp add: hd_conv_nth)
    finally have h: "take (Suc k) (drop (src - k) b) ! j = CHR ''<''" using assms(2) by simp
    have "lit ! j \<in> set (tl lit)" using j assms(7) by (cases lit) (auto simp: nth_Cons')
    then have "tolower (lit ! j) \<noteq> CHR ''<''" using assms(9) by simp
    then have l: "tolower (lit ! j) \<noteq> tolower (CHR ''<'')" by (simp add: tolower_lt)
    define X where "X = take (Suc k) (drop (src - k) b)"
    have X: "length X = Suc k" "X ! j = CHR ''<''" using h assms(4,8) by (simp_all add: X_def)
    then have "map tolower X ! j = tolower (CHR ''<'')" "map tolower lit ! j = tolower (lit ! j)"
      using j(2) assms(7) by simp_all
    then have "map tolower X \<noteq> map tolower lit" using l by metis
    then have "map tolower (take (Suc k) (drop (src - k) b)) \<noteq> map tolower lit" unfolding X_def .
    then show ?thesis using False assms(7) by (simp add: ends_with_def)
  qed
  show ?thesis unfolding e w eq ..
qed

text \<open>
  What holds between the rounds: inside a tag, its text stands in front of the read pointer and has
  not been overwritten; the text of a script starts at least eight bytes behind \<open>p\<close>, that of a
  style sheet seven, unless its opening tag is still being read.
\<close>

definition html_inv :: "nat \<Rightarrow> buf \<Rightarrow> nat \<Rightarrow> nat \<Rightarrow> html_state \<Rightarrow> bool" where
  "html_inv p b src dst st \<longleftrightarrow> (case st of (t, sc, sy, tag) \<Rightarrow>
     p \<le> src \<and>
     (t \<longrightarrow> tag \<noteq> [] \<and> hd tag = CHR ''<'' \<and> dst + length tag \<le> src \<and> p + length tag \<le> src \<and>
        take (length tag) (drop (src - length tag) b) = tag \<and> CHR ''>'' \<notin> set tag) \<and>
     (sc \<longrightarrow> p + 8 \<le> src \<or> (t \<and> starts_with (tag @ cstr (drop src b)) ''<script'')) \<and>
     (sy \<longrightarrow> p + 7 \<le> src \<or> (t \<and> starts_with (tag @ cstr (drop src b)) ''<style'')))"

text \<open>A tag that starts as a literal and is at its end is at least as long as the literal.\<close>

lemma starts_with_closed:
  assumes "starts_with (tag @ CHR ''>'' # u) lit" "\<forall>c\<in>set lit. tolower c \<noteq> CHR ''>''" "CHR ''>'' \<notin> set tag"
  shows "length lit \<le> length tag"
proof (rule ccontr)
  assume "\<not> length lit \<le> length tag"
  then have n: "length tag < length lit" by simp
  have e: "map tolower (take (length lit) (tag @ CHR ''>'' # u)) = map tolower lit"
    using assms(1) by (simp add: starts_with_def strncasecmp_eq_def)
  have "map tolower (take (length lit) (tag @ CHR ''>'' # u)) ! length tag = tolower (CHR ''>'')"
    using n by (simp add: nth_append)
  moreover have "map tolower lit ! length tag = tolower (lit ! length tag)" using n by simp
  moreover have "tolower (CHR ''>'') = CHR ''>''" by (simp add: tolower_def isupper_def)
  ultimately show False using e n assms(2) by auto
qed

lemma html_inv_lookback:
  assumes "html_inv p b src dst (True, sc, sy, tag)" "drop src b = CHR ''>'' # u @ NUL # r" "NUL \<notin> set u" "1 \<le> p"
  shows "sc \<Longrightarrow> 8 \<le> src \<and> p + 7 \<le> src" "sy \<Longrightarrow> 7 \<le> src \<and> p + 6 \<le> src"
proof -
  have c: "cstr (drop src b) = CHR ''>'' # u" using assms(2,3) by (simp add: cstr_Cons cstr_append_NUL cstr_id)
  have l: "\<forall>c\<in>set ''<script''. tolower c \<noteq> CHR ''>''" "\<forall>c\<in>set ''<style''. tolower c \<noteq> CHR ''>''"
    by (simp_all add: tolower_def isupper_def)
  have i: "p + length tag \<le> src" "CHR ''>'' \<notin> set tag"
    "sc \<Longrightarrow> p + 8 \<le> src \<or> starts_with (tag @ CHR ''>'' # u) ''<script''"
    "sy \<Longrightarrow> p + 7 \<le> src \<or> starts_with (tag @ CHR ''>'' # u) ''<style''"
    using assms(1) unfolding html_inv_def c by auto
  show "sc \<Longrightarrow> 8 \<le> src \<and> p + 7 \<le> src"
    using i(1,3) starts_with_closed [OF _ l(1) i(2), of u] assms(4) by auto
  show "sy \<Longrightarrow> 7 \<le> src \<and> p + 6 \<le> src"
    using i(1,4) starts_with_closed [OF _ l(2) i(2), of u] assms(4) by auto
qed

definition html_run :: "buf \<Rightarrow> nat \<Rightarrow> nat \<Rightarrow> html_state \<Rightarrow> (buf \<times> nat) option" where
  "html_run b src dst st = (case st of (t, sc, sy, tag) \<Rightarrow> normalize_html_loop b src dst t sc sy)"

lemma html_inv_outside:
  "p \<le> src \<Longrightarrow> (sc \<Longrightarrow> p + 8 \<le> src) \<Longrightarrow> (sy \<Longrightarrow> p + 7 \<le> src) \<Longrightarrow> html_inv p b src dst (False, sc, sy, [])"
  by (simp add: html_inv_def)

lemma no_end_tag: "c \<noteq> CHR ''<'' \<Longrightarrow> \<not> starts_with (c # u) ''</script>'' \<and> \<not> starts_with (c # u) ''</style>''"
proof -
  assume "c \<noteq> CHR ''<''"
  then have "tolower c \<noteq> tolower (CHR ''<'')"
    by (auto simp: tolower_lt tolower_def isupper_def dest!: arg_cong [where f = byte])
  then show ?thesis by (auto simp: starts_with_def strncasecmp_eq_def)
qed

lemma html_round:
  assumes "1 \<le> p" "drop src b = (c # u) @ NUL # r" "NUL \<notin> set (c # u)" "dst \<le> src"
    "html_inv p b src dst st" "html_step st (c # u) = (out, n, st')"
  shows "html_run b src dst st = html_run (put b dst out) (src + n) (dst + length out) st' \<and>
     html_inv p (put b dst out) (src + n) (dst + length out) st'"
proof -
  obtain t sc sy tag where st: "st = (t, sc, sy, tag)" by (cases st)
  have c: "rd b src = Some c" "c \<noteq> NUL" "src < length b" "b ! src = c" "drop (Suc src) b = u @ NUL # r"
    "dst < length b"
    using drop_eq_ConsD [of src b c "u @ NUL # r"] assms(2-4) by (auto simp: rd_def)
  have cs: "cstr (drop src b) = c # u" "cstr (drop (Suc src) b) = u"
    using assms(2,3) c(2,5) by (auto simp: cstr_Cons cstr_append_NUL cstr_id)
  have fw: "NUL \<notin> set lit \<Longrightarrow> ncase_at b (int src) lit = Some (starts_with (c # u) lit)" for lit
    using ncase_at_forward [OF assms(2,3)] .
  have p: "p \<le> src" using assms(5) by (simp add: html_inv_def st)
  have w: "wr b dst x = Some (put b dst [x])" for x using c(6) by (rule wr_put)
  consider (open_tag) "\<not> t" "c = CHR ''<''" | (close) "t" "c = CHR ''>''" | (tag) "t" "c \<noteq> CHR ''>''"
    | (plain) "\<not> t" "c \<noteq> CHR ''<''" "\<not> sc" "\<not> sy" | (skip) "\<not> t" "c \<noteq> CHR ''<''" "sc \<or> sy" by blast
  then show ?thesis
  proof cases
    case open_tag
    define s1 where "s1 \<longleftrightarrow> starts_with (c # u) ''<script''"
    define s2 where "s2 \<longleftrightarrow> starts_with (c # u) ''<style''"
    have o: "out = []" "n = 1" "st' = (True, sc \<or> s1, sy \<or> (\<not> s1 \<and> s2), [c])"
      using assms(6) open_tag unfolding st html_step.simps Let_def list.sel s1_def s2_def by auto
    have "normalize_html_loop b src dst t sc sy =
        normalize_html_loop b (Suc src) dst True (sc \<or> s1) (sy \<or> (\<not> s1 \<and> s2))"
      by (subst normalize_html_loop.simps) (use open_tag in \<open>simp add: c(1) fw s1_def s2_def\<close>)
    moreover have "html_inv p b (Suc src) dst (True, sc \<or> s1, sy \<or> (\<not> s1 \<and> s2), [c])"
    proof -
      have "take 1 (drop src b) = [c]" using assms(2) by simp
      moreover have "sc \<Longrightarrow> p + 8 \<le> src" "sy \<Longrightarrow> p + 7 \<le> src"
        using assms(5) open_tag by (auto simp: html_inv_def st)
      ultimately show ?thesis
        using p assms(4) open_tag unfolding html_inv_def prod.case cs s1_def s2_def by auto
    qed
    ultimately show ?thesis by (simp add: html_run_def st o)
  next
    case close
    have i: "tag \<noteq> []" "hd tag = CHR ''<''" "length tag \<le> src" "take (length tag) (drop (src - length tag) b) = tag"
      "dst + length tag \<le> src"
      using assms(5) close by (auto simp: html_inv_def st)
    have lb: "sc \<Longrightarrow> 8 \<le> src \<and> p + 7 \<le> src" "sy \<Longrightarrow> 7 \<le> src \<and> p + 6 \<le> src"
      using html_inv_lookback [of p b src dst sc sy tag u r] assms(1,2,3,5) close st by auto
    have lit: "\<forall>x\<in>set (tl ''</script>''). tolower x \<noteq> CHR ''<''" "\<forall>x\<in>set (tl ''</style>''). tolower x \<noteq> CHR ''<''"
      by (simp_all add: tolower_def isupper_def)
    define e1 where "e1 \<longleftrightarrow> sc \<and> ends_with (tag @ [c]) ''</script>''"
    define e2 where "e2 \<longleftrightarrow> \<not> e1 \<and> sy \<and> ends_with (tag @ [c]) ''</style>''"
    have b1: "(if sc then ncase_at b (int src - 8) ''</script>'' else Some False) = Some e1"
      using ncase_at_backward [OF i(1,2,3) c(3) i(4), of "''</script>''" 8] lb(1) lit(1) close c(4) by (simp add: e1_def)
    have b2: "(if \<not> e1 \<and> sy then ncase_at b (int src - 7) ''</style>'' else Some False) = Some e2"
      using ncase_at_backward [OF i(1,2,3) c(3) i(4), of "''</style>''" 7] lb(2) lit(2) close c(4) by (simp add: e2_def)
    have o: "out = [SPACE]" "n = 1" "st' = (False, sc \<and> \<not> e1, sy \<and> \<not> e2, [])"
      using assms(6) close unfolding st html_step.simps Let_def list.sel e1_def e2_def by auto
    have "normalize_html_loop b src dst t sc sy =
        normalize_html_loop (put b dst [SPACE]) (Suc src) (Suc dst) False (sc \<and> \<not> e1) (sy \<and> \<not> e2)"
      by (subst normalize_html_loop.simps) (simp add: c(1) close b1 b2 w)
    moreover have "html_inv p (put b dst [SPACE]) (Suc src) (Suc dst) (False, sc \<and> \<not> e1, sy \<and> \<not> e2, [])"
      using lb p by (intro html_inv_outside) auto
    ultimately show ?thesis by (simp add: html_run_def st o)
  next
    case tag
    have o: "out = []" "n = 1" "st' = (True, sc, sy, tag @ [c])"
      using assms(6) tag unfolding st html_step.simps Let_def list.sel by auto
    have "normalize_html_loop b src dst t sc sy = normalize_html_loop b (Suc src) dst True sc sy"
      by (subst normalize_html_loop.simps) (use tag c(2) in \<open>simp add: c(1)\<close>)
    moreover have "html_inv p b (Suc src) dst (True, sc, sy, tag @ [c])"
    proof -
      have "length tag \<le> src" "take (length tag) (drop (src - length tag) b) = tag"
        using assms(5) tag by (auto simp: html_inv_def st)
      then have "take (Suc (length tag)) (drop (src - length tag) b) = tag @ [c]"
        using c(3,4) by (simp add: take_Suc_conv_app_nth)
      then show ?thesis using assms(5) tag unfolding html_inv_def st prod.case cs by auto
    qed
    ultimately show ?thesis by (simp add: html_run_def st o)
  next
    case plain
    have iv: "html_inv p b' (src + m) dst' (False, False, False, [])" for b' m dst'
      using p by (intro html_inv_outside) auto
    show ?thesis
    proof (cases "c = CHR ''&'' \<and> decode_entity (c # u) \<noteq> None")
      case True
      then obtain m ch where d: "decode_entity (c # u) = Some (m, ch)" by auto
      have o: "out = [ch]" "n = m" "st' = (False, False, False, [])"
        using assms(6) plain True d unfolding st html_step.simps Let_def list.sel by auto
      have "normalize_html_loop b src dst t sc sy =
          normalize_html_loop (put b dst [ch]) (src + m) (Suc dst) False False False"
        by (subst normalize_html_loop.simps) (use plain True in \<open>simp add: c(1) cs d [unfolded conjunct1 [OF True]] w\<close>)
      then show ?thesis using iv by (simp add: html_run_def st o)
    next
      case False
      have o: "out = [c]" "n = 1" "st' = (False, False, False, [])"
        using assms(6) plain False unfolding st html_step.simps Let_def list.sel by (auto split: option.splits if_splits)
      have d: "decode_entity (CHR ''&'' # u) = None" if "c = CHR ''&''"
        using False that by (cases "decode_entity (c # u)") auto
      have "normalize_html_loop b src dst t sc sy =
          normalize_html_loop (put b dst [c]) (Suc src) (Suc dst) False False False"
        by (subst normalize_html_loop.simps) (use plain False c(2) in \<open>auto simp: c(1) cs w d\<close>)
      then show ?thesis using iv [of _ 1] by (simp add: html_run_def st o)
    qed
  next
    case skip
    have o: "out = []" "n = 1" "st' = (False, sc, sy, [])"
      using assms(6) skip unfolding st html_step.simps Let_def list.sel by auto
    have "normalize_html_loop b src dst t sc sy = normalize_html_loop b (Suc src) dst False sc sy"
      by (subst normalize_html_loop.simps) (use skip c(2) no_end_tag [of c u] in \<open>auto simp: c(1) fw\<close>)
    moreover have "html_inv p b (Suc src) dst (False, sc, sy, [])"
      using assms(5) skip by (auto simp: html_inv_def st)
    ultimately show ?thesis by (simp add: html_run_def st o)
  qed
qed

interpretation html: inplace_loop html_run html_step "\<lambda>b src dst st. 1 \<le> p \<and> html_inv p b src dst st" for p
proof unfold_locales
  fix src :: nat and b r dst and st :: html_state
  assume "drop src b = NUL # r"
  then show "html_run b src dst st = Some (b, dst)"
    by (cases st) (simp add: html_run_def normalize_html_loop.simps rd_drop)
next
  fix src :: nat and b s r dst out n and st st' :: html_state
  assume a: "drop src b = s @ NUL # r" "NUL \<notin> set s" "s \<noteq> []" "dst \<le> src"
    "1 \<le> p \<and> html_inv p b src dst st" "html_step st s = (out, n, st')"
  obtain c u where "s = c # u" using a(3) by (cases s) auto
  then show "html_run b src dst st = html_run (put b dst out) (src + n) (dst + length out) st' \<and>
     1 \<le> p \<and> html_inv p (put b dst out) (src + n) (dst + length out) st'"
    using html_round [of p src b c u r dst st out n st'] a by simp
next
  fix s out n and st st' :: html_state
  assume a: "s \<noteq> []" "NUL \<notin> set s" "html_step st s = (out, n, st')"
  obtain t sc sy tag where st: "st = (t, sc, sy, tag)" by (cases st)
  show "0 < n \<and> n \<le> length s \<and> length out \<le> n"
    using a decode_entity_consumes [of s] unfolding st html_step.simps Let_def list.sel Let_def
    by (auto simp: Suc_le_eq split: if_splits option.splits)
qed

lemma normalize_html_total:
  assumes "terminated b p" and "1 \<le> p"
  shows "\<exists>b'. normalize_html b p = Some b' \<and> overwrites p b b' (html_text (cstr (drop p b)))"
proof -
  have "1 \<le> p \<and> html_inv p b p p (False, False, False, [])"
    using assms(2) by (simp add: html_inv_outside)
  then obtain b1 b2 where
    "html_run b p p (False, False, False, []) =
       Some (b1, p + length (stream html_step (False, False, False, []) (cstr (drop p b))))"
    "wr b1 (p + length (stream html_step (False, False, False, []) (cstr (drop p b)))) NUL = Some b2"
    "overwrites p b b2 (stream html_step (False, False, False, []) (cstr (drop p b)))"
    using html.loop_overwrites [OF assms(1), of p "(False, False, False, [])"] by blast
  then show ?thesis by (simp add: normalize_html_def html_run_def html_text_def)
qed

section \<open>What is left of an HTML text\<close>

datatype html_piece = Text string | Entity string char | Tag string | Script string string | Style string string

fun render_html :: "html_piece \<Rightarrow> string" where
  "render_html (Text t) = t"
| "render_html (Entity e ch) = e"
| "render_html (Tag a) = ''<'' @ a @ ''>''"
| "render_html (Script a body) = ''<script'' @ a @ ''>'' @ body @ ''</script>''"
| "render_html (Style a body) = ''<style'' @ a @ ''>'' @ body @ ''</style>''"

fun meaning_html :: "html_piece \<Rightarrow> string" where
  "meaning_html (Text t) = t"
| "meaning_html (Entity e ch) = [ch]"
| "meaning_html (Tag a) = '' ''"
| "meaning_html (Script a body) = ''  ''"
| "meaning_html (Style a body) = ''  ''"

fun wf_html :: "html_piece \<Rightarrow> bool" where
  "wf_html (Text t) = (CHR ''<'' \<notin> set t \<and> CHR ''&'' \<notin> set t)"
| "wf_html (Entity e ch) = ((e, ch) \<in> set entity_table)"
| "wf_html (Tag a) = (CHR ''>'' \<notin> set a \<and> \<not> starts_with a ''script'' \<and> \<not> starts_with a ''style'')"
| "wf_html (Script a body) = (CHR ''>'' \<notin> set a \<and> CHR ''<'' \<notin> set a \<and> CHR ''<'' \<notin> set body)"
| "wf_html (Style a body) = (CHR ''>'' \<notin> set a \<and> CHR ''<'' \<notin> set a \<and> CHR ''<'' \<notin> set body)"

abbreviation outside :: html_state where
  "outside \<equiv> (False, False, False, [])"

lemma html_stream_Cons:
  "html_step st (c # s) = (out, n, st') \<Longrightarrow> 0 < n \<Longrightarrow>
   stream html_step st (c # s) = out @ stream html_step st' (drop n (c # s))"
  by (rule stream_step) auto

lemma stream_text:
  "CHR ''<'' \<notin> set t \<Longrightarrow> CHR ''&'' \<notin> set t \<Longrightarrow>
   stream html_step outside (t @ s) = t @ stream html_step outside s"
proof (induction t)
  case (Cons c t)
  then have "html_step outside (c # t @ s) = ([c], 1, outside)" by (auto simp: html_step.simps)
  from html_stream_Cons [OF this] Cons show ?case by simp
qed simp

lemma stream_skip:
  "CHR ''<'' \<notin> set t \<Longrightarrow> sc \<or> sy \<Longrightarrow>
   stream html_step (False, sc, sy, []) (t @ s) = stream html_step (False, sc, sy, []) s"
proof (induction t)
  case (Cons c t)
  then have "html_step (False, sc, sy, []) (c # t @ s) = ([], 1, (False, sc, sy, []))"
    by (auto simp: html_step.simps)
  from html_stream_Cons [OF this] Cons show ?case by simp
qed simp

lemma stream_tag:
  "CHR ''>'' \<notin> set t \<Longrightarrow>
   stream html_step (True, sc, sy, tag) (t @ CHR ''>'' # s) =
     SPACE # (let e1 = sc \<and> ends_with (tag @ t @ ''>'') ''</script>'';
                  e2 = \<not> e1 \<and> sy \<and> ends_with (tag @ t @ ''>'') ''</style>''
              in stream html_step (False, sc \<and> \<not> e1, sy \<and> \<not> e2, []) s)"
proof (induction t arbitrary: tag)
  case Nil
  define e1 where "e1 \<longleftrightarrow> sc \<and> ends_with (tag @ ''>'') ''</script>''"
  define e2 where "e2 \<longleftrightarrow> \<not> e1 \<and> sy \<and> ends_with (tag @ ''>'') ''</style>''"
  have "html_step (True, sc, sy, tag) (CHR ''>'' # s) = ([SPACE], 1, (False, sc \<and> \<not> e1, sy \<and> \<not> e2, []))"
    by (simp add: html_step.simps Let_def e1_def e2_def)
  from html_stream_Cons [OF this] show ?case by (simp add: Let_def e1_def e2_def)
next
  case (Cons c t)
  then have "html_step (True, sc, sy, tag) (c # t @ CHR ''>'' # s) = ([], 1, (True, sc, sy, tag @ [c]))"
    by (auto simp: html_step.simps)
  from html_stream_Cons [OF this] Cons show ?case by simp
qed

lemma starts_with_Cons:
  "starts_with (c # s) (d # lit) \<longleftrightarrow> tolower c = tolower d \<and> starts_with s lit"
  by (simp add: starts_with_def strncasecmp_eq_def)

lemma starts_with_append: "starts_with s lit \<Longrightarrow> length lit \<le> length s \<Longrightarrow> starts_with (s @ t) lit"
  "length lit \<le> length s \<Longrightarrow> starts_with (s @ t) lit = starts_with s lit"
  by (simp_all add: starts_with_def strncasecmp_eq_def)

lemma starts_with_refl: "starts_with (lit @ t) lit"
  by (simp add: starts_with_def strncasecmp_eq_def)

lemma tag_does_not_start:
  assumes "CHR ''>'' \<notin> set a" "\<not> starts_with a lit" "\<forall>c\<in>set lit. tolower c \<noteq> CHR ''>''"
  shows "\<not> starts_with (a @ CHR ''>'' # s) lit"
proof
  assume s: "starts_with (a @ CHR ''>'' # s) lit"
  then have "length lit \<le> length a" using starts_with_closed assms(1,3) by blast
  then show False using s assms(2) by (simp add: starts_with_append)
qed

text \<open>An opening tag does not end like an end tag.\<close>

lemma opening_not_end:
  assumes "CHR ''<'' \<notin> set (x # a)" "tolower x \<noteq> CHR ''/''" "lit = CHR ''<'' # CHR ''/'' # l"
  shows "\<not> ends_with (CHR ''<'' # x # a) lit"
proof
  assume e: "ends_with (CHR ''<'' # x # a) lit"
  let ?t = "CHR ''<'' # x # a"
  define k where "k = length ?t - length lit"
  have k: "length lit \<le> length ?t" "map tolower (drop k ?t) = map tolower lit"
    using e by (simp_all add: ends_with_def k_def)
  obtain y z u where d: "drop k ?t = y # z # u"
    using arg_cong [OF k(2), of length] assms(3) by (cases "drop k ?t"; cases "tl (drop k ?t)") auto
  have yz: "tolower y = tolower (CHR ''<'')" "tolower z = tolower (CHR ''/'')"
    using k(2) by (simp_all add: d assms(3))
  then have y: "y = CHR ''<''"
    by (auto simp: tolower_lt tolower_def isupper_def split: if_splits dest!: arg_cong [where f = byte])
  show False
  proof (cases k)
    case 0
    then have "z = x" using d by simp
    then show False using yz(2) assms(2) by (simp add: tolower_def isupper_def)
  next
    case (Suc j)
    have "y \<in> set (x # a)" using d Suc by (metis drop_Suc_Cons in_set_dropD list.set_intros(1))
    then show False using y assms(1) by simp
  qed
qed

lemma stream_Tag:
  assumes "wf_html (Tag a)"
  shows "stream html_step outside (render_html (Tag a) @ s) = SPACE # stream html_step outside s"
proof -
  have n: "\<not> starts_with (a @ CHR ''>'' # s) ''script''" "\<not> starts_with (a @ CHR ''>'' # s) ''style''"
    using assms tag_does_not_start [of a] by (simp_all add: tolower_def isupper_def)
  then have "html_step outside (CHR ''<'' # a @ CHR ''>'' # s) = ([], 1, (True, False, False, ''<''))"
    by (simp add: html_step.simps starts_with_Cons)
  from html_stream_Cons [OF this] show ?thesis
    using assms stream_tag [of a False False "''<''" s] by simp
qed

lemma end_tag_step:
  assumes "sc \<or> sy" "lit = ''script'' \<or> lit = ''style''"
  shows "stream html_step (False, sc, sy, []) (''</'' @ lit @ CHR ''>'' # s) =
    stream html_step (True, sc, sy, ''<'') (CHR ''/'' # lit @ CHR ''>'' # s)"
proof -
  have "html_step (False, sc, sy, []) (''</'' @ lit @ CHR ''>'' # s) = ([], 1, (True, sc, sy, ''<''))"
    by (simp add: html_step.simps starts_with_Cons) (simp add: tolower_def isupper_def)
  then show ?thesis using html_stream_Cons by simp
qed

lemma stream_Script:
  assumes "wf_html (Script a body)"
  shows "stream html_step outside (render_html (Script a body) @ s) = SPACE # SPACE # stream html_step outside s"
proof -
  let ?r = "body @ ''</script>'' @ s"
  have "html_step outside (CHR ''<'' # ''script'' @ a @ CHR ''>'' # ?r) = ([], 1, (True, True, False, ''<''))"
    by (simp add: html_step.simps starts_with_Cons starts_with_refl [of "[]", simplified])
  from html_stream_Cons [OF this]
  have "stream html_step outside (''<script'' @ a @ CHR ''>'' # ?r) =
      stream html_step (True, True, False, ''<'') ((''script'' @ a) @ CHR ''>'' # ?r)" by simp
  also have "\<dots> = SPACE # stream html_step (False, True, False, []) ?r"
  proof -
    have "\<not> ends_with (CHR ''<'' # CHR ''s'' # ''cript'' @ a @ ''>'') ''</script>''"
      using assms by (intro opening_not_end) (auto simp: tolower_def isupper_def)
    then show ?thesis using assms stream_tag [of "''script'' @ a" True False "''<''" ?r] by simp
  qed
  also have "stream html_step (False, True, False, []) ?r = stream html_step (False, True, False, []) (''</'' @ ''script'' @ CHR ''>'' # s)"
    using assms stream_skip [of body True False] by simp
  also have "\<dots> = SPACE # stream html_step outside s"
    using end_tag_step [of True False "''script''" s] stream_tag [of "''/script''" True False "''<''" s] by (simp add: ends_with_def Let_def)
  finally show ?thesis by simp
qed

lemma stream_Style:
  assumes "wf_html (Style a body)"
  shows "stream html_step outside (render_html (Style a body) @ s) = SPACE # SPACE # stream html_step outside s"
proof -
  let ?r = "body @ ''</style>'' @ s"
  have "html_step outside (CHR ''<'' # ''style'' @ a @ CHR ''>'' # ?r) = ([], 1, (True, False, True, ''<''))"
    by (simp add: html_step.simps starts_with_Cons starts_with_refl [of "[]", simplified])
      (simp add: tolower_def isupper_def)
  from html_stream_Cons [OF this]
  have "stream html_step outside (''<style'' @ a @ CHR ''>'' # ?r) =
      stream html_step (True, False, True, ''<'') ((''style'' @ a) @ CHR ''>'' # ?r)" by simp
  also have "\<dots> = SPACE # stream html_step (False, False, True, []) ?r"
  proof -
    have "\<not> ends_with (CHR ''<'' # CHR ''s'' # ''tyle'' @ a @ ''>'') ''</style>''"
      using assms by (intro opening_not_end) (auto simp: tolower_def isupper_def)
    then show ?thesis using assms stream_tag [of "''style'' @ a" False True "''<''" ?r] by simp
  qed
  also have "stream html_step (False, False, True, []) ?r = stream html_step (False, False, True, []) (''</'' @ ''style'' @ CHR ''>'' # s)"
    using assms stream_skip [of body False True] by simp
  also have "\<dots> = SPACE # stream html_step outside s"
    using end_tag_step [of False True "''style''" s] stream_tag [of "''/style''" False True "''<''" s] by (simp add: ends_with_def Let_def)
  finally show ?thesis by simp
qed

lemma stream_Entity:
  assumes "(e, ch) \<in> set entity_table"
  shows "stream html_step outside (e @ s) = ch # stream html_step outside s"
proof -
  have "(e, ch) = (''&amp;'', CHR ''&'') \<or> (e, ch) = (''&lt;'', CHR ''<'') \<or> (e, ch) = (''&gt;'', CHR ''>'') \<or>
      (e, ch) = (''&quot;'', DQUOTE) \<or> (e, ch) = (''&apos;'', SQUOTE) \<or> (e, ch) = (''&nbsp;'', SPACE)"
    using assms by (simp add: entity_table_def)
  then have "decode_entity (e @ s) = Some (length e, ch)"
    by (elim disjE) (simp_all add: decode_entity_def entity_table_def strncmp_eq_def)
  moreover have "hd e = CHR ''&'' \<and> e \<noteq> []" using assms by (auto simp: entity_table_def)
  then obtain e' where "e = CHR ''&'' # e'" by (cases e) auto
  ultimately have "html_step outside (CHR ''&'' # e' @ s) = ([ch], length e, outside)" "e = CHR ''&'' # e'"
    by (simp_all add: html_step.simps)
  then show ?thesis using html_stream_Cons [of outside "CHR ''&''" "e' @ s" "[ch]" "length e" outside] by simp
qed

lemma html_text_pieces:
  "\<forall>x\<in>set xs. wf_html x \<Longrightarrow> html_text (concat (map render_html xs)) = concat (map meaning_html xs)"
  unfolding html_text_def
proof (induction xs)
  case (Cons x xs)
  then have w: "wf_html x" by simp
  have "stream html_step outside (render_html x @ s) = meaning_html x @ stream html_step outside s" for s
  proof (cases x)
    case (Text t)
    then show ?thesis using w stream_text by simp
  next
    case (Entity e ch)
    then show ?thesis using w stream_Entity by simp
  next
    case (Tag a)
    then show ?thesis using w stream_Tag [of a s] by simp
  next
    case (Script a body)
    then show ?thesis using w stream_Script [of a body s] by simp
  next
    case (Style a body)
    then show ?thesis using w stream_Style [of a body s] by simp
  qed
  then show ?case using Cons by simp
qed simp

text \<open>
  C17: \<open>normalize_html\<close> on a text that stands behind at least one other byte of its block never leaves
  the block, and reduces any sequence of plain text, the six named entities, tags, scripts and style
  sheets to its readable part: text is kept, entities become their character, a tag becomes one blank,
  a script or a style sheet, with everything in it, two.
\<close>

theorem normalize_html_correct:
  assumes "terminated b p" and "1 \<le> p" and "cstr (drop p b) = concat (map render_html xs)"
    and "\<forall>x\<in>set xs. wf_html x"
  shows "\<exists>b'. normalize_html b p = Some b' \<and> overwrites p b b' (concat (map meaning_html xs))"
  using normalize_html_total [OF assms(1,2)] html_text_pieces [OF assms(4)] assms(3) by simp

lemma normalize_html_correct_witness:
  "\<exists>b'. normalize_html (LF # ''a<script>x</script>&lt;b<i>'' @ [NUL]) 1 = Some b' \<and>
     overwrites 1 (LF # ''a<script>x</script>&lt;b<i>'' @ [NUL]) b' ''a  <b ''"
  using normalize_html_correct [of "LF # ''a<script>x</script>&lt;b<i>'' @ [NUL]" 1
      "[Text ''a'', Script [] ''x'', Entity ''&lt;'' (CHR ''<''), Text ''b'', Tag ''i'']"]
  by (simp add: terminated_def cstr_def entity_table_def starts_with_def strncasecmp_eq_def)

text \<open>
  At the very beginning of a block the check for the end tag looks in front of the block: a text
  that begins with a complete opening tag of a script makes \<open>normalize_html\<close> read the byte before it.
\<close>

theorem normalize_html_underflow:
  "normalize_html (''<script>'' @ r) 0 = None"
proof -
  have round: "normalize_html_loop (''<script>'' @ r) (Suc i) 0 True True False =
      normalize_html_loop (''<script>'' @ r) (Suc (Suc i)) 0 True True False" if "i < 6" for i
  proof -
    have "(''<script>'' @ r) ! Suc i \<noteq> NUL \<and> (''<script>'' @ r) ! Suc i \<noteq> CHR ''>''"
      using that by (simp add: less_Suc_eq numeral_eq_Suc) auto
    moreover have "rd (''<script>'' @ r) (Suc i) = Some ((''<script>'' @ r) ! Suc i)"
      using that by (simp add: rd_def)
    ultimately show ?thesis by (subst normalize_html_loop.simps) simp
  qed
  have first: "normalize_html_loop (''<script>'' @ r) 0 0 False False False =
      normalize_html_loop (''<script>'' @ r) 1 0 True True False"
    by (subst normalize_html_loop.simps) (simp add: rd_def ncase_at.simps)
  have last: "normalize_html_loop (''<script>'' @ r) 7 0 True True False = None"
    by (subst normalize_html_loop.simps) (simp add: rd_def ncase_at.simps)
  have "normalize_html_loop (''<script>'' @ r) 0 0 False False False = None"
    using first round [of 0] round [of 1] round [of 2] round [of 3] round [of 4] round [of 5] last
    by (simp add: eval_nat_numeral)
  then show ?thesis by (simp add: normalize_html_def)
qed

text \<open>
  \<open>decode_html_entities_utf8_inplace\<close> replaces every decimal and hexadecimal reference to a code
  point of Unicode by its UTF-8 encoding, keeps all other text, and never leaves the block.
\<close>

theorem decode_entities_correct:
  assumes "terminated b p" and "cstr (drop p b) = concat (map render_ent xs)" and "\<forall>x\<in>set xs. wf_ent x"
  shows "\<exists>b'. decode_html_entities_utf8_inplace b p = Some b' \<and>
     overwrites p b b' (concat (map meaning_ent xs))"
  using decode_entities_total [OF assms(1)] stream_ent_pieces [OF assms(3)] assms(2) by simp

lemma decode_entities_correct_witness:
  "\<exists>b'. decode_html_entities_utf8_inplace (''a&#233;b'' @ [NUL]) 0 = Some b' \<and>
     overwrites 0 (''a&#233;b'' @ [NUL]) b' (''a'' @ encode_utf8 233 @ ''b'')"
  using decode_entities_correct [of "''a&#233;b'' @ [NUL]" 0 "[Plain ''a'', Dec_ref ''233'', Plain ''b'']"]
  by (simp add: terminated_def cstr_def isdigit_def digits_val_def digit_val_def)

text \<open>
  The UTF-8 encoder and a reader of UTF-8 sequences are inverse on all code points up to the last
  one of Unicode; beyond it nothing is written.
\<close>

theorem encode_utf8_round_trip:
  "(if cp \<le> 0x10FFFF then decode_utf8 (encode_utf8 cp) = Some (unat cp) else encode_utf8 cp = [])"
proof (cases "cp \<le> 0x10FFFF")
  case False
  then have "\<not> cp \<le> 0x7F" "\<not> cp \<le> 0x7FF" "\<not> cp \<le> 0xFFFF" by (auto simp: word_le_nat_alt)
  with False show ?thesis by (simp add: encode_utf8_def)
qed (simp add: decode_encode_utf8)

end
