(* ===== verification/Utf8.thy ===== *)
theory Utf8
  imports C_Buffer
begin

text \<open>
  \<open>src/utf8.c\<close>: lower case in place for ASCII and Latin-1 letters of a UTF-8 text, and conversion to
  UTF-8 through \<open>iconv\<close>.  The conversion library is a parameter: for the name of an encoding it
  yields, if it knows the encoding, a function from the input and the room in the output buffer to a
  success flag and the bytes written.
\<close>

unbundle bit_operations_syntax

lemma latin1_chars:
  "char_of (97 :: nat) = CHR ''a''" "char_of (161 :: nat) = CHR 0xA1" "char_of (183 :: nat) = CHR 0xB7"
  "char_of (191 :: nat) = CHR 0xBF"
  by code_simp+

section \<open>utf8\_tolower\<close>

definition latin1_lc_map :: "nat list" where
  "latin1_lc_map = [0xA0, 0xA1, 0xA2, 0xA3, 0xA4, 0xA5, 0xA6, 0xA7,
                0xA8, 0xA9, 0xAA, 0xAB, 0xAC, 0xAD, 0xAE, 0xAF,
                0xB0, 0xB1, 0xB2, 0xB3, 0xB4, 0xB5, 0xB6, 0xB7,
                0xB8, 0xB9, 0xBA, 0xBB, 0xBC, 0xBD, 0xBE, 0xBF,
                0xA0, 0xA1, 0xA2, 0xA3, 0xA4, 0xA5, 0xA6, 0xA7,
                0xA8, 0xA9, 0xAA, 0xAB, 0xAC, 0xAD, 0xAE, 0xAF,
                0xB0, 0xB1, 0xB2, 0xB3, 0xB4, 0xB5, 0xB6, 0xB7,
                0xB8, 0xB9, 0xBA, 0xBB, 0xBC, 0xBD, 0xBE, 0xBF]"

function utf8_tolower :: "buf \<Rightarrow> nat \<Rightarrow> buf option" where
  "utf8_tolower b p =
     do { c \<leftarrow> rd b p;
          if c = NUL then Some b
          else if byte c < 0x80 then
            (if 65 \<le> byte c \<and> byte c \<le> 90
             then do { b' \<leftarrow> wr b p (char_of (byte c + 32)); utf8_tolower b' (p + 1) }
             else utf8_tolower b (p + 1))
          else do {
            d \<leftarrow> (if byte c = 0xC3 then rd b (p + 1) else Some NUL);
            if byte c = 0xC3 \<and> 0x80 \<le> byte d \<and> byte d \<le> 0xBF then
              do { b' \<leftarrow> wr b (p + 1) (char_of (latin1_lc_map ! (byte d - 0x80))); utf8_tolower b' (p + 2) }
            else if byte c AND 0xE0 = 0xC0 then utf8_tolower b (p + 2)
            else if byte c AND 0xF0 = 0xE0 then utf8_tolower b (p + 3)
            else if byte c AND 0xF8 = 0xF0 then utf8_tolower b (p + 4)
            else utf8_tolower b (p + 1) } }"
  by pat_completeness auto
termination
  by (relation "measure (\<lambda>(b, p). length b - p)") (auto simp: wr_def rd_def split: if_splits)

declare utf8_tolower.simps [simp del]

section \<open>Texts of complete characters\<close>

definition char_len :: "char \<Rightarrow> nat" where
  "char_len c = (if byte c < 192 then 1 else if byte c < 224 then 2 else if byte c < 240 then 3
     else if byte c < 248 then 4 else 1)"

definition complete :: "string \<Rightarrow> bool" where
  "complete s \<longleftrightarrow> s \<noteq> [] \<and> NUL \<notin> set s \<and> length s = char_len (hd s)"

definition lower :: "string \<Rightarrow> string" where
  "lower s =
     (if byte (hd s) < 128 then [tolower (hd s)]
      else if byte (hd s) = 0xC3 \<and> 0x80 \<le> byte (s ! 1) \<and> byte (s ! 1) < 0xA0
      then [hd s, char_of (byte (s ! 1) + 32)] else s)"

lemma and_shifted_mask: "(n :: nat) AND push_bit k (mask m) = n div 2 ^ k mod 2 ^ m * 2 ^ k"
proof -
  have "n AND push_bit k (mask m) = push_bit k (take_bit m (drop_bit k n))"
    by (rule bit_eqI) (auto simp: bit_simps)
  then show ?thesis by (simp add: push_bit_eq_mult take_bit_eq_mod drop_bit_eq_div)
qed

lemma div_eq_block: "0 < m \<Longrightarrow> (n div m = q) = (q * m \<le> n \<and> n < Suc q * (m :: nat))"
proof -
  assume m: "0 < m"
  have "(n div m = q) = (q \<le> n div m \<and> n div m < Suc q)" by auto
  then show ?thesis using m by (simp only: less_eq_div_iff_mult_less_eq div_less_iff_less_mult)
qed

lemma lead_mask:
  "(byte c AND 0xE0 = 0xC0) = (192 \<le> byte c \<and> byte c < 224)"
  "(byte c AND 0xF0 = 0xE0) = (224 \<le> byte c \<and> byte c < 240)"
  "(byte c AND 0xF8 = 0xF0) = (240 \<le> byte c \<and> byte c < 248)"
proof -
  define n where "n = byte c"
  have n: "n < 256" using byte_less_256 [of c] by (simp add: n_def)
  have m: "(0xE0 :: nat) = push_bit 5 (mask 3)" "(0xF0 :: nat) = push_bit 4 (mask 4)"
    "(0xF8 :: nat) = push_bit 3 (mask 5)"
    by (simp_all add: push_bit_eq_mult mask_eq_exp_minus_1)
  have "n AND 0xE0 = n div 32 mod 8 * 32" "n AND 0xF0 = n div 16 mod 16 * 16" "n AND 0xF8 = n div 8 mod 32 * 8"
    unfolding m and_shifted_mask by simp_all
  moreover have "n div 32 mod 8 = n div 32" "n div 16 mod 16 = n div 16" "n div 8 mod 32 = n div 8"
    using n by (simp_all add: less_mult_imp_div_less)
  moreover have "(n div 32 * 32 = 192) = (n div 32 = 6)" "(n div 16 * 16 = 224) = (n div 16 = 14)"
    "(n div 8 * 8 = 240) = (n div 8 = 30)"
    by linarith+
  ultimately show "(byte c AND 0xE0 = 0xC0) = (192 \<le> byte c \<and> byte c < 224)"
    "(byte c AND 0xF0 = 0xE0) = (224 \<le> byte c \<and> byte c < 240)"
    "(byte c AND 0xF8 = 0xF0) = (240 \<le> byte c \<and> byte c < 248)"
    by (simp_all add: n_def [symmetric] div_eq_block)
qed

lemma latin1_map:
  "list_all (\<lambda>n. latin1_lc_map ! n = (if n < 32 then n + 160 else n + 128)) [0..<64]"
  by code_simp

lemma latin1_map_nth: "n < 64 \<Longrightarrow> latin1_lc_map ! n = (if n < 32 then n + 160 else n + 128)"
  using latin1_map by (simp only: list_all_iff set_upt atLeastLessThan_iff) auto

text \<open>One character.\<close>

lemma complete_cases:
  assumes "complete s"
  obtains (one) c where "s = [c]" "byte c < 192 \<or> 248 \<le> byte c" "c \<noteq> NUL"
  | (two) c d where "s = [c, d]" "192 \<le> byte c" "byte c < 224"
  | (three) c d e where "s = [c, d, e]" "224 \<le> byte c" "byte c < 240"
  | (four) c d e f where "s = [c, d, e, f]" "240 \<le> byte c" "byte c < 248"
proof -
  obtain c t where s: "s = c # t" using assms by (cases s) (auto simp: complete_def)
  have l: "Suc (length t) = char_len c" "c \<noteq> NUL" using assms by (auto simp: complete_def s)
  consider "byte c < 192 \<or> 248 \<le> byte c" | "192 \<le> byte c" "byte c < 224" | "224 \<le> byte c" "byte c < 240"
    | "240 \<le> byte c" "byte c < 248" by linarith
  then show ?thesis
  proof cases
    case 1
    then have "t = []" using l by (auto simp: char_len_def)
    then show ?thesis using that(1) [of c] 1 l s by simp
  next
    case 2
    then have "length t = 1" using l by (auto simp: char_len_def)
    then show ?thesis using that(2) 2 s by (auto simp: length_Suc_conv)
  next
    case 3
    then have "length t = 2" using l by (auto simp: char_len_def)
    then show ?thesis using that(3) 3 s by (auto simp: length_Suc_conv numeral_2_eq_2)
  next
    case 4
    then have "length t = 3" using l by (auto simp: char_len_def)
    then show ?thesis using that(4) 4 s by (auto simp: length_Suc_conv numeral_3_eq_3)
  qed
qed

lemma put_same: "drop p b = s @ r \<Longrightarrow> put b p s = b"
  by (simp add: put_def) (metis append_eq_conv_conj append_take_drop_id drop_eq_appendD)

lemma utf8_tolower_char:
  assumes "drop p b = s @ r" "complete s"
  shows "utf8_tolower b p = utf8_tolower (put b p (lower s)) (p + length s)"
  using assms(2)
proof (cases rule: complete_cases)
  case (one c)
  have c: "rd b p = Some c" "p < length b" using assms(1) one drop_eq_ConsD [of p b c r] by (auto simp: rd_def)
  have same: "put b p [c] = b" using put_same [of p b "[c]" r] assms(1) one by simp
  have nn: "c \<noteq> NUL" using one by simp
  have "utf8_tolower b p = utf8_tolower (put b p (lower [c])) (p + 1)"
  proof (cases "byte c < 128")
    case True
    show ?thesis
    proof (cases "isupper c")
      case up: True
      then show ?thesis
        by (subst utf8_tolower.simps)
          (simp add: c(1) nn True lower_def tolower_def wr_put [OF c(2)] isupper_def)
    next
      case no: False
      then have "lower [c] = [c]" using True by (simp add: lower_def tolower_def)
      then show ?thesis using no same True
        by (subst utf8_tolower.simps) (auto simp: c(1) nn isupper_def)
    qed
  next
    case False
    then have "lower [c] = [c]" using one(2) by (auto simp: lower_def)
    moreover have "utf8_tolower b p = utf8_tolower b (p + 1)"
      by (subst utf8_tolower.simps) (use False one(2) in \<open>auto simp: c(1) nn lead_mask\<close>)
    ultimately show ?thesis using same by simp
  qed
  then show ?thesis using one by simp
next
  case (two c d)
  have c: "rd b p = Some c" "rd b (p + 1) = Some d"
    using rd_drop_nth [of p b s r 0] rd_drop_nth [of p b s r 1] assms(1) two by auto
  have "Suc p < length b" using c by (auto simp: rd_def split: if_splits)
  then have w: "wr b (p + 1) x = Some (put b p [c, x])" for x
    using put_put [of p b "[c]" "[x]"] put_same [of p b "[c]" "d # r"] assms(1) two by (simp add: wr_put)
  have same: "put b p [c, d] = b" using put_same [of p b "[c, d]" r] assms(1) two by simp
  have nn: "c \<noteq> NUL" "\<not> byte c < 128" using two by auto
  show ?thesis
  proof (cases "byte c = 0xC3 \<and> 0x80 \<le> byte d \<and> byte d \<le> 0xBF")
    case True
    then have "latin1_lc_map ! (byte d - 0x80) = (if byte d < 0xA0 then byte d + 32 else byte d)"
      by (subst latin1_map_nth) auto
    moreover have "utf8_tolower b p = utf8_tolower (put b p [c, char_of (latin1_lc_map ! (byte d - 0x80))]) (p + 2)"
      using True by (subst utf8_tolower.simps) (simp add: c c(2) [simplified] w w [simplified] nn)
    ultimately show ?thesis using True two nn same by (simp add: lower_def)
  next
    case False
    have "utf8_tolower b p = utf8_tolower b (p + 2)"
      by (subst utf8_tolower.simps) (use False two(2,3) in \<open>auto simp: c [simplified] nn lead_mask\<close>)
    then show ?thesis using False two nn same by (auto simp: lower_def)
  qed
next
  case (three c d e)
  have c: "rd b p = Some c" using rd_drop_nth [of p b s r 0] assms(1) three by auto
  have "utf8_tolower b p = utf8_tolower b (p + 3)"
    by (subst utf8_tolower.simps) (use three in \<open>auto simp: c lead_mask\<close>)
  moreover have "put b p [c, d, e] = b" using put_same [of p b "[c, d, e]" r] assms(1) three by simp
  ultimately show ?thesis using three by (simp add: lower_def eval_nat_numeral)
next
  case (four c d e f)
  have c: "rd b p = Some c" using rd_drop_nth [of p b s r 0] assms(1) four by auto
  have "utf8_tolower b p = utf8_tolower b (p + 4)"
    by (subst utf8_tolower.simps) (use four in \<open>auto simp: c lead_mask\<close>)
  moreover have "put b p [c, d, e, f] = b" using put_same [of p b "[c, d, e, f]" r] assms(1) four by simp
  ultimately show ?thesis using four by (simp add: lower_def eval_nat_numeral)
qed

lemma length_lower [simp]: "complete s \<Longrightarrow> length (lower s) = length s"
  by (erule complete_cases) (auto simp: lower_def)

lemma lower_no_NUL:
  assumes "complete s"
  shows "NUL \<notin> set (lower s)"
proof -
  have n: "NUL \<notin> set s" "s \<noteq> []" using assms by (simp_all add: complete_def)
  have "char_of (byte (s ! 1) + 32) \<noteq> NUL" if "byte (s ! 1) < 0xA0"
  proof -
    have "byte (char_of (byte (s ! 1) + 32) :: char) = byte (s ! 1) + 32" using that by (intro byte_char_of) simp
    then show ?thesis by (metis add_is_0 byte_NUL_iff zero_neq_numeral)
  qed
  moreover have "hd s \<noteq> NUL" using n by (cases s) auto
  moreover from this have "NUL \<noteq> tolower (hd s)" using tolower_NUL_iff by metis
  ultimately show ?thesis using n by (auto simp: lower_def)
qed

lemma utf8_tolower_chars:
  assumes "drop p b = concat cs @ NUL # r" "\<forall>s\<in>set cs. complete s"
  shows "utf8_tolower b p = Some (put b p (concat (map lower cs)))"
  using assms
proof (induction cs arbitrary: b p)
  case Nil
  then show ?case by (subst utf8_tolower.simps) (simp add: rd_drop)
next
  case (Cons s cs)
  have l: "p + length s \<le> length b" "p \<le> length b"
  proof -
    have "length s < length (drop p b)" by (simp add: Cons.prems(1))
    then show "p + length s \<le> length b" "p \<le> length b" by simp_all
  qed
  let ?b = "put b p (lower s)"
  have "drop (p + length s) ?b = concat cs @ NUL # r"
    using Cons.prems l drop_put [of p "lower s" "p + length s" b] drop_eq_appendD [of p b s "concat cs @ NUL # r"]
    by simp
  then have "utf8_tolower ?b (p + length s) = Some (put ?b (p + length s) (concat (map lower cs)))"
    using Cons by simp
  moreover have "utf8_tolower b p = utf8_tolower ?b (p + length s)"
    using utf8_tolower_char [of p b s "concat cs @ NUL # r"] Cons.prems by simp
  moreover have "put ?b (p + length s) (concat (map lower cs)) = put b p (concat (map lower (s # cs)))"
    using put_put [of p b "lower s" "concat (map lower cs)"] l Cons.prems by simp
  ultimately show ?case by simp
qed

lemma utf8_tolower_text:
  assumes "terminated b p" and "cstr (drop p b) = concat cs" and "\<forall>s\<in>set cs. complete s"
  shows "\<exists>b'. utf8_tolower b p = Some b' \<and> overwrites p b b' (concat (map lower cs)) \<and>
     length (concat (map lower cs)) = length (concat cs)"
proof -
  obtain r where r: "drop p b = concat cs @ NUL # r" "p < length b"
    using terminatedE [OF assms(1)] assms(2) by metis
  have len: "length (concat (map lower cs)) = length (concat cs)"
    using assms(3) by (induction cs) auto
  let ?o = "concat (map lower cs)" and ?b = "put b p (concat (map lower cs))"
  have l: "length b = p + length ?o + Suc (length r)" using drop_eq_append_length [OF r(1)] r(2) len by simp
  have d: "drop p ?b = ?o @ NUL # r"
  proof -
    have "drop (p + length ?o) b = NUL # r" using drop_eq_appendD [OF r(1)] len by simp
    then show ?thesis using l by (simp add: put_def)
  qed
  have "overwrites p b ?b ?o"
    unfolding overwrites_def
  proof (intro conjI)
    show "length ?b = length b" using l by simp
    show "take p ?b = take p b" using l by (simp add: take_put_less)
    show "cstr (drop p ?b) = cstr ?o" by (simp add: d cstr_append_NUL)
    show "terminated ?b p" by (simp add: terminated_def d)
    show "length (cstr (drop p ?b)) \<le> length (cstr (drop p b))"
      using length_cstr_le [of ?o] len assms(2) by (simp add: d cstr_append_NUL)
    show "drop (p + Suc (length (cstr (drop p b)))) ?b = drop (p + Suc (length (cstr (drop p b)))) b"
      using len l assms(2) by (simp add: drop_put)
  qed
  then show ?thesis using utf8_tolower_chars [OF r(1) assms(3)] len by simp
qed

text \<open>
  On a text of complete UTF-8 characters \<open>utf8_tolower\<close> lowers every ASCII letter and adds 32 to the
  second byte of the characters U+00C0 to U+00DF, changes nothing else, keeps every character's length,
  and never leaves the block.
\<close>

theorem utf8_tolower_correct:
  assumes "terminated b p" and "cstr (drop p b) = concat cs" and "\<forall>s\<in>set cs. complete s"
  shows "\<exists>b'. utf8_tolower b p = Some b' \<and> overwrites p b b' (concat (map lower cs)) \<and>
     length (concat (map lower cs)) = length (concat cs)"
  using assms by (rule utf8_tolower_text)

lemma utf8_tolower_correct_witness:
  "\<exists>b'. utf8_tolower (''Ab'' @ [CHR 0xC3, CHR 0x81, NUL]) 0 = Some b' \<and>
     overwrites 0 (''Ab'' @ [CHR 0xC3, CHR 0x81, NUL]) b' (''ab'' @ [CHR 0xC3, CHR 0xA1])"
  using utf8_tolower_correct [of "''Ab'' @ [CHR 0xC3, CHR 0x81, NUL]" 0 "[''A'', ''b'', [CHR 0xC3, CHR 0x81]]"]
  by (simp add: terminated_def cstr_def complete_def char_len_def lower_def tolower_def isupper_def latin1_chars)

text \<open>
  A character cut off at the end of the text takes the pointer over the terminator: with nothing
  behind it in the block, \<open>utf8_tolower\<close> reads outside.
\<close>

theorem utf8_tolower_overrun:
  "utf8_tolower (s @ [CHR 0xE2, NUL]) (length s) = None"
  by (simp add: utf8_tolower.simps [of _ "length s"] utf8_tolower.simps [of _ "length s + 3"]
      rd_def nth_append lead_mask)

text \<open>The table treats the two characters among the letters that have no case as if they had one.\<close>

lemma utf8_tolower_times_sign: "lower [CHR 0xC3, CHR 0x97] = [CHR 0xC3, CHR 0xB7]"
  "lower [CHR 0xC3, CHR 0x9F] = [CHR 0xC3, CHR 0xBF]"
  by (simp_all add: lower_def latin1_chars)

section \<open>utf8\_encode\<close>

type_synonym iconv = "string \<Rightarrow> (string \<Rightarrow> nat \<Rightarrow> bool \<times> string) option"

text \<open>The result code (0 is \<open>OK\<close>) and the contents of the output buffer, which is cleared before.\<close>

definition utf8_encode :: "iconv \<Rightarrow> string \<Rightarrow> int \<Rightarrow> string \<Rightarrow> int \<times> string" where
  "utf8_encode iconv_open inbuf outbuflen encoding =
     (let cd = (if strcasecmp_eq encoding ''gb2312'' then iconv_open ''cp936''
                else if strcasecmp_eq encoding ''ks_c_5601-1987'' then iconv_open ''EUC-KR''
                else iconv_open encoding)
      in case cd of
           None \<Rightarrow> (1, [])
         | Some iconv \<Rightarrow>
             (let (failed, out) = iconv inbuf (nat (outbuflen - 1))
              in (if failed then 1 else 0, out)))"

text \<open>What the program relies on: the library writes no more than it is allowed to.\<close>

definition iconv_bounded :: "iconv \<Rightarrow> bool" where
  "iconv_bounded ic \<longleftrightarrow> (\<forall>e f s n. ic e = Some f \<longrightarrow> length (snd (f s n)) \<le> n)"

lemma utf8_encode_fits:
  assumes "iconv_bounded ic" "1 \<le> n"
  shows "int (length (snd (utf8_encode ic s n e))) \<le> n - 1"
proof -
  have b: "int (length (snd (f s (nat (n - 1))))) \<le> n - 1" if "ic x = Some f" for x f
  proof -
    have "length (snd (f s (nat (n - 1)))) \<le> nat (n - 1)" using assms(1) that by (simp add: iconv_bounded_def)
    then show ?thesis using assms(2) by linarith
  qed
  show ?thesis
    using assms(2) by (auto simp: utf8_encode_def Let_def case_prod_beta dest: b split: option.splits)
qed

end
