(* ===== verification/Kospam_Config.thy ===== *)
theory Kospam_Config
  imports Complex_Main C_Strings
begin

text \<open>
  \<open>src/cfg.h\<close>: the configuration.  A \<open>char[MAXVAL]\<close> field is the C string it holds, a \<open>float\<close> a
  real number.  The other components read it; \<open>src/cfg.c\<close>, which fills it, is modelled in
  \<open>Kospam_Cfg\<close>.
\<close>

record config =
  cfg_blackhole_email_list :: string
  cfg_debug :: int
  cfg_enable_xforward :: string
  cfg_esf_h :: real
  cfg_esf_s :: real
  cfg_exclusion_radius :: real
  cfg_history :: int
  cfg_hostname :: string
  cfg_kospam_header_field :: string
  cfg_kospam_spam_header_field :: string
  cfg_listen_addr :: string
  cfg_locale :: string
  cfg_log_subject :: int
  cfg_max_ham_spamicity :: real
  cfg_max_line_len :: int
  cfg_max_message_size_to_filter :: int
  cfg_max_requests_per_child :: int
  cfg_max_word_len :: int
  cfg_message_from_a_zombie :: int
  cfg_min_word_len :: int
  cfg_mynetwork :: string
  cfg_mysqlhost :: string
  cfg_mysqlport :: int
  cfg_mysqlsocket :: string
  cfg_mysqluser :: string
  cfg_mysqlpwd :: string
  cfg_mysqldb :: string
  cfg_mysql_connect_timeout :: int
  cfg_number_of_worker_processes :: int
  cfg_our_signo :: string
  cfg_penalize_embed_images :: int
  cfg_penalize_images :: int
  cfg_penalize_octet_stream :: int
  cfg_pemfile :: string
  cfg_pidfile :: string
  cfg_possible_spam_limit :: real
  cfg_possible_spam_subject_prefix :: string
  cfg_quarantinedir :: string
  cfg_received_lines_to_skip :: int
  cfg_rob_s :: real
  cfg_rob_x :: real
  cfg_skipped_received_ips :: string
  cfg_smtp_addr :: string
  cfg_spam_overall_limit :: real
  cfg_spaminess_oblivion_limit :: real
  cfg_spam_subject_prefix :: string
  cfg_update_tokens :: int
  cfg_username :: string
  cfg_verbosity :: int
  cfg_workdir :: string

text \<open>
  The configuration in force when the file says nothing.  \<open>datadir\<close> is the directory chosen when the
  program is configured.  \<open>Kospam_Cfg\<close> shows that \<open>load_default_config\<close> yields it.
\<close>

definition default_config :: "string \<Rightarrow> config" where
  "default_config datadir = \<lparr>
    cfg_blackhole_email_list = [],
    cfg_debug = 0,
    cfg_enable_xforward = ''false'',
    cfg_esf_h = 1.0,
    cfg_esf_s = 1.0,
    cfg_exclusion_radius = 0.375,
    cfg_history = 0,
    cfg_hostname = ''kospam.localhost'',
    cfg_kospam_header_field = ''X-Kospam-spamicity: '',
    cfg_kospam_spam_header_field = [],
    cfg_listen_addr = ''127.0.0.1:10025'',
    cfg_locale = [],
    cfg_log_subject = 0,
    cfg_max_ham_spamicity = 0.45,
    cfg_max_line_len = 2000,
    cfg_max_message_size_to_filter = 256000,
    cfg_max_requests_per_child = 10000,
    cfg_max_word_len = 25,
    cfg_message_from_a_zombie = 0,
    cfg_min_word_len = 1,
    cfg_mynetwork = [],
    cfg_mysqlhost = [],
    cfg_mysqlport = 0,
    cfg_mysqlsocket = ''/tmp/mysql.sock'',
    cfg_mysqluser = ''piler'',
    cfg_mysqlpwd = [],
    cfg_mysqldb = ''piler'',
    cfg_mysql_connect_timeout = 2,
    cfg_number_of_worker_processes = 3,
    cfg_our_signo = [],
    cfg_penalize_embed_images = 0,
    cfg_penalize_images = 0,
    cfg_penalize_octet_stream = 0,
    cfg_pemfile = [],
    cfg_pidfile = ''/var/kospam/run/kospam.pid'',
    cfg_possible_spam_limit = 0.8,
    cfg_possible_spam_subject_prefix = [],
    cfg_quarantinedir = take 254 (datadir @ ''/kospam/quarantine''),
    cfg_received_lines_to_skip = 0,
    cfg_rob_s = 1.0,
    cfg_rob_x = 0.52,
    cfg_skipped_received_ips = [],
    cfg_smtp_addr = ''127.0.0.1:10026'',
    cfg_spam_overall_limit = 0.92,
    cfg_spaminess_oblivion_limit = 1.01,
    cfg_spam_subject_prefix = [],
    cfg_update_tokens = 1,
    cfg_username = ''kospam'',
    cfg_verbosity = 1,
    cfg_workdir = take 254 (datadir @ ''/kospam/tmp'')\<rparr>"

lemma default_config_simps [simp]:
  "cfg_esf_h (default_config d) = 1" "cfg_esf_s (default_config d) = 1"
  "cfg_exclusion_radius (default_config d) = 0.375" "cfg_min_word_len (default_config d) = 1"
  "cfg_max_word_len (default_config d) = 25" "cfg_rob_s (default_config d) = 1"
  "cfg_rob_x (default_config d) = 0.52" "cfg_spam_overall_limit (default_config d) = 0.92"
  "cfg_max_ham_spamicity (default_config d) = 0.45"
  by (simp_all add: default_config_def)

end
