(* ===== verification/Kospam_Strings.thy ===== *)
theory Kospam_Strings
  imports C_Buffer
begin

text \<open>
  \<open>src/strings.c\<close>: splitting at a delimiter, normalising a text to words separated by single
  spaces, chopping line ends, the token of a URL, pattern lists of addresses.  \<open>split\<close>,
  \<open>is_item_on_list\<close> and \<open>extract_url_token\<close> work on the contents of C strings (a NULL pointer is
  \<open>None\<close>); \<open>normalize_buffer\<close> and \<open>chop_newlines\<close> rewrite a memory block through checked
  accesses.
\<close>

section \<open>split\<close>

text \<open>The result is the returned pointer, the contents of \<open>buf\<close> and \<open>*result\<close>.\<close>

definition split :: "string option \<Rightarrow> char \<Rightarrow> int \<Rightarrow> string option \<times> string \<times> int" where
  "split str ch buflen =
     (case str of
        None \<Rightarrow> (None, [], 0)
      | Some s \<Rightarrow>
          if buflen < 1 then (None, [], 0)
          else if s = [] then (None, [], 0)
          else case strchr s ch of
              Some token_len \<Rightarrow>
                let copy_len = (if token_len < nat (buflen - 1) then token_len else nat (buflen - 1))
                in (Some (drop (Suc token_len) s), take copy_len s, 1)
            | None \<Rightarrow> (None, take (nat (buflen - 1)) s, if s \<noteq> [] then 1 else 0))"

lemma split_shorter: "split (Some s) ch n = (Some s', v, r) \<Longrightarrow> length s' < length s"
  by (auto simp: split_def Let_def split: if_splits option.splits)

text \<open>
  The loop \<open>while (p) { p = split (p, ch, v, n, ...); ... }\<close> every caller runs: the contents \<open>v\<close>
  has in each round.
\<close>

function split_all :: "int \<Rightarrow> char \<Rightarrow> string \<Rightarrow> string list" where
  "split_all n ch s =
     (case split (Some s) ch n of
        (Some s', v, r) \<Rightarrow> v # split_all n ch s'
      | (None, v, r) \<Rightarrow> [v])"
  by pat_completeness auto
termination
  by (relation "measure (\<lambda>(n, ch, s). length s)") (auto dest: split_shorter [OF sym])

declare split_all.simps [simp del]

text \<open>Reference: the fields of a text between the occurrences of a delimiter.\<close>

fun cut_at :: "char \<Rightarrow> string \<Rightarrow> string list" where
  "cut_at ch [] = [[]]"
| "cut_at ch (c # s) =
     (if c = ch then [] # cut_at ch s
      else (c # hd (cut_at ch s)) # tl (cut_at ch s))"

fun join :: "char \<Rightarrow> string list \<Rightarrow> string" where
  "join ch [] = []"
| "join ch [f] = f"
| "join ch (f # fs) = f @ ch # join ch fs"

lemma cut_at_not_Nil [simp]: "cut_at ch s \<noteq> []"
  by (cases s) auto

lemma join_Cons: "join ch (f # fs) = (if fs = [] then f else f @ ch # join ch fs)"
  by (cases fs) auto

lemma join_cut_at [simp]: "join ch (cut_at ch s) = s"
proof (induction s)
  case (Cons c s)
  obtain f fs where f: "cut_at ch s = f # fs" by (cases "cut_at ch s") auto
  with Cons show ?case by (auto simp: join_Cons split: if_splits)
qed simp

lemma cut_at_no_delim: "f \<in> set (cut_at ch s) \<Longrightarrow> ch \<notin> set f"
proof (induction s arbitrary: f)
  case (Cons c s)
  obtain g gs where g: "cut_at ch s = g # gs" by (cases "cut_at ch s") auto
  with Cons show ?case by (auto split: if_splits)
qed simp

lemma cut_at_no_occurrence: "ch \<notin> set w \<Longrightarrow> cut_at ch w = [w]"
  by (induction w) auto

lemma cut_at_append: "ch \<notin> set w \<Longrightarrow> cut_at ch (w @ ch # t) = w # cut_at ch t"
  by (induction w) auto

lemma cut_at_join: "\<forall>w\<in>set ws. ch \<notin> set w \<Longrightarrow> ws \<noteq> [] \<Longrightarrow> cut_at ch (join ch ws) = ws"
  by (induction ws) (auto simp: join_Cons cut_at_no_occurrence cut_at_append)

lemma cut_at_strchr:
  "cut_at ch s = (case strchr s ch of None \<Rightarrow> [s] | Some i \<Rightarrow> take i s # cut_at ch (drop (Suc i) s))"
  by (induction s) (auto split: option.splits)

lemma split_all_cut_at:
  assumes "1 \<le> n"
  shows "split_all n ch s = map (take (nat (n - 1))) (cut_at ch s)"
proof (induction s rule: length_induct)
  case (1 s)
  show ?case
  proof (cases "strchr s ch")
    case None
    then show ?thesis using assms
      by (subst split_all.simps, subst cut_at_strchr) (simp add: split_def)
  next
    case (Some i)
    then have "i < length s" "s \<noteq> []" using strchr_SomeD [OF Some] by auto
    with 1 have "split_all n ch (drop (Suc i) s) = map (take (nat (n - 1))) (cut_at ch (drop (Suc i) s))"
      by simp
    with Some assms \<open>s \<noteq> []\<close> show ?thesis
      by (subst split_all.simps, subst cut_at_strchr) (auto simp: split_def Let_def min_def)
  qed
qed

section \<open>normalize\_buffer\<close>

definition is_separator :: "char \<Rightarrow> bool" where
  "is_separator c \<longleftrightarrow> byte c \<le> 32 \<or> c = CHR '','' \<or> c = CHR ''!'' \<or> c = CHR ''?'' \<or> c = CHR '';'' \<or>
     c = CHR ''('' \<or> c = CHR '')''"

function normalize_buffer_loop :: "buf \<Rightarrow> nat \<Rightarrow> nat \<Rightarrow> bool \<Rightarrow> (buf \<times> nat) option" where
  "normalize_buffer_loop b src dst in_space =
     (case rd b src of
        None \<Rightarrow> None
      | Some c \<Rightarrow>
          if c = NUL then Some (b, dst)
          else if is_separator c then
            (if \<not> in_space then
               (case wr b dst SPACE of
                  None \<Rightarrow> None
                | Some b' \<Rightarrow> normalize_buffer_loop b' (Suc src) (Suc dst) True)
             else normalize_buffer_loop b (Suc src) dst in_space)
          else
            (case wr b dst c of
               None \<Rightarrow> None
             | Some b' \<Rightarrow> normalize_buffer_loop b' (Suc src) (Suc dst) False))"
  by pat_completeness auto
termination
  by (relation "measure (\<lambda>(b, src, dst, sp). length b - src)")
     (auto simp: rd_def wr_def split: if_splits)

declare normalize_buffer_loop.simps [simp del]

definition normalize_buffer :: "buf \<Rightarrow> nat \<Rightarrow> buf option" where
  "normalize_buffer b s =
     do { (b', dst) \<leftarrow> normalize_buffer_loop b s s True;
          dst' \<leftarrow> (if dst > s then do { c \<leftarrow> rd b' (dst - 1); Some (if c = SPACE then dst - 1 else dst) }
                   else Some dst);
          wr b' dst' NUL }"

definition normalize_step :: "bool \<Rightarrow> string \<Rightarrow> string \<times> nat \<times> bool" where
  "normalize_step in_space s =
     (if is_separator (hd s) then (if in_space then [] else [SPACE], 1, True) else ([hd s], 1, False))"

interpretation norm: inplace_loop normalize_buffer_loop normalize_step "\<lambda>_ _ _ _. True"
proof unfold_locales
  fix src :: nat and b r dst st
  assume "drop src b = NUL # r"
  then show "normalize_buffer_loop b src dst st = Some (b, dst)"
    by (subst normalize_buffer_loop.simps) (simp add: rd_drop)
next
  fix src :: nat and b s r dst st out n st'
  assume a: "drop src b = s @ NUL # r" "NUL \<notin> set s" "s \<noteq> []" "dst \<le> src"
    "normalize_step st s = (out, n, st')"
  obtain c t where s: "s = c # t" using a(3) by (cases s) auto
  then have "rd b src = Some c" "c \<noteq> NUL" "dst < length b"
    using a drop_eq_ConsD [of src b c "t @ NUL # r"] by (auto simp: rd_drop)
  then show "normalize_buffer_loop b src dst st =
      normalize_buffer_loop (put b dst out) (src + n) (dst + length out) st' \<and> True"
    using a(5) by (subst normalize_buffer_loop.simps)
      (auto simp: normalize_step_def s wr_put split: if_splits)
qed (auto simp: normalize_step_def Suc_le_eq split: if_splits)

text \<open>Reference: the words of a text.\<close>

lemma length_word_rest:
  assumes "dropWhile is_separator s \<noteq> []"
  shows "length (dropWhile (\<lambda>c. \<not> is_separator c) (dropWhile is_separator s)) < length s"
proof -
  obtain c t where c: "dropWhile is_separator s = c # t"
    using assms by (cases "dropWhile is_separator s") auto
  then have "\<not> is_separator c" using hd_dropWhile [of is_separator s] by simp
  then have "length (dropWhile (\<lambda>c. \<not> is_separator c) (dropWhile is_separator s)) \<le> length t"
    using c by (simp add: length_dropWhile_le)
  also have "\<dots> < length s" using c by (metis Suc_le_lessD length_Cons length_dropWhile_le)
  finally show ?thesis .
qed

function words_of :: "string \<Rightarrow> string list" where
  "words_of s =
     (if dropWhile is_separator s = [] then []
      else takeWhile (\<lambda>c. \<not> is_separator c) (dropWhile is_separator s) #
           words_of (dropWhile (\<lambda>c. \<not> is_separator c) (dropWhile is_separator s)))"
  by pat_completeness auto
termination
  by (relation "measure length") (auto simp: length_word_rest)

declare words_of.simps [simp del]

lemma words_of_none: "dropWhile is_separator s = [] \<Longrightarrow> words_of s = []"
  by (subst words_of.simps) (rule if_P)

lemma words_of_word: "dropWhile is_separator s \<noteq> [] \<Longrightarrow>
    words_of s = takeWhile (\<lambda>c. \<not> is_separator c) (dropWhile is_separator s) #
      words_of (dropWhile (\<lambda>c. \<not> is_separator c) (dropWhile is_separator s))"
  by (subst words_of.simps) (rule if_not_P)

text \<open>What the loop emits, as a function of the text.\<close>

fun squeeze :: "bool \<Rightarrow> string \<Rightarrow> string" where
  "squeeze sp [] = []"
| "squeeze sp (c # s) =
     (if is_separator c then (if sp then squeeze True s else SPACE # squeeze True s)
      else c # squeeze False s)"

definition chop_space :: "string \<Rightarrow> string" where
  "chop_space s = (if s \<noteq> [] \<and> last s = SPACE then butlast s else s)"

lemma is_separator_SPACE [simp]: "is_separator SPACE"
  by (simp add: is_separator_def)

lemma normalize_step_Cons: "normalize_step sp (c # s) =
    (if is_separator c then (if sp then [] else [SPACE], 1, True) else ([c], 1, False))"
  by (simp add: normalize_step_def)

lemma stream_normalize: "stream normalize_step sp s = squeeze sp s"
proof (induction s arbitrary: sp)
  case (Cons c s)
  then show ?case
    by (subst stream.simps) (simp add: normalize_step_Cons case_prod_beta)
qed simp

lemma squeeze_seps: "squeeze True (dropWhile is_separator s) = squeeze True s"
  by (induction s) auto

lemma squeeze_word:
  "squeeze False s = takeWhile (\<lambda>c. \<not> is_separator c) s @
     (case dropWhile (\<lambda>c. \<not> is_separator c) s of [] \<Rightarrow> [] | c # t \<Rightarrow> SPACE # squeeze True t)"
  by (induction s) auto

lemma squeeze_Nil_iff: "squeeze True s = [] \<longleftrightarrow> words_of s = []"
proof -
  have "squeeze True s = [] \<longleftrightarrow> dropWhile is_separator s = []"
    by (induction s) auto
  then show ?thesis by (simp add: words_of.simps [of s])
qed

lemma words_of_sep: "is_separator c \<Longrightarrow> words_of (c # s) = words_of s"
  by (simp add: words_of.simps [of "c # s"] words_of.simps [of s])

lemma words_of_nonempty: "w \<in> set (words_of s) \<Longrightarrow> w \<noteq> [] \<and> (\<forall>c\<in>set w. \<not> is_separator c)"
proof (induction s arbitrary: w rule: words_of.induct)
  case (1 s)
  show ?case
  proof (cases "dropWhile is_separator s = []")
    case True
    with "1.prems" show ?thesis by (simp add: words_of.simps [of s])
  next
    case False
    then have "\<not> is_separator (hd (dropWhile is_separator s))" by (rule hd_dropWhile)
    with False have ne: "takeWhile (\<lambda>c. \<not> is_separator c) (dropWhile is_separator s) \<noteq> []"
      by (cases "dropWhile is_separator s") auto
    have "w = takeWhile (\<lambda>c. \<not> is_separator c) (dropWhile is_separator s) \<or>
        w \<in> set (words_of (dropWhile (\<lambda>c. \<not> is_separator c) (dropWhile is_separator s)))"
      using "1.prems" by (simp only: words_of_word [OF False] set_simps insert_iff)
    then show ?thesis
    proof
      assume "w = takeWhile (\<lambda>c. \<not> is_separator c) (dropWhile is_separator s)"
      then show ?thesis using ne by (metis set_takeWhileD)
    qed (rule "1.IH" [OF False])
  qed
qed

lemma chop_space_append: "t \<noteq> [] \<Longrightarrow> chop_space (s @ t) = s @ chop_space t"
  by (simp add: chop_space_def butlast_append)

text \<open>The normal form: the words, separated by single spaces.\<close>

lemma chop_squeeze: "chop_space (squeeze True s) = join SPACE (words_of s)"
proof (induction s rule: words_of.induct)
  case (1 s)
  show ?case
  proof (cases "dropWhile is_separator s = []")
    case True
    then have "squeeze True s = []" by (metis squeeze_seps squeeze.simps(1))
    then show ?thesis using True by (simp add: words_of.simps [of s] chop_space_def)
  next
    case False
    let ?d = "dropWhile is_separator s"
    let ?w = "takeWhile (\<lambda>c. \<not> is_separator c) ?d" and ?r = "dropWhile (\<lambda>c. \<not> is_separator c) ?d"
    have nh: "\<not> is_separator (hd ?d)" using False by (rule hd_dropWhile)
    then have sq: "squeeze True s = ?w @ (case ?r of [] \<Rightarrow> [] | c # t \<Rightarrow> SPACE # squeeze True t)"
      using False squeeze_word [of ?d] squeeze_seps [of s] by (cases ?d) auto
    have wn: "?w \<noteq> []" "last ?w \<noteq> SPACE"
    proof -
      show "?w \<noteq> []" using False nh by (cases ?d) auto
      then have "last ?w \<in> set ?w" by simp
      then show "last ?w \<noteq> SPACE" by (auto dest: set_takeWhileD)
    qed
    show ?thesis
    proof (cases ?r)
      case Nil
      have "squeeze True s = ?w" using sq by (simp only: Nil list.case append_Nil2)
      moreover have "words_of s = [?w]"
        using words_of_word [OF False] words_of_none [of "[]"] by (simp only: Nil dropWhile.simps)
      ultimately show ?thesis using wn by (simp add: chop_space_def)
    next
      case (Cons c t)
      have c: "is_separator c" using hd_dropWhile [of "\<lambda>c. \<not> is_separator c" ?d] Cons by simp
      have ws: "words_of s = ?w # words_of t"
        using words_of_word [OF False] by (simp only: Cons words_of_sep [OF c])
      have IH: "chop_space (squeeze True t) = join SPACE (words_of t)"
        using "1.IH" [OF False] by (simp only: Cons words_of_sep [OF c] squeeze.simps c if_True)
      have sq': "squeeze True s = ?w @ SPACE # squeeze True t" using sq by (simp only: Cons list.case)
      show ?thesis
      proof (cases "words_of t = []")
        case True
        then have "squeeze True t = []" by (simp add: squeeze_Nil_iff)
        then show ?thesis using sq' ws True wn by (simp add: chop_space_def butlast_append)
      next
        case nt: False
        then have "squeeze True t \<noteq> []" by (simp add: squeeze_Nil_iff)
        then have "chop_space (squeeze True s) = ?w @ SPACE # chop_space (squeeze True t)"
          using chop_space_append [of "squeeze True t" "?w @ [SPACE]"] sq' by simp
        then show ?thesis using IH ws nt by (simp add: join_Cons)
      qed
    qed
  qed
qed

lemma NUL_squeeze: "NUL \<notin> set s \<Longrightarrow> NUL \<notin> set (chop_space (squeeze sp s))"
proof -
  have "NUL \<notin> set s \<Longrightarrow> NUL \<notin> set (squeeze sp s)" for sp
    by (induction s arbitrary: sp) auto
  then show "NUL \<notin> set s \<Longrightarrow> NUL \<notin> set (chop_space (squeeze sp s))"
    by (auto simp: chop_space_def dest: in_set_butlastD)
qed

lemma chop_space_take: "chop_space s = take (if s \<noteq> [] \<and> last s = SPACE then length s - 1 else length s) s"
  by (simp add: chop_space_def butlast_conv_take)

lemma normalize_buffer_emits:
  assumes "terminated b p"
  shows "\<exists>b' out. normalize_buffer b p = Some b' \<and> overwrites p b b' out \<and>
     out = join SPACE (words_of (cstr (drop p b)))"
proof -
  let ?q = "squeeze True (cstr (drop p b))"
  obtain b1 where L: "normalize_buffer_loop b p p True = Some (b1, p + length ?q)"
      and e: "emitted p b b1 ?q"
    using norm.loop_emits [OF assms TrueI, of True] by (auto simp: stream_normalize)
  let ?k = "if ?q \<noteq> [] \<and> last ?q = SPACE then length ?q - 1 else length ?q"
  have k: "?k \<le> length ?q" by simp
  have "normalize_buffer b p = wr b1 (p + ?k) NUL"
  proof (cases "?q = []")
    case True
    then show ?thesis using L by (simp add: normalize_buffer_def)
  next
    case False
    then have "rd b1 (p + length ?q - 1) = Some (last ?q)"
      using emitted_rd [OF assms e, of "length ?q - 1"]
      by (simp add: last_conv_nth Nat.add_diff_assoc Suc_le_eq)
    then show ?thesis using L False
      by (simp add: normalize_buffer_def Nat.add_diff_assoc Suc_le_eq)
  qed
  moreover have "take ?k ?q = join SPACE (words_of (cstr (drop p b)))"
    using chop_squeeze chop_space_take [of ?q] by metis
  ultimately show ?thesis using emitted_terminate [OF assms e k] by metis
qed

lemma normalize_buffer_total: "terminated b p \<Longrightarrow> \<exists>b'. normalize_buffer b p = Some b'"
  using normalize_buffer_emits by blast

text \<open>
  C9: \<open>normalize_buffer\<close> on any terminated string never leaves the block, and turns it into its
  words (the maximal runs without white space, control characters and the listed punctuation)
  separated by single spaces; nothing in front of the string or behind its old terminator changes.
\<close>

theorem normalize_buffer_correct:
  assumes "terminated b p"
  shows "\<exists>b'. normalize_buffer b p = Some b' \<and>
     overwrites p b b' (join SPACE (words_of (cstr (drop p b))))"
  using normalize_buffer_emits [OF assms] by blast

theorem normalize_buffer_correct_witness:
  "\<exists>b'. normalize_buffer (''Re: '' @ ''Hi, (you)! '' @ [NUL]) 4 = Some b' \<and>
     overwrites 4 (''Re: '' @ ''Hi, (you)! '' @ [NUL]) b' ''Hi you''"
proof -
  let ?b = "''Re: '' @ ''Hi, (you)! '' @ [NUL]"
  have "terminated ?b 4" by (simp add: terminated_def)
  moreover have "join SPACE (words_of (cstr (drop 4 ?b))) = ''Hi you''" by code_simp
  ultimately show ?thesis using normalize_buffer_correct [of ?b 4] by simp
qed

text \<open>
  After \<open>normalize_buffer\<close>, cutting the text at spaces (as the tokenizer does) gives exactly
  its words, so no empty field: the normal form has no leading, trailing or double space.
\<close>

theorem cut_at_of_normal_form:
  assumes "terminated b p" and "normalize_buffer b p = Some b'"
    and "words_of (cstr (drop p b)) \<noteq> []" and "1 \<le> n"
  shows "split_all n SPACE (cstr (drop p b')) = map (take (nat (n - 1))) (words_of (cstr (drop p b)))"
proof -
  let ?ws = "words_of (cstr (drop p b))"
  have o: "cstr (drop p b') = cstr (join SPACE ?ws)"
    using normalize_buffer_emits [OF assms(1)] assms(2) by (auto simp: overwrites_def)
  have w: "\<forall>w\<in>set ?ws. SPACE \<notin> set w"
    using words_of_nonempty is_separator_SPACE by metis
  have "NUL \<notin> set (join SPACE ?ws)"
    using NUL_squeeze chop_squeeze by (metis cstr_no_NUL)
  then show ?thesis using o cut_at_join [OF w assms(3)] assms(4)
    by (simp add: split_all_cut_at cstr_id)
qed

text \<open>A subject line as the parser stores it: two spaces would give an empty field.\<close>

theorem cut_at_of_normal_form_witness:
  "\<exists>b'. normalize_buffer (''buy  now!'' @ [NUL]) 0 = Some b' \<and>
     split_all 511 SPACE (cstr (drop 0 b')) = [''buy'', ''now'']"
proof -
  let ?b = "''buy  now!'' @ [NUL]"
  have t: "terminated ?b 0" by (simp add: terminated_def)
  have w: "words_of (cstr (drop 0 ?b)) = [''buy'', ''now'']" by code_simp
  obtain b' where b': "normalize_buffer ?b 0 = Some b'"
    using normalize_buffer_total [OF t] by blast
  have "split_all 511 SPACE (cstr (drop 0 b')) = map (take (nat (511 - 1))) (words_of (cstr (drop 0 ?b)))"
    by (rule cut_at_of_normal_form [OF t b']) (simp_all only: w, simp_all)
  then show ?thesis using b' w by simp
qed

section \<open>chop\_newlines\<close>

primrec chop_newlines :: "buf \<Rightarrow> nat \<Rightarrow> nat \<Rightarrow> buf option" where
  "chop_newlines b str 0 = Some b"
| "chop_newlines b str (Suc len) =
     (case rd b (str + len) of
        None \<Rightarrow> None
      | Some c \<Rightarrow>
          if c = CR \<or> c = LF then
            (case wr b (str + len) NUL of
               None \<Rightarrow> None
             | Some b' \<Rightarrow> chop_newlines b' str len)
          else Some b)"

text \<open>Reference: the text without the line ends at its end.\<close>

definition rstrip_newlines :: "string \<Rightarrow> string" where
  "rstrip_newlines s = rev (dropWhile (\<lambda>c. c = CR \<or> c = LF) (rev s))"

lemma rstrip_snoc: "rstrip_newlines (s @ [c]) = (if c = CR \<or> c = LF then rstrip_newlines s else s @ [c])"
  by (simp add: rstrip_newlines_def)

lemma rstrip_prefix: "prefix (rstrip_newlines s) s"
  unfolding rstrip_newlines_def by (metis suffix_dropWhile suffix_to_prefix rev_rev_ident)

lemma chop_newlines_blocks:
  "drop str b = s @ NUL # r \<Longrightarrow> NUL \<notin> set s \<Longrightarrow> str < length b \<Longrightarrow>
   chop_newlines b str (length s) =
     Some (put b (str + length (rstrip_newlines s)) (replicate (length s - length (rstrip_newlines s)) NUL))"
proof (induction s arbitrary: b r rule: rev_induct)
  case Nil
  then show ?case by (simp add: rstrip_newlines_def)
next
  case (snoc c s)
  have rdc: "rd b (str + length s) = Some c"
    using rd_drop_nth [of str b "s @ [c]" "NUL # r" "length s"] snoc.prems by simp
  have len: "str + length s < length b" using rdc by (simp add: rd_def split: if_splits)
  show ?case
  proof (cases "c = CR \<or> c = LF")
    case True
    let ?b = "put b (str + length s) [NUL]"
    have d: "drop str ?b = s @ NUL # NUL # r"
    proof -
      have "take (length s) (drop str b) = s" using snoc.prems by simp
      moreover have "drop (Suc (length s)) (drop str b) = NUL # r" using snoc.prems by simp
      ultimately show ?thesis using len
        by (simp add: put_def drop_take add.commute)
    qed
    let ?k = "length (rstrip_newlines s)"
    have k: "?k \<le> length s" using rstrip_prefix prefix_length_le by blast
    have "chop_newlines b str (length (s @ [c])) = chop_newlines ?b str (length s)"
      using rdc True len by (simp add: wr_put)
    also have "\<dots> = Some (put ?b (str + ?k) (replicate (length s - ?k) NUL))"
      using snoc.IH [OF d] snoc.prems len by simp
    also have "put ?b (str + ?k) (replicate (length s - ?k) NUL) =
        put b (str + ?k) (replicate (length s - ?k) NUL @ [NUL])"
      using k len by (simp add: put_def min_def)
    also have "replicate (length s - ?k) NUL @ [NUL] = replicate (length (s @ [c]) - ?k) NUL"
      using k by (simp add: Suc_diff_le replicate_append_same)
    finally show ?thesis using True by (simp add: rstrip_snoc)
  next
    case False
    then show ?thesis using rdc by (simp add: rstrip_snoc)
  qed
qed

text \<open>
  \<open>chop_newlines\<close> called with the length of the string (as every caller does) stays inside the
  string and removes exactly the trailing CR and LF bytes.
\<close>

theorem chop_newlines_correct:
  assumes "terminated b p"
  shows "\<exists>b'. chop_newlines b p (length (cstr (drop p b))) = Some b' \<and>
     overwrites p b b' (rstrip_newlines (cstr (drop p b)))"
proof -
  let ?s = "cstr (drop p b)"
  let ?t = "rstrip_newlines ?s"
  obtain r where r: "drop p b = ?s @ NUL # r" "p < length b" using terminatedE [OF assms] .
  obtain u where u: "?s = ?t @ u" using rstrip_prefix [of ?s] by (auto simp: prefix_def)
  let ?z = "replicate (length ?s - length ?t) NUL"
  let ?b' = "put b (p + length ?t) ?z"
  have l: "length ?s = length ?t + length u" using arg_cong [OF u, of length] by simp
  have pl: "p + length ?s < length b" by (rule terminated_length [OF assms])
  have dp: "drop p ?b' = ?t @ ?z @ NUL # r"
  proof -
    have "take (length ?t) (drop p b) = ?t" using r(1) u by (metis append.assoc append_eq_conv_conj)
    moreover have "drop (length ?s) (drop p b) = NUL # r" using r(1) by (metis append_eq_conv_conj)
    ultimately show ?thesis using l pl by (simp add: put_def drop_take ac_simps)
  qed
  have "overwrites p b ?b' ?t"
    unfolding overwrites_def
  proof (intro conjI)
    show "length ?b' = length b" using l pl by simp
    show "take p ?b' = take p b" using pl l by (simp add: take_put_less)
    show "cstr (drop p ?b') = cstr ?t"
      unfolding dp by (cases "length ?s - length ?t") (simp_all add: cstr_append_NUL)
    show "terminated ?b' p" by (simp add: terminated_def dp)
    show "length (cstr (drop p ?b')) \<le> length ?s"
      unfolding dp using l length_cstr_le [of ?t] by (cases "length ?s - length ?t") (simp_all add: cstr_append_NUL)
    show "drop (p + Suc (length ?s)) ?b' = drop (p + Suc (length ?s)) b"
      using l pl by (simp add: drop_put)
  qed
  then show ?thesis using chop_newlines_blocks [OF r(1) cstr_no_NUL r(2)] by blast
qed

theorem chop_newlines_correct_witness:
  "\<exists>b'. chop_newlines (''key=v'' @ [CR, LF, NUL]) 4 3 = Some b' \<and>
     overwrites 4 (''key=v'' @ [CR, LF, NUL]) b' ''v''"
proof -
  let ?b = "''key=v'' @ [CR, LF, NUL]"
  have t: "terminated ?b 4" by (simp add: terminated_def)
  have "length (cstr (drop 4 ?b)) = 3" "rstrip_newlines (cstr (drop 4 ?b)) = ''v''"
    by (simp_all add: cstr_def rstrip_newlines_def)
  then show ?thesis using chop_newlines_correct [OF t] by simp
qed

text \<open>\<open>chop_newlines\<close> on a string in memory.\<close>

definition chop_string :: "string \<Rightarrow> string" where
  "chop_string s = (case chop_newlines (s @ [NUL]) 0 (length s) of Some b \<Rightarrow> cstr b | None \<Rightarrow> s)"

lemma chop_string_rstrip: "NUL \<notin> set s \<Longrightarrow> chop_string s = rstrip_newlines s"
proof -
  assume n: "NUL \<notin> set s"
  let ?t = "rstrip_newlines s"
  obtain u where u: "s = ?t @ u" using rstrip_prefix [of s] by (auto simp: prefix_def)
  then have "NUL \<notin> set ?t" using n by (metis UnCI set_append)
  moreover have "put (s @ [NUL]) (length ?t) (replicate (length s - length ?t) NUL) =
      ?t @ replicate (length s - length ?t) NUL @ [NUL]"
  proof -
    have "length ?t \<le> length s" "take (length ?t) (s @ [NUL]) = ?t"
      using u by (metis length_append le_add1, metis append_eq_conv_conj append.assoc)
    then show ?thesis by (simp add: put_def)
  qed
  moreover have "cstr (?t @ replicate k NUL @ [NUL]) = cstr ?t" for k
    by (cases k) (simp_all add: cstr_append_NUL)
  ultimately show ?thesis
    using chop_newlines_blocks [of 0 "s @ [NUL]" s "[]"] n by (simp add: chop_string_def cstr_id)
qed

section \<open>extract\_url\_token\<close>

text \<open>
  The URL is cut in the caller's buffer as the token is built: the result is the new contents of
  \<open>s\<close> and the token.
\<close>

definition extract_url_token :: "string \<Rightarrow> nat \<Rightarrow> string \<times> string" where
  "extract_url_token s resultlen =
     (let s1 = (case strchr s CHR ''/'' of Some p \<Rightarrow> take p s | None \<Rightarrow> s)
      in case strrchr s1 CHR ''.'' of
           Some p \<Rightarrow>
             (case strrchr (take p s1) CHR ''.'' of
                Some q \<Rightarrow> (take q s1, snprintf_s (resultlen - 1) (''URL*'' @ drop (Suc q) s1))
              | None \<Rightarrow> (s1, snprintf_s (resultlen - 1) (''URL*'' @ s1)))
         | None \<Rightarrow> (s1, snprintf_s (resultlen - 1) (''URL*'' @ s1)))"

text \<open>Reference: the host part of a URL, and the last two of its labels.\<close>

definition url_host :: "string \<Rightarrow> string" where
  "url_host s = takeWhile (\<lambda>c. c \<noteq> CHR ''/'') s"

definition last_labels :: "string \<Rightarrow> string list" where
  "last_labels s = (let ls = cut_at CHR ''.'' (url_host s) in drop (length ls - 2) ls)"

lemma url_host_strchr:
  "(case strchr s CHR ''/'' of Some p \<Rightarrow> take p s | None \<Rightarrow> s) = url_host s"
  by (auto simp: url_host_def strchr_takeWhile takeWhile_neq_idem takeWhile_eq_take [symmetric]
      split: option.splits)

lemma strrchr_split:
  "strrchr s c = Some i \<Longrightarrow> cut_at c s = cut_at c (take i s) @ [drop (Suc i) s]"
proof (induction s arbitrary: i)
  case (Cons x s)
  show ?case
  proof (cases "strrchr s c")
    case None
    then have "c \<notin> set s" by (simp add: strrchr_None_iff)
    with Cons.prems None show ?thesis by (auto simp: cut_at_no_occurrence split: if_splits)
  next
    case (Some j)
    then have "cut_at c s = cut_at c (take j s) @ [drop (Suc j) s]" by (rule Cons.IH)
    then show ?thesis using Cons.prems Some
      by (cases "cut_at c (take j s)") (auto split: if_splits)
  qed
qed simp

text \<open>
  The URL token is \<open>URL*\<close> followed by the registrable tail of the host name: its last two
  labels joined by a dot (the whole name when it has at most two), cut to the buffer.  The path
  never contributes.
\<close>

theorem extract_url_token_host:
  "snd (extract_url_token s n) = take (n - 2) (''URL*'' @ join CHR ''.'' (last_labels s))"
proof -
  let ?h = "url_host s"
  have m: "n - 1 - 1 = n - 2" by simp
  show ?thesis
  proof (cases "strrchr ?h CHR ''.''")
    case None
    then have "cut_at CHR ''.'' ?h = [?h]" by (simp add: strrchr_None_iff cut_at_no_occurrence)
    with None m show ?thesis
      by (simp add: extract_url_token_def url_host_strchr last_labels_def snprintf_s_def Let_def del: diff_diff_left)
  next
    case (Some p)
    then have f: "cut_at CHR ''.'' ?h = cut_at CHR ''.'' (take p ?h) @ [drop (Suc p) ?h]"
      and p: "p < length ?h" "?h ! p = CHR ''.''"
      using strrchr_split strrchr_SomeD by fast+
    have hp: "?h = take p ?h @ CHR ''.'' # drop (Suc p) ?h" using p by (metis id_take_nth_drop)
    show ?thesis
    proof (cases "strrchr (take p ?h) CHR ''.''")
      case None
      then have "cut_at CHR ''.'' (take p ?h) = [take p ?h]"
        by (simp add: strrchr_None_iff cut_at_no_occurrence)
      then have "join CHR ''.'' (last_labels s) = ?h" using f hp by (simp add: last_labels_def Let_def)
      then show ?thesis using Some None m
        by (simp add: extract_url_token_def url_host_strchr snprintf_s_def Let_def del: diff_diff_left)
    next
      case q: (Some q)
      then have fq: "cut_at CHR ''.'' (take p ?h) = cut_at CHR ''.'' (take q (take p ?h)) @ [drop (Suc q) (take p ?h)]"
        and ql: "q < p" using strrchr_split [OF q] strrchr_SomeD [OF q] by auto
      have "join CHR ''.'' (last_labels s) = drop (Suc q) (take p ?h) @ CHR ''.'' # drop (Suc p) ?h"
        using f fq by (simp add: last_labels_def Let_def)
      also have "\<dots> = drop (Suc q) ?h"
        using arg_cong [OF hp, of "drop (Suc q)"] ql p by (simp del: drop_take)
      finally show ?thesis using Some q m
        by (simp add: extract_url_token_def url_host_strchr snprintf_s_def Let_def del: diff_diff_left)
    qed
  qed
qed

section \<open>is\_item\_on\_list\<close>

text \<open>
  One pattern \<open>v\<close> of the list against \<open>item\<close>: shorter than three bytes never matches, a trailing
  \<open>$\<close> anchors the pattern at the end, any other pattern may occur anywhere.
\<close>

definition item_matches :: "string \<Rightarrow> string \<Rightarrow> bool" where
  "item_matches item v =
     (if length v < 3 then False
      else if last v = CHR ''$'' then
        (let toklen = length v - 1
         in length item \<ge> toklen \<and>
            strncasecmp_eq (drop (length item - toklen) item) (butlast v) toklen)
      else strcasestr item v \<noteq> None)"

definition is_item_on_list :: "string option \<Rightarrow> string option \<Rightarrow> bool" where
  "is_item_on_list item list =
     (case (item, list) of
        (Some i, Some l) \<Rightarrow>
          if length i < 3 \<or> length l < 3 then False
          else list_ex (item_matches i) (split_all 511 CHR '','' l)
      | _ \<Rightarrow> False)"

text \<open>
  An address is on a list exactly when it and the list have three bytes or more and one of
  the comma separated patterns, cut to 510 bytes and at least three bytes long, occurs in it
  ignoring case, or, written with a final \<open>$\<close>, ends it ignoring case.
\<close>

theorem is_item_on_list_iff:
  "is_item_on_list (Some item) (Some list) \<longleftrightarrow>
     3 \<le> length item \<and> 3 \<le> length list \<and>
     (\<exists>f \<in> set (cut_at CHR '','' list). let v = take 510 f in 3 \<le> length v \<and>
        (if last v = CHR ''$''
         then suffix (map tolower (butlast v)) (map tolower item)
         else sublist (map tolower v) (map tolower item)))"
proof -
  have sfx: "suffix u t \<longleftrightarrow> length u \<le> length t \<and> drop (length t - length u) t = u" for u t :: string
    by (metis append_eq_conv_conj suffix_def suffix_length_le suffix_drop length_append add_diff_cancel_right')
  have "item_matches item v \<longleftrightarrow> 3 \<le> length v \<and>
        (if last v = CHR ''$''
         then suffix (map tolower (butlast v)) (map tolower item)
         else sublist (map tolower v) (map tolower item))" for v
    by (auto simp: item_matches_def sfx strncasecmp_eq_def Let_def take_map drop_map
        strcasestr_def strstr_None_iff)
  then show ?thesis
    by (auto simp: is_item_on_list_def split_all_cut_at list_ex_iff Let_def)
qed

section \<open>count\_character\_in\_buffer\<close>

primrec count_character_in_buffer :: "string \<Rightarrow> char \<Rightarrow> nat" where
  "count_character_in_buffer [] c = 0"
| "count_character_in_buffer (d # p) c = (if d = c then Suc (count_character_in_buffer p c)
     else count_character_in_buffer p c)"

lemma count_character_filter: "count_character_in_buffer p c = length (filter (\<lambda>d. d = c) p)"
  by (induction p) auto

lemma length_cut_at: "length (cut_at ch s) = Suc (count_character_in_buffer s ch)"
  by (induction s) auto

end
