(* ===== verification/C_Float.thy ===== *)
theory C_Float
  imports Complex_Main Kospam_Prelude
begin

text \<open>
  \<open>float\<close> and \<open>double\<close> values.  A finite value is a real number: rounding is not modelled.  What
  the program's branches depend on is modelled: the quotient \<open>0/0\<close> is not a number, every
  operation on a NaN is a NaN and every comparison with one is false.  The type has no infinities:
  \<open>fdiv\<close> of a nonzero number by zero does not arise in the program (the lemmas on \<open>qry_token\<close>
  in \<open>Spam_Engine\<close> show that each divisor of zero comes with a dividend of zero or is excluded by
  the configuration).
\<close>

datatype fp = Fin real | NaN

fun fadd :: "fp \<Rightarrow> fp \<Rightarrow> fp" where
  "fadd (Fin a) (Fin b) = Fin (a + b)"
| "fadd _ _ = NaN"

fun fsub :: "fp \<Rightarrow> fp \<Rightarrow> fp" where
  "fsub (Fin a) (Fin b) = Fin (a - b)"
| "fsub _ _ = NaN"

fun fmul :: "fp \<Rightarrow> fp \<Rightarrow> fp" where
  "fmul (Fin a) (Fin b) = Fin (a * b)"
| "fmul _ _ = NaN"

fun fdiv :: "fp \<Rightarrow> fp \<Rightarrow> fp" where
  "fdiv (Fin a) (Fin b) = (if b = 0 then NaN else Fin (a / b))"
| "fdiv _ _ = NaN"

fun ffabs :: "fp \<Rightarrow> fp" where
  "ffabs (Fin a) = Fin \<bar>a\<bar>"
| "ffabs NaN = NaN"

fun flt :: "fp \<Rightarrow> fp \<Rightarrow> bool" where
  "flt (Fin a) (Fin b) \<longleftrightarrow> a < b"
| "flt _ _ \<longleftrightarrow> False"

fun fle :: "fp \<Rightarrow> fp \<Rightarrow> bool" where
  "fle (Fin a) (Fin b) \<longleftrightarrow> a \<le> b"
| "fle _ _ \<longleftrightarrow> False"

text \<open>\<open>#define DEVIATION(n) fabs((n)-0.5f)\<close>\<close>

definition DEVIATION :: "fp \<Rightarrow> fp" where
  "DEVIATION n = ffabs (fsub n (Fin 0.5))"

abbreviation REAL_HAM_TOKEN_PROBABILITY :: real where
  "REAL_HAM_TOKEN_PROBABILITY \<equiv> 0.0001"

abbreviation REAL_SPAM_TOKEN_PROBABILITY :: real where
  "REAL_SPAM_TOKEN_PROBABILITY \<equiv> 0.9999"

abbreviation DEFAULT_SPAMICITY :: real where
  "DEFAULT_SPAMICITY \<equiv> 0.5"

text \<open>Conversion to \<open>int\<close> truncates towards zero.\<close>

definition trunc :: "real \<Rightarrow> int" where
  "trunc x = (if 0 \<le> x then \<lfloor>x\<rfloor> else \<lceil>x\<rceil>)"

lemma trunc_of_int [simp]: "trunc (of_int i) = i"
  by (simp add: trunc_def)

lemma trunc_nonneg: "0 \<le> x \<Longrightarrow> 0 \<le> trunc x \<and> of_int (trunc x) \<le> x"
  by (simp add: trunc_def)

lemma DEVIATION_Fin [simp]: "DEVIATION (Fin p) = Fin \<bar>p - 0.5\<bar>"
  by (simp add: DEVIATION_def)

lemma DEVIATION_NaN [simp]: "DEVIATION NaN = NaN"
  by (simp add: DEVIATION_def)

end
