(* ===== verification/C_Numbers.thy ===== *)
theory C_Numbers
  imports C_Float C_Strings "HOL-Library.Word"
begin

text \<open>
  Numbers in text: \<open>strtod\<close>/\<open>strtof\<close>/\<open>atof\<close> on decimal numbers (the words \<open>inf\<close> and \<open>nan\<close> and the
  hexadecimal notation, which neither the configuration nor the database uses, are left out),
  \<open>strtoull\<close>, and \<open>%d\<close>, with the round trips between printing and reading.
\<close>

definition frac_val :: "string \<Rightarrow> real" where
  "frac_val ds = real (digits_val 10 ds) / 10 ^ length ds"

definition unsigned_decimal :: "string \<Rightarrow> real" where
  "unsigned_decimal s =
     (let ip = takeWhile isdigit s;
          s3 = drop (length ip) s;
          fp = (if s3 \<noteq> [] \<and> hd s3 = CHR ''.'' then takeWhile isdigit (tl s3) else []);
          s4 = (if s3 \<noteq> [] \<and> hd s3 = CHR ''.'' then drop (length fp) (tl s3) else s3);
          s5 = (if s4 \<noteq> [] \<and> (hd s4 = CHR ''e'' \<or> hd s4 = CHR ''E'') then tl s4 else []);
          eneg = (s5 \<noteq> [] \<and> hd s5 = CHR ''-'');
          s6 = (if s5 \<noteq> [] \<and> (hd s5 = CHR ''-'' \<or> hd s5 = CHR ''+'') then tl s5 else s5);
          e = int (digits_val 10 (takeWhile isdigit s6))
      in if ip = [] \<and> fp = [] then 0
         else (real (digits_val 10 ip) + frac_val fp) * 10 powi (if eneg then - e else e))"

definition strtod :: "string \<Rightarrow> real" where
  "strtod s =
     (let s1 = dropWhile isspace s;
          neg = (s1 \<noteq> [] \<and> hd s1 = CHR ''-'');
          s2 = (if s1 \<noteq> [] \<and> (hd s1 = CHR ''-'' \<or> hd s1 = CHR ''+'') then tl s1 else s1)
      in if neg then - unsigned_decimal s2 else unsigned_decimal s2)"

definition strtoull :: "string \<Rightarrow> 64 word" where
  "strtoull s =
     (let s1 = dropWhile isspace s;
          neg = (s1 \<noteq> [] \<and> hd s1 = CHR ''-'');
          s2 = (if s1 \<noteq> [] \<and> (hd s1 = CHR ''-'' \<or> hd s1 = CHR ''+'') then tl s1 else s1);
          n = digits_val 10 (takeWhile isdigit s2)
      in if n \<ge> 2 ^ 64 then - 1 else if neg then - of_nat n else of_nat n)"

definition show_int :: "int \<Rightarrow> string" where
  "show_int i = (if i < 0 then CHR ''-'' # show_nat (nat (- i)) else show_nat (nat i))"

text \<open>\<open>%.4f\<close>: four decimals, rounded to the nearest (exact ties upwards in magnitude).\<close>

definition show_fixed4 :: "real \<Rightarrow> string" where
  "show_fixed4 x =
     (let m = nat \<lfloor>\<bar>x\<bar> * 10000 + 1 / 2\<rfloor>;
          frac = show_nat (m mod 10000)
      in (if x < 0 then ''-'' else []) @ show_nat (m div 10000) @ ''.'' @
         replicate (4 - length frac) (CHR ''0'') @ frac)"

text \<open>A \<open>long\<close> stored in an \<open>int\<close> keeps its low 32 bits.\<close>

definition to_int32 :: "int \<Rightarrow> int" where
  "to_int32 v = sint (word_of_int v :: 32 word)"

lemma to_int32_id: "- (2 ^ 31) \<le> v \<Longrightarrow> v < 2 ^ 31 \<Longrightarrow> to_int32 v = v"
  by (simp add: to_int32_def sint_sbintrunc' signed_take_bit_int_eq_self)

section \<open>Printing and reading decimal numbers\<close>

lemma byte_digit: "(n :: nat) < 10 \<Longrightarrow> byte (char_of (48 + n)) = 48 + n"
  by simp

lemma isdigit_digit [simp]: "(n :: nat) < 10 \<Longrightarrow> isdigit (char_of (48 + n))"
  by (simp add: isdigit_def)

lemma digit_val_digit [simp]: "(n :: nat) < 10 \<Longrightarrow> digit_val (char_of (48 + n)) = n"
  by (simp add: digit_val_def)

lemma show_nat_digits: "\<forall>c\<in>set (show_nat n). isdigit c"
proof (induction n rule: show_nat.induct)
  case (1 n)
  then show ?case by (subst show_nat.simps) (auto simp del: char_of_nat)
qed

lemma digits_val_snoc: "digits_val b (ds @ [c]) = digits_val b ds * b + digit_val c"
  by (simp add: digits_val_def)

lemma digits_val_show_nat [simp]: "digits_val 10 (show_nat n) = n"
proof (induction n rule: show_nat.induct)
  case (1 n)
  show ?case
  proof (cases "n < 10")
    case True
    then show ?thesis by (subst show_nat.simps) (simp add: digits_val_def)
  next
    case False
    with 1 show ?thesis by (subst show_nat.simps) (simp add: digits_val_snoc)
  qed
qed

lemma takeWhile_show_nat:
  "(s = [] \<or> \<not> isdigit (hd s)) \<Longrightarrow> takeWhile isdigit (show_nat n @ s) = show_nat n"
  using show_nat_digits [of n] by (cases s) (auto simp: takeWhile_append takeWhile_eq_all_conv)

lemma show_nat_hd: "\<exists>c cs. show_nat n = c # cs \<and> isdigit c"
  using show_nat_digits [of n] show_nat_nonempty [of n] by (cases "show_nat n") auto

lemma isdigit_not: "isdigit c \<Longrightarrow> \<not> isspace c \<and> c \<noteq> CHR ''-'' \<and> c \<noteq> CHR ''+'' \<and> c \<noteq> CHR ''.''"
  by (auto simp: isdigit_def isspace_def)

lemma show_nat_cases:
  obtains c cs where "show_nat n = c # cs" and "isdigit c" and "takeWhile isdigit cs = cs"
    and "digits_val 10 (c # cs) = n"
proof -
  obtain c cs where c: "show_nat n = c # cs" "isdigit c" using show_nat_hd by blast
  have "takeWhile isdigit cs = cs" using show_nat_digits [of n] c(1) by simp
  with that c digits_val_show_nat [of n] show ?thesis by simp
qed

lemma strtoull_show_nat: "n < 2 ^ 64 \<Longrightarrow> strtoull (show_nat n) = of_nat n"
proof -
  assume n: "n < 2 ^ 64"
  obtain c cs where c: "show_nat n = c # cs" "isdigit c" "takeWhile isdigit cs = cs" "digits_val 10 (c # cs) = n"
    by (rule show_nat_cases)
  show ?thesis using n isdigit_not [OF c(2)] by (simp add: strtoull_def Let_def c)
qed

lemma strtoull_show_key [simp]: "strtoull (show_nat (unat (k :: 64 word))) = k"
proof -
  have "unat k < 2 ^ 64" using unsigned_less [of k] by simp
  then show ?thesis by (simp add: strtoull_show_nat)
qed

lemma strtod_show_nat [simp]: "strtod (show_nat n) = real n"
proof -
  obtain c cs where c: "show_nat n = c # cs" "isdigit c" "takeWhile isdigit cs = cs" "digits_val 10 (c # cs) = n"
    by (rule show_nat_cases)
  show ?thesis using isdigit_not [OF c(2)]
    by (simp add: strtod_def unsigned_decimal_def Let_def frac_val_def digits_val_def [of 10 "[]"] c)
qed

lemma strtol_show_int:
  assumes "- (2 ^ 63) \<le> i" and "i < 2 ^ 63"
  shows "fst (strtol (show_int i) 10) = i"
proof (cases "i < 0")
  case True
  obtain c cs where c: "show_nat (nat (- i)) = c # cs" "isdigit c" "takeWhile isdigit cs = cs"
    "digits_val 10 (c # cs) = nat (- i)"
    by (rule show_nat_cases)
  have "\<not> isspace (CHR ''-'')" by (simp add: isspace_def)
  with True assms show ?thesis
    by (simp add: strtol_def show_int_def Let_def clamp_long_def is_base_digit_def [abs_def] c)
next
  case False
  obtain c cs where c: "show_nat (nat i) = c # cs" "isdigit c" "takeWhile isdigit cs = cs"
    "digits_val 10 (c # cs) = nat i"
    by (rule show_nat_cases)
  show ?thesis using False isdigit_not [OF c(2)] assms
    by (simp add: strtol_def show_int_def Let_def clamp_long_def is_base_digit_def [abs_def] c)
qed

end
