(* ===== verification/Kospam_Cfg.thy ===== *)
theory Kospam_Cfg
  imports Kospam_Config Kospam_Strings C_Numbers
begin

text \<open>
  \<open>src/cfg.c\<close>: reading, defaulting and printing the configuration.  A file is its contents, \<open>None\<close> when
  it cannot be opened.  In the table of rules a type name and a parser always go together; the pair
  is a constructor of \<open>field\<close>, with the functions that read and write the member at the rule's offset.
  Messages to the log and to standard output about bad input are left out, what \<open>print_config\<close> and its
  like print is their result.
\<close>

section \<open>Parsers and rules\<close>

definition string_parser :: "string \<Rightarrow> nat \<Rightarrow> string" where
  "string_parser src limit = snprintf_s limit src"

definition int_parser :: "string \<Rightarrow> int" where
  "int_parser src = to_int32 (fst (strtol src 10))"

definition float_parser :: "string \<Rightarrow> real" where
  "float_parser src = strtod src"

datatype field =
    Str_field "config \<Rightarrow> string" "string \<Rightarrow> config \<Rightarrow> config"
  | Int_field "config \<Rightarrow> int" "int \<Rightarrow> config \<Rightarrow> config"
  | Flt_field "config \<Rightarrow> real" "real \<Rightarrow> config \<Rightarrow> config"

record parse_rule =
  r_name :: string
  r_field :: field
  r_def_val :: string
  r_limit :: nat

definition config_parse_rules :: "string \<Rightarrow> parse_rule list" where
  "config_parse_rules datadir = [
   \<lparr>r_name = ''blackhole_email_list'', r_field = Str_field cfg_blackhole_email_list (\<lambda>x c. c\<lparr>cfg_blackhole_email_list := x\<rparr>), r_def_val = [], r_limit = 255\<rparr>,
   \<lparr>r_name = ''debug'', r_field = Int_field cfg_debug (\<lambda>x c. c\<lparr>cfg_debug := x\<rparr>), r_def_val = ''0'', r_limit = 4\<rparr>,
   \<lparr>r_name = ''enable_xforward'', r_field = Str_field cfg_enable_xforward (\<lambda>x c. c\<lparr>cfg_enable_xforward := x\<rparr>), r_def_val = ''false'', r_limit = 255\<rparr>,
   \<lparr>r_name = ''esf_h'', r_field = Flt_field cfg_esf_h (\<lambda>x c. c\<lparr>cfg_esf_h := x\<rparr>), r_def_val = ''1.0'', r_limit = 4\<rparr>,
   \<lparr>r_name = ''esf_s'', r_field = Flt_field cfg_esf_s (\<lambda>x c. c\<lparr>cfg_esf_s := x\<rparr>), r_def_val = ''1.0'', r_limit = 4\<rparr>,
   \<lparr>r_name = ''exclusion_radius'', r_field = Flt_field cfg_exclusion_radius (\<lambda>x c. c\<lparr>cfg_exclusion_radius := x\<rparr>), r_def_val = ''0.375'', r_limit = 4\<rparr>,
   \<lparr>r_name = ''history'', r_field = Int_field cfg_history (\<lambda>x c. c\<lparr>cfg_history := x\<rparr>), r_def_val = ''0'', r_limit = 4\<rparr>,
   \<lparr>r_name = ''hostname'', r_field = Str_field cfg_hostname (\<lambda>x c. c\<lparr>cfg_hostname := x\<rparr>), r_def_val = ''kospam.localhost'', r_limit = 255\<rparr>,
   \<lparr>r_name = ''kospam_header_field'', r_field = Str_field cfg_kospam_header_field (\<lambda>x c. c\<lparr>cfg_kospam_header_field := x\<rparr>), r_def_val = ''X-Kospam-spamicity: '', r_limit = 255\<rparr>,
   \<lparr>r_name = ''kospam_spam_header_field'', r_field = Str_field cfg_kospam_spam_header_field (\<lambda>x c. c\<lparr>cfg_kospam_spam_header_field := x\<rparr>), r_def_val = [], r_limit = 255\<rparr>,
   \<lparr>r_name = ''listen_addr'', r_field = Str_field cfg_listen_addr (\<lambda>x c. c\<lparr>cfg_listen_addr := x\<rparr>), r_def_val = ''127.0.0.1:10025'', r_limit = 255\<rparr>,
   \<lparr>r_name = ''log_subject'', r_field = Int_field cfg_log_subject (\<lambda>x c. c\<lparr>cfg_log_subject := x\<rparr>), r_def_val = ''0'', r_limit = 4\<rparr>,
   \<lparr>r_name = ''locale'', r_field = Str_field cfg_locale (\<lambda>x c. c\<lparr>cfg_locale := x\<rparr>), r_def_val = [], r_limit = 255\<rparr>,
   \<lparr>r_name = ''max_ham_spamicity'', r_field = Flt_field cfg_max_ham_spamicity (\<lambda>x c. c\<lparr>cfg_max_ham_spamicity := x\<rparr>), r_def_val = ''0.45'', r_limit = 4\<rparr>,
   \<lparr>r_name = ''max_line_len'', r_field = Int_field cfg_max_line_len (\<lambda>x c. c\<lparr>cfg_max_line_len := x\<rparr>), r_def_val = ''2000'', r_limit = 4\<rparr>,
   \<lparr>r_name = ''max_message_size_to_filter'', r_field = Int_field cfg_max_message_size_to_filter (\<lambda>x c. c\<lparr>cfg_max_message_size_to_filter := x\<rparr>), r_def_val = ''256000'', r_limit = 4\<rparr>,
   \<lparr>r_name = ''max_requests_per_child'', r_field = Int_field cfg_max_requests_per_child (\<lambda>x c. c\<lparr>cfg_max_requests_per_child := x\<rparr>), r_def_val = ''10000'', r_limit = 4\<rparr>,
   \<lparr>r_name = ''max_word_len'', r_field = Int_field cfg_max_word_len (\<lambda>x c. c\<lparr>cfg_max_word_len := x\<rparr>), r_def_val = ''25'', r_limit = 4\<rparr>,
   \<lparr>r_name = ''message_from_a_zombie'', r_field = Int_field cfg_message_from_a_zombie (\<lambda>x c. c\<lparr>cfg_message_from_a_zombie := x\<rparr>), r_def_val = ''0'', r_limit = 4\<rparr>,
   \<lparr>r_name = ''min_word_len'', r_field = Int_field cfg_min_word_len (\<lambda>x c. c\<lparr>cfg_min_word_len := x\<rparr>), r_def_val = ''1'', r_limit = 4\<rparr>,
   \<lparr>r_name = ''mynetwork'', r_field = Str_field cfg_mynetwork (\<lambda>x c. c\<lparr>cfg_mynetwork := x\<rparr>), r_def_val = [], r_limit = 255\<rparr>,
   \<lparr>r_name = ''mysqlhost'', r_field = Str_field cfg_mysqlhost (\<lambda>x c. c\<lparr>cfg_mysqlhost := x\<rparr>), r_def_val = [], r_limit = 255\<rparr>,
   \<lparr>r_name = ''mysqlport'', r_field = Int_field cfg_mysqlport (\<lambda>x c. c\<lparr>cfg_mysqlport := x\<rparr>), r_def_val = [], r_limit = 4\<rparr>,
   \<lparr>r_name = ''mysqlsocket'', r_field = Str_field cfg_mysqlsocket (\<lambda>x c. c\<lparr>cfg_mysqlsocket := x\<rparr>), r_def_val = ''/tmp/mysql.sock'', r_limit = 255\<rparr>,
   \<lparr>r_name = ''mysqluser'', r_field = Str_field cfg_mysqluser (\<lambda>x c. c\<lparr>cfg_mysqluser := x\<rparr>), r_def_val = ''piler'', r_limit = 255\<rparr>,
   \<lparr>r_name = ''mysqlpwd'', r_field = Str_field cfg_mysqlpwd (\<lambda>x c. c\<lparr>cfg_mysqlpwd := x\<rparr>), r_def_val = [], r_limit = 255\<rparr>,
   \<lparr>r_name = ''mysqldb'', r_field = Str_field cfg_mysqldb (\<lambda>x c. c\<lparr>cfg_mysqldb := x\<rparr>), r_def_val = ''piler'', r_limit = 255\<rparr>,
   \<lparr>r_name = ''mysql_connect_timeout'', r_field = Int_field cfg_mysql_connect_timeout (\<lambda>x c. c\<lparr>cfg_mysql_connect_timeout := x\<rparr>), r_def_val = ''2'', r_limit = 4\<rparr>,
   \<lparr>r_name = ''number_of_worker_processes'', r_field = Int_field cfg_number_of_worker_processes (\<lambda>x c. c\<lparr>cfg_number_of_worker_processes := x\<rparr>), r_def_val = ''3'', r_limit = 4\<rparr>,
   \<lparr>r_name = ''our_signo'', r_field = Str_field cfg_our_signo (\<lambda>x c. c\<lparr>cfg_our_signo := x\<rparr>), r_def_val = [], r_limit = 255\<rparr>,
   \<lparr>r_name = ''pemfile'', r_field = Str_field cfg_pemfile (\<lambda>x c. c\<lparr>cfg_pemfile := x\<rparr>), r_def_val = [], r_limit = 255\<rparr>,
   \<lparr>r_name = ''penalize_embed_images'', r_field = Int_field cfg_penalize_embed_images (\<lambda>x c. c\<lparr>cfg_penalize_embed_images := x\<rparr>), r_def_val = ''0'', r_limit = 4\<rparr>,
   \<lparr>r_name = ''penalize_images'', r_field = Int_field cfg_penalize_images (\<lambda>x c. c\<lparr>cfg_penalize_images := x\<rparr>), r_def_val = ''0'', r_limit = 4\<rparr>,
   \<lparr>r_name = ''penalize_octet_stream'', r_field = Int_field cfg_penalize_octet_stream (\<lambda>x c. c\<lparr>cfg_penalize_octet_stream := x\<rparr>), r_def_val = ''0'', r_limit = 4\<rparr>,
   \<lparr>r_name = ''pidfile'', r_field = Str_field cfg_pidfile (\<lambda>x c. c\<lparr>cfg_pidfile := x\<rparr>), r_def_val = ''/var/kospam/run/kospam.pid'', r_limit = 255\<rparr>,
   \<lparr>r_name = ''possible_spam_limit'', r_field = Flt_field cfg_possible_spam_limit (\<lambda>x c. c\<lparr>cfg_possible_spam_limit := x\<rparr>), r_def_val = ''0.8'', r_limit = 4\<rparr>,
   \<lparr>r_name = ''possible_spam_subject_prefix'', r_field = Str_field cfg_possible_spam_subject_prefix (\<lambda>x c. c\<lparr>cfg_possible_spam_subject_prefix := x\<rparr>), r_def_val = [], r_limit = 255\<rparr>,
   \<lparr>r_name = ''quarantinedir'', r_field = Str_field cfg_quarantinedir (\<lambda>x c. c\<lparr>cfg_quarantinedir := x\<rparr>), r_def_val = (datadir @ ''/kospam/quarantine''), r_limit = 255\<rparr>,
   \<lparr>r_name = ''received_lines_to_skip'', r_field = Int_field cfg_received_lines_to_skip (\<lambda>x c. c\<lparr>cfg_received_lines_to_skip := x\<rparr>), r_def_val = ''0'', r_limit = 4\<rparr>,
   \<lparr>r_name = ''rob_s'', r_field = Flt_field cfg_rob_s (\<lambda>x c. c\<lparr>cfg_rob_s := x\<rparr>), r_def_val = ''1.0'', r_limit = 4\<rparr>,
   \<lparr>r_name = ''rob_x'', r_field = Flt_field cfg_rob_x (\<lambda>x c. c\<lparr>cfg_rob_x := x\<rparr>), r_def_val = ''0.52'', r_limit = 4\<rparr>,
   \<lparr>r_name = ''skipped_received_ips'', r_field = Str_field cfg_skipped_received_ips (\<lambda>x c. c\<lparr>cfg_skipped_received_ips := x\<rparr>), r_def_val = [], r_limit = 255\<rparr>,
   \<lparr>r_name = ''smtp_addr'', r_field = Str_field cfg_smtp_addr (\<lambda>x c. c\<lparr>cfg_smtp_addr := x\<rparr>), r_def_val = ''127.0.0.1:10026'', r_limit = 255\<rparr>,
   \<lparr>r_name = ''spaminess_oblivion_limit'', r_field = Flt_field cfg_spaminess_oblivion_limit (\<lambda>x c. c\<lparr>cfg_spaminess_oblivion_limit := x\<rparr>), r_def_val = ''1.01'', r_limit = 4\<rparr>,
   \<lparr>r_name = ''spam_overall_limit'', r_field = Flt_field cfg_spam_overall_limit (\<lambda>x c. c\<lparr>cfg_spam_overall_limit := x\<rparr>), r_def_val = ''0.92'', r_limit = 4\<rparr>,
   \<lparr>r_name = ''spam_subject_prefix'', r_field = Str_field cfg_spam_subject_prefix (\<lambda>x c. c\<lparr>cfg_spam_subject_prefix := x\<rparr>), r_def_val = [], r_limit = 255\<rparr>,
   \<lparr>r_name = ''update_tokens'', r_field = Int_field cfg_update_tokens (\<lambda>x c. c\<lparr>cfg_update_tokens := x\<rparr>), r_def_val = ''1'', r_limit = 4\<rparr>,
   \<lparr>r_name = ''username'', r_field = Str_field cfg_username (\<lambda>x c. c\<lparr>cfg_username := x\<rparr>), r_def_val = ''kospam'', r_limit = 255\<rparr>,
   \<lparr>r_name = ''verbosity'', r_field = Int_field cfg_verbosity (\<lambda>x c. c\<lparr>cfg_verbosity := x\<rparr>), r_def_val = ''1'', r_limit = 4\<rparr>,
   \<lparr>r_name = ''workdir'', r_field = Str_field cfg_workdir (\<lambda>x c. c\<lparr>cfg_workdir := x\<rparr>), r_def_val = (datadir @ ''/kospam/tmp''), r_limit = 255\<rparr>
   ]"

definition run_parser :: "parse_rule \<Rightarrow> string \<Rightarrow> config \<Rightarrow> config" where
  "run_parser r src c =
     (case r_field r of
        Str_field g s \<Rightarrow> s (string_parser src (r_limit r)) c
      | Int_field g s \<Rightarrow> s (int_parser src) c
      | Flt_field g s \<Rightarrow> s (float_parser src) c)"

section \<open>Reading\<close>

text \<open>\<open>fgets\<close> into a buffer with room for \<open>n\<close> characters: up to the end of the line or \<open>n\<close> characters.\<close>

definition fgets :: "nat \<Rightarrow> string \<Rightarrow> string \<times> string" where
  "fgets n s =
     (case strchr (take n s) LF of
        Some i \<Rightarrow> (take (Suc i) s, drop (Suc i) s)
      | None \<Rightarrow> (take n s, drop n s))"

function fgets_lines :: "nat \<Rightarrow> string \<Rightarrow> string list" where
  "fgets_lines n s =
     (if s = [] \<or> n = 0 then [] else fst (fgets n s) # fgets_lines n (snd (fgets n s)))"
  by pat_completeness auto
termination
  by (relation "measure (\<lambda>(n, s). length s)") (auto simp: fgets_def split: option.splits)

declare fgets_lines.simps [simp del]

abbreviation line_room :: nat where
  "line_room \<equiv> 254"

definition parse_line :: "parse_rule list \<Rightarrow> config \<Rightarrow> string \<Rightarrow> config" where
  "parse_line rules c buf =
     (let line = cstr buf in
      if line \<noteq> [] \<and> (hd line = CHR '';'' \<or> hd line = CHR ''#'') then c
      else case strchr line (CHR ''='') of
          None \<Rightarrow> c
        | Some chpos \<Rightarrow>
            (let v = chop_string (drop (Suc chpos) line); key = take chpos line in
             case find (\<lambda>r. r_name r = key) rules of
               None \<Rightarrow> c
             | Some r \<Rightarrow> run_parser r v c))"

definition parse_config_file :: "string option \<Rightarrow> config \<Rightarrow> parse_rule list \<Rightarrow> int \<times> config" where
  "parse_config_file file c rules =
     (case file of
        None \<Rightarrow> (-1, c)
      | Some s \<Rightarrow> (0, foldl (parse_line rules) c (fgets_lines line_room s)))"

definition load_default_config :: "config \<Rightarrow> parse_rule list \<Rightarrow> config" where
  "load_default_config c rules = foldl (\<lambda>c r. run_parser r (r_def_val r) c) c rules"

definition zero_config :: config where
  "zero_config = \<lparr>
    cfg_blackhole_email_list = [],
    cfg_debug = 0,
    cfg_enable_xforward = [],
    cfg_esf_h = 0,
    cfg_esf_s = 0,
    cfg_exclusion_radius = 0,
    cfg_history = 0,
    cfg_hostname = [],
    cfg_kospam_header_field = [],
    cfg_kospam_spam_header_field = [],
    cfg_listen_addr = [],
    cfg_locale = [],
    cfg_log_subject = 0,
    cfg_max_ham_spamicity = 0,
    cfg_max_line_len = 0,
    cfg_max_message_size_to_filter = 0,
    cfg_max_requests_per_child = 0,
    cfg_max_word_len = 0,
    cfg_message_from_a_zombie = 0,
    cfg_min_word_len = 0,
    cfg_mynetwork = [],
    cfg_mysqlhost = [],
    cfg_mysqlport = 0,
    cfg_mysqlsocket = [],
    cfg_mysqluser = [],
    cfg_mysqlpwd = [],
    cfg_mysqldb = [],
    cfg_mysql_connect_timeout = 0,
    cfg_number_of_worker_processes = 0,
    cfg_our_signo = [],
    cfg_penalize_embed_images = 0,
    cfg_penalize_images = 0,
    cfg_penalize_octet_stream = 0,
    cfg_pemfile = [],
    cfg_pidfile = [],
    cfg_possible_spam_limit = 0,
    cfg_possible_spam_subject_prefix = [],
    cfg_quarantinedir = [],
    cfg_received_lines_to_skip = 0,
    cfg_rob_s = 0,
    cfg_rob_x = 0,
    cfg_skipped_received_ips = [],
    cfg_smtp_addr = [],
    cfg_spam_overall_limit = 0,
    cfg_spaminess_oblivion_limit = 0,
    cfg_spam_subject_prefix = [],
    cfg_update_tokens = 0,
    cfg_username = [],
    cfg_verbosity = 0,
    cfg_workdir = []\<rparr>"

definition read_config :: "string \<Rightarrow> string option \<Rightarrow> config" where
  "read_config datadir file =
     snd (parse_config_file file (load_default_config zero_config (config_parse_rules datadir))
       (config_parse_rules datadir))"

section \<open>Printing\<close>

text \<open>The text and the configuration: the value of a string is chopped in place.\<close>

definition print_config_item :: "config \<Rightarrow> parse_rule \<Rightarrow> string \<times> config" where
  "print_config_item c r =
     (case r_field r of
        Int_field g s \<Rightarrow> (r_name r @ ''='' @ show_int (g c) @ [LF], c)
      | Flt_field g s \<Rightarrow> (r_name r @ ''='' @ show_fixed4 (g c) @ [LF], c)
      | Str_field g s \<Rightarrow>
          (let v = chop_string (g c) in (r_name r @ ''='' @ v @ [LF], s v c)))"

definition print_config_all :: "parse_rule list \<Rightarrow> config \<Rightarrow> string option \<Rightarrow> string \<times> config" where
  "print_config_all rules c key =
     foldl (\<lambda>(out, c) r.
         if key = None \<or> key = Some (r_name r)
         then (let (t, c') = print_config_item c r in (out @ t, c')) else (out, c))
       ([], c) rules"

text \<open>One line of the file in \<open>print_config\<close>; the state is the output, the configuration and \<open>previtem\<close>.\<close>

definition print_line :: "parse_rule list \<Rightarrow> string \<times> config \<times> string \<Rightarrow> string \<Rightarrow> string \<times> config \<times> string" where
  "print_line rules st buf =
     (let (out, c, previtem) = st; line = cstr buf in
      if line \<noteq> [] \<and> (hd line = CHR '';'' \<or> hd line = CHR ''#'') then st
      else case strchr line (CHR ''='') of
          None \<Rightarrow> st
        | Some chpos \<Rightarrow>
            (let key = take chpos line in
             case find (\<lambda>r. r_name r = key) rules of
               None \<Rightarrow> (out @ ''unknown key: '' @ [DQUOTE] @ key @ [DQUOTE, SPACE, LF], c, previtem)
             | Some r \<Rightarrow>
                 (let (t, c') = (if key \<noteq> previtem then print_config_item c r else ([], c))
                  in (out @ t, c', snprintf_s 255 key))))"

definition print_config :: "parse_rule list \<Rightarrow> string option \<Rightarrow> config \<Rightarrow> string \<times> config" where
  "print_config rules file c =
     (case file of
        None \<Rightarrow> ([], c)
      | Some s \<Rightarrow> (let (out, c', previtem) = foldl (print_line rules) ([], c, []) (fgets_lines line_room s)
                  in (out, c')))"

section \<open>The defaults\<close>

lemma default_ints:
  "int_parser ''0'' = 0" "int_parser ''1'' = 1" "int_parser ''2'' = 2" "int_parser ''3'' = 3" "int_parser ''25'' = 25"
  "int_parser ''2000'' = 2000" "int_parser ''10000'' = 10000" "int_parser ''256000'' = 256000" "int_parser [] = 0"
  by (simp_all add: int_parser_def strtol_def Let_def isspace_def is_base_digit_def isdigit_def digits_val_def
      digit_val_def clamp_long_def to_int32_id)

lemma default_floats:
  "float_parser ''1.0'' = 1" "float_parser ''0.375'' = 375 / 1000" "float_parser ''0.45'' = 45 / 100"
  "float_parser ''0.8'' = 8 / 10" "float_parser ''0.52'' = 52 / 100" "float_parser ''1.01'' = 101 / 100"
  "float_parser ''0.92'' = 92 / 100"
  by (simp_all add: float_parser_def strtod_def unsigned_decimal_def Let_def isspace_def isdigit_def frac_val_def digits_val_def digit_val_def)

lemma load_default_config:
  "load_default_config zero_config (config_parse_rules datadir) = default_config datadir"
  by (simp add: load_default_config_def config_parse_rules_def run_parser_def default_ints default_floats
      zero_config_def default_config_def string_parser_def snprintf_s_def)

section \<open>Lines\<close>

lemma fgets_line:
  assumes "LF \<notin> set l" "length l < n"
  shows "fgets n (l @ LF # s) = (l @ [LF], s)"
proof -
  have "take n (l @ LF # s) = l @ LF # take (n - Suc (length l)) s"
    using assms(2) by (simp add: take_Cons' Suc_diff_Suc)
  moreover have "takeWhile (\<lambda>c. c \<noteq> LF) (l @ LF # t) = l" for t
    using assms(1) by (rule takeWhile_neq_append_stop)
  ultimately have "strchr (take n (l @ LF # s)) LF = Some (length l)"
    by (simp only: strchr_takeWhile) simp
  then show ?thesis by (simp add: fgets_def)
qed

lemma fgets_lines_Cons:
  "LF \<notin> set l \<Longrightarrow> length l < n \<Longrightarrow> fgets_lines n (l @ LF # s) = (l @ [LF]) # fgets_lines n s"
  by (subst fgets_lines.simps) (simp add: fgets_line)

lemma fgets_lines_Nil [simp]: "fgets_lines n [] = []"
  by (simp add: fgets_lines.simps)

text \<open>The text of an assignment and what it does.\<close>

lemma strchr_first: "ch \<notin> set k \<Longrightarrow> strchr (k @ ch # v) ch = Some (length k)"
  by (simp add: strchr_takeWhile takeWhile_neq_append_stop)

lemma parse_line_assignment:
  assumes "CHR ''='' \<notin> set k" "NUL \<notin> set k" "NUL \<notin> set v" "k = [] \<or> hd k \<notin> {CHR '';'', CHR ''#''}"
  shows "parse_line rules c (k @ ''='' @ v @ [LF]) =
    (case find (\<lambda>r. r_name r = k) rules of None \<Rightarrow> c | Some r \<Rightarrow> run_parser r (rstrip_newlines v) c)"
proof -
  have "cstr (k @ ''='' @ v @ [LF]) = k @ CHR ''='' # v @ [LF]"
    using assms(2,3) by (simp add: cstr_id)
  moreover have "chop_string (v @ [LF]) = rstrip_newlines v"
    using assms(3) by (simp add: chop_string_rstrip rstrip_snoc)
  moreover have "\<not> (hd (k @ CHR ''='' # v @ [LF]) = CHR '';'' \<or> hd (k @ CHR ''='' # v @ [LF]) = CHR ''#'')"
    using assms(4) by (cases k) auto
  ultimately show ?thesis
    by (simp add: parse_line_def strchr_first [OF assms(1)])
qed

section \<open>Numbers with four decimals\<close>

lemma digits_val_zeros: "digits_val 10 (replicate n (CHR ''0'') @ ds) = digits_val 10 ds"
proof (induction n)
  case (Suc n)
  then show ?case by (simp add: digits_val_def digit_val_def isdigit_def)
qed simp

lemma strtod_decimal:
  assumes "length f = 4" "\<forall>c\<in>set f. isdigit c"
  shows "strtod (show_nat n @ CHR ''.'' # f) = real n + real (digits_val 10 f) / 10000"
proof -
  obtain c cs where c: "show_nat n = c # cs" "isdigit c" "takeWhile isdigit cs = cs" "digits_val 10 (c # cs) = n"
    by (rule show_nat_cases)
  have cs: "\<forall>c\<in>set cs. isdigit c" using c(3) by (simp add: takeWhile_eq_all_conv)
  have f: "takeWhile isdigit f = f" using assms(2) by (simp add: takeWhile_eq_all_conv)
  have d: "\<not> isdigit (CHR ''.'')" by (simp add: isdigit_def)
  have t: "takeWhile isdigit (cs @ CHR ''.'' # f) = cs"
    using cs d by (simp add: takeWhile_append)
  show ?thesis
    using isdigit_not [OF c(2)] c(2,4) assms(1)
    by (simp add: strtod_def unsigned_decimal_def Let_def c(1) t f frac_val_def digits_val_def [of 10 "[]"])
qed

lemma strtod_neg:
  assumes "isdigit c"
  shows "strtod (CHR ''-'' # c # s) = - strtod (c # s)"
proof -
  have "\<not> isspace (CHR ''-'')" by (simp add: isspace_def)
  then show ?thesis using isdigit_not [OF assms] by (simp add: strtod_def)
qed

definition decimals :: "nat \<Rightarrow> string" where
  "decimals m = (let frac = show_nat (m mod 10000) in replicate (4 - length frac) (CHR ''0'') @ frac)"

lemma decimals:
  "length (decimals m) = 4" "\<forall>c\<in>set (decimals m). isdigit c" "digits_val 10 (decimals m) = m mod 10000"
proof -
  have l: "length (show_nat (m mod 10000)) \<le> 4" by (rule length_show_nat) simp_all
  then show "length (decimals m) = 4" by (simp add: decimals_def Let_def)
  show "\<forall>c\<in>set (decimals m). isdigit c"
    using show_nat_digits [of "m mod 10000"] by (auto simp: decimals_def Let_def isdigit_def)
  show "digits_val 10 (decimals m) = m mod 10000" by (simp add: decimals_def Let_def digits_val_zeros)
qed

lemma show_fixed4_decimals:
  assumes "x = real_of_int k / 10000"
  shows "show_fixed4 x = (if k < 0 then ''-'' else []) @ show_nat (nat \<bar>k\<bar> div 10000) @ CHR ''.'' # decimals (nat \<bar>k\<bar>)"
proof -
  have a: "\<bar>x\<bar> * 10000 = real_of_int \<bar>k\<bar>" using assms by simp
  have "\<lfloor>\<bar>x\<bar> * 10000 + 1 / 2\<rfloor> = \<bar>k\<bar>" unfolding a by (rule floor_unique) simp_all
  moreover have "x < 0 \<longleftrightarrow> k < 0" unfolding assms by (simp add: divide_less_0_iff)
  ultimately show ?thesis by (simp add: show_fixed4_def decimals_def Let_def)
qed

lemma strtod_show_fixed4:
  assumes "x = real_of_int k / 10000"
  shows "strtod (show_fixed4 x) = x"
proof -
  let ?m = "nat \<bar>k\<bar>" and ?s = "show_nat (nat \<bar>k\<bar> div 10000) @ CHR ''.'' # decimals (nat \<bar>k\<bar>)"
  have "strtod ?s = real (?m div 10000) + real (?m mod 10000) / 10000"
    using strtod_decimal [OF decimals(1,2), of "?m div 10000"] by (simp add: decimals(3))
  also have "\<dots> = real ?m / 10000"
    using arg_cong [OF div_mult_mod_eq [of ?m 10000], of real] by (simp only: of_nat_add of_nat_mult of_nat_numeral add_divide_distrib)
  finally have v: "strtod ?s = real_of_int \<bar>k\<bar> / 10000" by simp
  obtain c cs where c: "?s = c # cs" "isdigit c"
    using show_nat_hd [of "?m div 10000"] by auto
  have "strtod (c # cs) = real_of_int \<bar>k\<bar> / 10000" using v unfolding c(1) .
  then have w: "strtod (c # cs) = (if k < 0 then - x else x)"
    unfolding assms by (cases "k < 0") simp_all
  show ?thesis
    unfolding show_fixed4_decimals [OF assms] c(1)
    using w strtod_neg [OF c(2), of cs] by simp
qed

section \<open>Printing and reading the configuration\<close>

text \<open>The member of a rule, taken from one configuration and stored in another.\<close>

definition copy_field :: "parse_rule \<Rightarrow> config \<Rightarrow> config \<Rightarrow> config" where
  "copy_field r c c0 =
     (case r_field r of
        Str_field g s \<Rightarrow> s (g c) c0 | Int_field g s \<Rightarrow> s (g c) c0 | Flt_field g s \<Rightarrow> s (g c) c0)"

text \<open>
  Values the file format can hold: strings without line ends and NULs that fit on a line with their
  name, \<open>int\<close>s, numbers with at most four decimals.
\<close>

definition printable :: "config \<Rightarrow> parse_rule \<Rightarrow> bool" where
  "printable c r \<longleftrightarrow>
     (case r_field r of
        Str_field g s \<Rightarrow> NUL \<notin> set (g c) \<and> CR \<notin> set (g c) \<and> LF \<notin> set (g c) \<and>
          length (r_name r) + length (g c) < 253
      | Int_field g s \<Rightarrow> - (2 ^ 31) \<le> g c \<and> g c < 2 ^ 31
      | Flt_field g s \<Rightarrow> (\<exists>k. g c = real_of_int k / 10000 \<and> \<bar>k\<bar> < 10 ^ 12))"

definition good_rule :: "parse_rule \<Rightarrow> bool" where
  "good_rule r \<longleftrightarrow> CHR ''='' \<notin> set (r_name r) \<and> NUL \<notin> set (r_name r) \<and> LF \<notin> set (r_name r) \<and>
     r_name r \<noteq> [] \<and> hd (r_name r) \<notin> {CHR '';'', CHR ''#''} \<and> length (r_name r) < 50 \<and>
     (case r_field r of Str_field g s \<Rightarrow> r_limit r = 255 \<and> (\<forall>c. s (g c) c = c) | _ \<Rightarrow> True)"

lemma rules_good: "\<forall>r\<in>set (config_parse_rules datadir). good_rule r"
  by (simp add: config_parse_rules_def good_rule_def)

lemma rules_distinct: "distinct (map r_name (config_parse_rules datadir))"
  by (simp add: config_parse_rules_def)

lemma copy_all_fields:
  "foldl (\<lambda>c0 r. copy_field r c c0) c0 (config_parse_rules datadir) = c"
  by (rule config.equality) (simp_all add: config_parse_rules_def copy_field_def)

lemma find_rule:
  "r \<in> set rules \<Longrightarrow> distinct (map r_name rules) \<Longrightarrow> find (\<lambda>x. r_name x = r_name r) rules = Some r"
  by (induction rules) (auto simp: image_iff)

text \<open>The printed value.\<close>

definition print_value :: "config \<Rightarrow> parse_rule \<Rightarrow> string" where
  "print_value c r =
     (case r_field r of
        Str_field g s \<Rightarrow> g c | Int_field g s \<Rightarrow> show_int (g c) | Flt_field g s \<Rightarrow> show_fixed4 (g c))"

lemma rstrip_id: "CR \<notin> set v \<Longrightarrow> LF \<notin> set v \<Longrightarrow> rstrip_newlines v = v"
  by (cases v rule: rev_cases) (auto simp: rstrip_snoc rstrip_newlines_def)

lemma isdigit_not_special: "isdigit c \<Longrightarrow> c \<noteq> NUL \<and> c \<noteq> CR \<and> c \<noteq> LF"
  by (auto simp: isdigit_def)

lemma show_int_chars: "c \<in> set (show_int i) \<Longrightarrow> c \<noteq> NUL \<and> c \<noteq> CR \<and> c \<noteq> LF"
  using show_nat_digits isdigit_not_special by (auto simp: show_int_def split: if_splits)

lemma length_show_int: "- (2 ^ 31) \<le> i \<Longrightarrow> i < 2 ^ 31 \<Longrightarrow> length (show_int i) \<le> 11"
proof -
  assume "- (2 ^ 31) \<le> i" "i < 2 ^ 31"
  then have "nat \<bar>i\<bar> < 10 ^ 10" by (simp add: nat_less_iff abs_if)
  then have "length (show_nat (nat \<bar>i\<bar>)) \<le> 10" by (rule length_show_nat) simp
  then show ?thesis by (simp add: show_int_def abs_if split: if_splits)
qed

lemma show_fixed4_chars:
  assumes "x = real_of_int k / 10000" "\<bar>k\<bar> < 10 ^ 12"
  shows "c \<in> set (show_fixed4 x) \<Longrightarrow> c \<noteq> NUL \<and> c \<noteq> CR \<and> c \<noteq> LF" "length (show_fixed4 x) \<le> 18"
proof -
  show "c \<in> set (show_fixed4 x) \<Longrightarrow> c \<noteq> NUL \<and> c \<noteq> CR \<and> c \<noteq> LF"
    using show_nat_digits [of "nat \<bar>k\<bar> div 10000"] decimals(2) [of "nat \<bar>k\<bar>"] isdigit_not_special
    unfolding show_fixed4_decimals [OF assms(1)] by (auto split: if_splits)
  have "length (show_nat (nat \<bar>k\<bar> div 10000)) \<le> 12"
    using assms(2) by (intro length_show_nat) auto
  then show "length (show_fixed4 x) \<le> 18"
    unfolding show_fixed4_decimals [OF assms(1)] using decimals(1) [of "nat \<bar>k\<bar>"]
    by (simp add: abs_if split: if_splits)
qed

lemma print_value:
  assumes "printable c r" "good_rule r"
  shows "NUL \<notin> set (print_value c r)" "CR \<notin> set (print_value c r)" "LF \<notin> set (print_value c r)"
    "length (r_name r) + length (print_value c r) < 253"
    "run_parser r (print_value c r) c0 = copy_field r c c0"
    "print_config_item c r = (r_name r @ ''='' @ print_value c r @ [LF], c)"
proof -
  have all: "NUL \<notin> set (print_value c r) \<and> CR \<notin> set (print_value c r) \<and> LF \<notin> set (print_value c r) \<and>
    length (r_name r) + length (print_value c r) < 253 \<and>
    run_parser r (print_value c r) c0 = copy_field r c c0 \<and>
    print_config_item c r = (r_name r @ ''='' @ print_value c r @ [LF], c)"
  proof (cases "r_field r")
    case (Str_field g s)
    then show ?thesis using assms
      by (simp add: printable_def good_rule_def print_value_def run_parser_def copy_field_def
          string_parser_def snprintf_s_fits print_config_item_def chop_string_rstrip rstrip_id)
  next
    case (Int_field g s)
    then have r: "- (2 ^ 31) \<le> g c" "g c < 2 ^ 31" using assms by (simp_all add: printable_def)
    then have "int_parser (show_int (g c)) = g c"
      using strtol_show_int [of "g c"] by (simp add: int_parser_def to_int32_id)
    then show ?thesis using Int_field assms(2) show_int_chars [of _ "g c"] length_show_int [OF r]
      by (auto simp: good_rule_def print_value_def run_parser_def copy_field_def print_config_item_def)
  next
    case (Flt_field g s)
    then obtain k where k: "g c = real_of_int k / 10000" "\<bar>k\<bar> < 10 ^ 12"
      using assms by (auto simp: printable_def)
    have "float_parser (show_fixed4 (g c)) = g c"
      using strtod_show_fixed4 [OF k(1)] by (simp add: float_parser_def)
    then show ?thesis using Flt_field assms(2) show_fixed4_chars(1) [OF k] show_fixed4_chars(2) [OF k]
      by (auto simp: good_rule_def print_value_def run_parser_def copy_field_def print_config_item_def)
  qed
  then show "NUL \<notin> set (print_value c r)" "CR \<notin> set (print_value c r)" "LF \<notin> set (print_value c r)"
    "length (r_name r) + length (print_value c r) < 253"
    "run_parser r (print_value c r) c0 = copy_field r c c0"
    "print_config_item c r = (r_name r @ ''='' @ print_value c r @ [LF], c)"
    by blast+
qed

lemma print_config_all_text:
  assumes "\<forall>r\<in>set rules. printable c r \<and> good_rule r"
  shows "print_config_all rules c None =
    (concat (map (\<lambda>r. r_name r @ ''='' @ print_value c r @ [LF]) rules), c)"
proof -
  have "foldl (\<lambda>(out, c) r. if None = None \<or> None = Some (r_name r)
         then (let (t, c') = print_config_item c r in (out @ t, c')) else (out, c)) (out, c) rules =
      (out @ concat (map (\<lambda>r. r_name r @ ''='' @ print_value c r @ [LF]) rules), c)" for out
    using assms by (induction rules arbitrary: out) (auto simp: print_value(6))
  from this [of "[]"] show ?thesis by (simp add: print_config_all_def)
qed

lemma parse_printed:
  assumes "set rules \<subseteq> set all" "distinct (map r_name all)" "\<forall>r\<in>set rules. printable c r \<and> good_rule r"
  shows "foldl (parse_line all) c0
      (fgets_lines line_room (concat (map (\<lambda>r. r_name r @ ''='' @ print_value c r @ [LF]) rules))) =
    foldl (\<lambda>c0 r. copy_field r c c0) c0 rules"
  using assms(1,3)
proof (induction rules arbitrary: c0)
  case (Cons r rules)
  have g: "printable c r" "good_rule r" and r: "r \<in> set all" using Cons.prems by auto
  note v = print_value [OF g]
  let ?l = "r_name r @ ''='' @ print_value c r"
  have "fgets_lines line_room (?l @ LF # s) = (?l @ [LF]) # fgets_lines line_room s" for s
    using v g(2) by (intro fgets_lines_Cons) (auto simp: good_rule_def)
  moreover have "parse_line all c0 (?l @ [LF]) = copy_field r c c0"
    using parse_line_assignment [of "r_name r" "print_value c r" all c0] g(2) v find_rule [OF r assms(2)]
    by (auto simp: good_rule_def rstrip_id)
  ultimately show ?case using Cons by simp
qed simp

text \<open>
  C18: Printing a configuration and reading the text back gives the configuration again, whatever was
  in force before: every member is printed, found again under its name, and parsed to its value.
\<close>

theorem config_round_trip:
  assumes "\<forall>r\<in>set (config_parse_rules datadir). printable c r"
  shows "parse_config_file (Some (fst (print_config_all (config_parse_rules datadir) c None))) c0
      (config_parse_rules datadir) = (0, c)"
proof -
  let ?rules = "config_parse_rules datadir"
  have g: "\<forall>r\<in>set ?rules. printable c r \<and> good_rule r" using assms rules_good by blast
  show ?thesis
    using parse_printed [OF subset_refl rules_distinct g] copy_all_fields
    by (simp add: parse_config_file_def print_config_all_text [OF g])
qed

definition four_decimals :: "real \<Rightarrow> bool" where
  "four_decimals x \<longleftrightarrow> (\<exists>k. x = real_of_int k / 10000 \<and> \<bar>k\<bar> < 10 ^ 12)"

lemma four_decimalsI: "x * 10000 = real_of_int k \<Longrightarrow> \<bar>k\<bar> < 10 ^ 12 \<Longrightarrow> four_decimals x"
  by (auto simp: four_decimals_def intro!: exI [of _ k])

lemma default_decimals:
  "four_decimals 1" "four_decimals (3 / 8)" "four_decimals (9 / 20)" "four_decimals (4 / 5)"
  "four_decimals (13 / 25)" "four_decimals (101 / 100)" "four_decimals (23 / 25)"
  by (rule four_decimalsI [of _ 10000] four_decimalsI [of _ 3750] four_decimalsI [of _ 4500]
      four_decimalsI [of _ 8000] four_decimalsI [of _ 5200] four_decimalsI [of _ 10100] four_decimalsI [of _ 9200]; simp; fail)+

lemma default_config_printable: "\<forall>r\<in>set (config_parse_rules ''/var''). printable (default_config ''/var'') r"
  unfolding printable_def four_decimals_def [symmetric]
  by (simp add: config_parse_rules_def default_config_def default_decimals)

lemma config_round_trip_witness:
  "parse_config_file (Some (fst (print_config_all (config_parse_rules ''/var'') (default_config ''/var'') None))) zero_config
      (config_parse_rules ''/var'') = (0, default_config ''/var'')"
  by (rule config_round_trip) (rule default_config_printable)

end
