(* ===== verification/Process_Pool.thy ===== *)
theory Process_Pool
  imports Kospam_Cfg "HOL-Library.Multiset"
begin

text \<open>
  \<open>src/child.c\<close> and the loop of a worker in \<open>src/kospam.c\<close>: the parent process keeps a table of worker
  processes, restarts those that end, and stops them when it is stopped itself.  The state holds the
  table and what the operating system knows: the live children, with the number of the directory each
  works on, those that have ended and have not been waited for, and the signals sent.  \<open>fork\<close> is a
  parameter that gives the process id for the new child or -1.
\<close>

section \<open>The table of children\<close>

abbreviation MAXCHILDREN :: nat where
  "MAXCHILDREN \<equiv> 64"

datatype child_status = UNDEF | READY | BUSY

record child =
  ch_pid :: int
  ch_messages :: int
  ch_status :: child_status
  ch_serial :: int

datatype signal = SIGHUP | SIGTERM | SIGKILL | SIGCHLD

record pool =
  pl_children :: "child list"
  pl_quit :: bool
  pl_running :: "(int \<times> int) list"
  pl_dead :: "int list"
  pl_signals :: "(int \<times> signal) list"
  pl_exited :: bool

definition set_slot :: "nat \<Rightarrow> (child \<Rightarrow> child) \<Rightarrow> pool \<Rightarrow> pool" where
  "set_slot i f s = s\<lparr>pl_children := (pl_children s)[i := f (pl_children s ! i)]\<rparr>"

text \<open>The parent's side of \<open>child_make\<close>; the new process runs \<open>child_main\<close> with the serial of its slot.\<close>

definition child_make :: "(pool \<Rightarrow> int) \<Rightarrow> nat \<Rightarrow> pool \<Rightarrow> int \<times> pool" where
  "child_make fork i s =
     (let pid = fork s
      in if pid > 0 then (pid, s\<lparr>pl_running := (pid, ch_serial (pl_children s ! i)) # pl_running s\<rparr>) else (-1, s))"

definition kill_children :: "signal \<Rightarrow> pool \<Rightarrow> pool" where
  "kill_children sig s =
     s\<lparr>pl_signals := pl_signals s @
         map (\<lambda>c. (ch_pid c, sig)) (filter (\<lambda>c. ch_status c \<noteq> UNDEF \<and> ch_pid c > 1) (pl_children s))\<rparr>"

definition p_clean_exit :: "pool \<Rightarrow> pool" where
  "p_clean_exit s = (kill_children SIGTERM s)\<lparr>pl_exited := True\<rparr>"

definition free_slot :: child where
  "free_slot = \<lparr>ch_pid = 0, ch_messages = 0, ch_status = UNDEF, ch_serial = -1\<rparr>"

definition start_child :: "(pool \<Rightarrow> int) \<Rightarrow> nat \<Rightarrow> pool \<Rightarrow> int \<times> pool" where
  "start_child fork i s =
     (let s1 = set_slot i (\<lambda>c. c\<lparr>ch_status := READY, ch_serial := int i\<rparr>) s;
          (pid, s2) = child_make fork i s1
      in (pid, set_slot i (\<lambda>c. c\<lparr>ch_pid := pid\<rparr>) s2))"

fun create_children :: "(pool \<Rightarrow> int) \<Rightarrow> nat list \<Rightarrow> pool \<Rightarrow> pool" where
  "create_children fork [] s = s"
| "create_children fork (i # is) s =
     (let (pid, s1) = start_child fork i s
      in if pid = -1 then p_clean_exit s1 else create_children fork is s1)"

definition child_pool_create :: "(pool \<Rightarrow> int) \<Rightarrow> nat \<Rightarrow> pool \<Rightarrow> pool" where
  "child_pool_create fork n s = create_children fork [0..<n] (s\<lparr>pl_children := replicate MAXCHILDREN free_slot\<rparr>)"

definition search_slot_by_pid :: "child list \<Rightarrow> int \<Rightarrow> nat option" where
  "search_slot_by_pid cs pid = List.find (\<lambda>i. ch_pid (cs ! i) = pid) [0..<length cs]"

text \<open>One round of the loop over \<open>waitpid\<close>, for the child \<open>pid\<close>.\<close>

definition reap_child :: "(pool \<Rightarrow> int) \<Rightarrow> int \<Rightarrow> pool \<Rightarrow> pool" where
  "reap_child fork pid s =
     (if pl_quit s then s
      else (case search_slot_by_pid (pl_children s) pid of
              None \<Rightarrow> s
            | Some i \<Rightarrow> snd (start_child fork i s)))"

lemma pl_dead_child_make [simp]: "child_make fork i s = (pid, s') \<Longrightarrow> pl_dead s' = pl_dead s"
  by (auto simp: child_make_def Let_def split: if_splits)

lemma pl_dead_start_child [simp]: "start_child fork i s = (pid, s') \<Longrightarrow> pl_dead s' = pl_dead s"
  by (auto simp: start_child_def set_slot_def Let_def dest!: pl_dead_child_make split: prod.splits)

lemma pl_dead_reap_child [simp]: "pl_dead (reap_child fork pid s) = pl_dead s"
  by (cases "search_slot_by_pid (pl_children s) pid"; cases "start_child fork (the (search_slot_by_pid (pl_children s) pid)) s")
    (auto simp: reap_child_def)

function reap_children :: "(pool \<Rightarrow> int) \<Rightarrow> pool \<Rightarrow> pool" where
  "reap_children fork s =
     (case pl_dead s of
        [] \<Rightarrow> s
      | pid # ds \<Rightarrow> reap_children fork (reap_child fork pid (s\<lparr>pl_dead := ds\<rparr>)))"
  by pat_completeness auto
termination
  by (relation "measure (\<lambda>(fork, s). length (pl_dead s))") auto

declare reap_children.simps [simp del]

text \<open>The signal handler; \<open>conf_ok\<close> tells whether \<open>initialise_configuration\<close> succeeds.\<close>

definition takesig :: "(pool \<Rightarrow> int) \<Rightarrow> bool \<Rightarrow> signal \<Rightarrow> pool \<Rightarrow> pool" where
  "takesig fork conf_ok sig s =
     (case sig of
        SIGHUP \<Rightarrow> (if conf_ok then kill_children SIGHUP s else p_clean_exit s)
      | SIGTERM \<Rightarrow> p_clean_exit (s\<lparr>pl_quit := True\<rparr>)
      | SIGKILL \<Rightarrow> p_clean_exit (s\<lparr>pl_quit := True\<rparr>)
      | SIGCHLD \<Rightarrow> reap_children fork s)"

section \<open>Runs of the pool\<close>

text \<open>What the system promises of \<open>fork\<close>: the id of a new process belongs to no child that lives or has not been waited for.\<close>

definition fork_ok :: "(pool \<Rightarrow> int) \<Rightarrow> bool" where
  "fork_ok fork \<longleftrightarrow>
     (\<forall>s. fork s = -1 \<or> fork s > 1 \<and> fork s \<notin> fst ` set (pl_running s) \<and> fork s \<notin> set (pl_dead s))"

text \<open>
  A step of the whole: a child ends, or one of the signals is handled that \<open>main\<close> installs the handler for
  (\<open>SIGKILL\<close> is a case of the handler but cannot be caught).  \<open>waitpid\<close> finds ended children in any
  order; one that ends while the handler runs is as one that ends behind it.  Handlers run one after another:
  that another signal may interrupt one, which the empty mask allows, is not modelled.
\<close>

inductive pool_step :: "pool \<Rightarrow> pool \<Rightarrow> bool" where
  child_ends: "\<lbrakk>\<not> pl_exited s; mset (pl_running s) = add_mset (pid, k) (mset r); mset d = add_mset pid (mset (pl_dead s))\<rbrakk>
    \<Longrightarrow> pool_step s (s\<lparr>pl_running := r, pl_dead := d\<rparr>)"
| signal: "\<lbrakk>\<not> pl_exited s; fork_ok fork; sig \<in> {SIGHUP, SIGTERM, SIGCHLD}\<rbrakk> \<Longrightarrow> pool_step s (takesig fork conf_ok sig s)"

inductive_cases pool_stepE: "pool_step s s'"

definition fresh_pool :: pool where
  "fresh_pool = \<lparr>pl_children = replicate MAXCHILDREN free_slot, pl_quit = False, pl_running = [], pl_dead = [],
     pl_signals = [], pl_exited = False\<rparr>"

definition pool_start :: "nat \<Rightarrow> pool \<Rightarrow> bool" where
  "pool_start n s \<longleftrightarrow> n \<le> MAXCHILDREN \<and> (\<exists>fork. fork_ok fork \<and> s = child_pool_create fork n fresh_pool)"

section \<open>The invariant\<close>

text \<open>
  Slot \<open>i < n\<close> is ready with its own number as serial; its child lives and works on that directory, or has
  ended and was not waited for, or could not be made; there are no other children.
\<close>

definition slot_ok :: "pool \<Rightarrow> nat \<Rightarrow> bool" where
  "slot_ok s i \<longleftrightarrow> (let c = pl_children s ! i in
     ch_status c = READY \<and> ch_serial c = int i \<and>
     (ch_pid c = -1 \<or> ch_pid c > 1 \<and> ((ch_pid c, int i) \<in> set (pl_running s) \<or> ch_pid c \<in> set (pl_dead s))))"

definition pool_inv :: "nat \<Rightarrow> pool \<Rightarrow> bool" where
  "pool_inv n s \<longleftrightarrow> length (pl_children s) = MAXCHILDREN \<and> n \<le> MAXCHILDREN \<and> \<not> pl_quit s \<and>
     (\<forall>i<MAXCHILDREN. if i < n then slot_ok s i else pl_children s ! i = free_slot) \<and>
     (\<forall>i<n. \<forall>j<n. ch_pid (pl_children s ! i) = ch_pid (pl_children s ! j) \<longrightarrow> ch_pid (pl_children s ! i) > 1 \<longrightarrow> i = j) \<and>
     distinct (map fst (pl_running s) @ pl_dead s) \<and>
     (\<forall>(pid, k)\<in>set (pl_running s). \<exists>i<n. pid = ch_pid (pl_children s ! i) \<and> pid > 1 \<and> k = int i) \<and>
     (\<forall>pid\<in>set (pl_dead s). \<exists>i<n. pid = ch_pid (pl_children s ! i) \<and> pid > 1)"

lemma pool_inv_fresh: "pool_inv 0 fresh_pool"
  by (simp add: pool_inv_def fresh_pool_def)

text \<open>Starting a child in a slot whose child, if it had one, is gone from the system.\<close>

definition slot_gone :: "nat \<Rightarrow> pool \<Rightarrow> nat \<Rightarrow> bool" where
  "slot_gone n s i \<longleftrightarrow> length (pl_children s) = MAXCHILDREN \<and> n \<le> MAXCHILDREN \<and> i < n \<and> \<not> pl_quit s \<and>
     (\<forall>j<MAXCHILDREN. j \<noteq> i \<longrightarrow> (if j < n then slot_ok s j else pl_children s ! j = free_slot)) \<and>
     (\<forall>j<n. \<forall>l<n. j \<noteq> i \<longrightarrow> l \<noteq> i \<longrightarrow> ch_pid (pl_children s ! j) = ch_pid (pl_children s ! l) \<longrightarrow> ch_pid (pl_children s ! j) > 1 \<longrightarrow> j = l) \<and>
     distinct (map fst (pl_running s) @ pl_dead s) \<and>
     (\<forall>(pid, k)\<in>set (pl_running s). \<exists>j<n. j \<noteq> i \<and> pid = ch_pid (pl_children s ! j) \<and> pid > 1 \<and> k = int j) \<and>
     (\<forall>pid\<in>set (pl_dead s). \<exists>j<n. j \<noteq> i \<and> pid = ch_pid (pl_children s ! j) \<and> pid > 1)"

lemma start_child_cases:
  assumes "fork_ok fork" "i < length (pl_children s)"
  obtains (failed) "start_child fork i s = (-1, s\<lparr>pl_children := (pl_children s)[i := (pl_children s ! i)\<lparr>ch_status := READY, ch_serial := int i, ch_pid := -1\<rparr>]\<rparr>)"
  | (made) pid where "pid > 1" "pid \<notin> fst ` set (pl_running s)" "pid \<notin> set (pl_dead s)"
    "start_child fork i s = (pid, s\<lparr>pl_children := (pl_children s)[i := (pl_children s ! i)\<lparr>ch_status := READY, ch_serial := int i, ch_pid := pid\<rparr>],
       pl_running := (pid, int i) # pl_running s\<rparr>)"
proof -
  let ?s1 = "s\<lparr>pl_children := (pl_children s)[i := (pl_children s ! i)\<lparr>ch_status := READY, ch_serial := int i\<rparr>]\<rparr>"
  obtain pid where pid: "fork ?s1 = pid" by blast
  have "fork ?s1 = -1 \<or> fork ?s1 > 1 \<and> fork ?s1 \<notin> fst ` set (pl_running ?s1) \<and> fork ?s1 \<notin> set (pl_dead ?s1)"
    using assms(1) unfolding fork_ok_def by blast
  then have f: "pid = -1 \<or> pid > 1 \<and> pid \<notin> fst ` set (pl_running s) \<and> pid \<notin> set (pl_dead s)" unfolding pid by simp
  have m: "child_make fork i ?s1 = (if pid > 0 then (pid, ?s1\<lparr>pl_running := (pid, int i) # pl_running s\<rparr>) else (-1, ?s1))"
    using assms(2) unfolding child_make_def pid Let_def by simp
  have sc: "start_child fork i s = (case child_make fork i ?s1 of (pid, s2) \<Rightarrow> (pid, set_slot i (\<lambda>c. c\<lparr>ch_pid := pid\<rparr>) s2))"
    by (simp add: start_child_def set_slot_def)
  show ?thesis
  proof (cases "pid = -1")
    case True
    then show ?thesis using assms(2) by (intro failed) (simp add: sc m set_slot_def)
  next
    case False
    then show ?thesis using f assms(2) by (intro made [of pid]) (simp_all add: sc m set_slot_def)
  qed
qed

lemma start_child_inv:
  assumes "fork_ok fork" "slot_gone n s i"
  shows "pool_inv n (snd (start_child fork i s))"
proof -
  note g = assms(2) [unfolded slot_gone_def]
  have i: "i < length (pl_children s)" "i < n" "n \<le> MAXCHILDREN" "length (pl_children s) = MAXCHILDREN" using g by auto
  obtain pid r where sc: "snd (start_child fork i s) =
      s\<lparr>pl_children := (pl_children s)[i := (pl_children s ! i)\<lparr>ch_status := READY, ch_serial := int i, ch_pid := pid\<rparr>], pl_running := r\<rparr>"
    "pid = -1 \<and> r = pl_running s \<or>
     pid > 1 \<and> pid \<notin> fst ` set (pl_running s) \<and> pid \<notin> set (pl_dead s) \<and> r = (pid, int i) # pl_running s"
    by (rule start_child_cases [OF assms(1) i(1)]) force+
  let ?s = "s\<lparr>pl_children := (pl_children s)[i := (pl_children s ! i)\<lparr>ch_status := READY, ch_serial := int i, ch_pid := pid\<rparr>], pl_running := r\<rparr>"
  let ?cs = "(pl_children s)[i := (pl_children s ! i)\<lparr>ch_status := READY, ch_serial := int i, ch_pid := pid\<rparr>]"
  have c: "?cs ! j = (if j = i then (pl_children s ! i)\<lparr>ch_status := READY, ch_serial := int i, ch_pid := pid\<rparr> else pl_children s ! j)" for j
    using i(1) by (cases "j < length (pl_children s)") (auto simp: nth_list_update)
  have live: "pid > 1 \<Longrightarrow> ch_pid (pl_children s ! j) \<noteq> pid" if j: "j < n" "j \<noteq> i" for j
  proof
    assume "pid > 1" "ch_pid (pl_children s ! j) = pid"
    moreover have "slot_ok s j" using g j i(3) by auto
    ultimately show False using sc(2) by (force simp: slot_ok_def Let_def)
  qed
  have "slot_ok ?s j" if "j < n" for j
  proof (cases "j = i")
    case True
    then show ?thesis using sc(2) by (auto simp: slot_ok_def c Let_def)
  next
    case False
    then have "slot_ok s j" using g that i(3) by auto
    moreover have "set (pl_running s) \<subseteq> set r" using sc(2) by auto
    ultimately show ?thesis using False by (auto simp: slot_ok_def c Let_def)
  qed
  then have 1: "\<forall>j<MAXCHILDREN. if j < n then slot_ok ?s j else ?cs ! j = free_slot"
    using g i(2) by (auto simp: c)
  have 2: "\<forall>j<n. \<forall>l<n. ch_pid (?cs ! j) = ch_pid (?cs ! l) \<longrightarrow> ch_pid (?cs ! j) > 1 \<longrightarrow> j = l"
  proof (intro allI impI)
    fix j l assume jl: "j < n" "l < n" "ch_pid (?cs ! j) = ch_pid (?cs ! l)" "ch_pid (?cs ! j) > 1"
    show "j = l"
    proof (cases "j = i \<or> l = i")
      case True
      then show ?thesis using jl live [of j] live [of l] unfolding c by (auto split: if_splits)
    next
      case False
      then show ?thesis using jl g unfolding c by auto
    qed
  qed
  have "distinct (map fst (pl_running s) @ pl_dead s)" using g by blast
  then have 3: "distinct (map fst r @ pl_dead s)" using sc(2) by (elim disjE conjE) simp_all
  have 4: "\<forall>(p, k)\<in>set r. \<exists>j<n. p = ch_pid (?cs ! j) \<and> p > 1 \<and> k = int j"
  proof (clarify)
    fix p k assume "(p, k) \<in> set r"
    then consider "(p, k) \<in> set (pl_running s)" | "p = pid" "k = int i" "pid > 1" using sc(2) by auto
    then show "\<exists>j<n. p = ch_pid (?cs ! j) \<and> p > 1 \<and> k = int j"
    proof cases
      case 1
      then obtain j where "j < n" "j \<noteq> i" "p = ch_pid (pl_children s ! j)" "p > 1" "k = int j" using g by blast
      then show ?thesis unfolding c by auto
    next
      case 2
      then show ?thesis using i(2) unfolding c by auto
    qed
  qed
  have 5: "\<forall>p\<in>set (pl_dead s). \<exists>j<n. p = ch_pid (?cs ! j) \<and> p > 1"
  proof
    fix p assume "p \<in> set (pl_dead s)"
    then obtain j where j: "j < n" "j \<noteq> i" "p = ch_pid (pl_children s ! j)" "p > 1" using g by blast
    then have "p = ch_pid (?cs ! j)" unfolding c by simp
    then show "\<exists>j<n. p = ch_pid (?cs ! j) \<and> p > 1" using j by blast
  qed
  have sel: "pl_children ?s = ?cs" "pl_running ?s = r" "pl_dead ?s = pl_dead s" "pl_quit ?s = pl_quit s" by simp_all
  have 6: "length ?cs = MAXCHILDREN" using i(4) by simp
  have 7: "\<not> pl_quit s" using g by blast
  show ?thesis
    unfolding sc(1) pool_inv_def sel by (intro conjI 1 2 3 4 5 6 7 i(3))
qed


lemma pool_inv_slot_gone_new:
  assumes "pool_inv n s" "n < MAXCHILDREN"
  shows "slot_gone (Suc n) s n"
  unfolding slot_gone_def
proof (intro conjI)
  note g = assms(1) [unfolded pool_inv_def]
  show "length (pl_children s) = MAXCHILDREN" "Suc n \<le> MAXCHILDREN" "n < Suc n" "\<not> pl_quit s"
    "distinct (map fst (pl_running s) @ pl_dead s)" using g assms(2) by simp_all
  show "\<forall>j<MAXCHILDREN. j \<noteq> n \<longrightarrow> (if j < Suc n then slot_ok s j else pl_children s ! j = free_slot)"
    using g by (auto simp: less_Suc_eq)
  show "\<forall>j<Suc n. \<forall>l<Suc n. j \<noteq> n \<longrightarrow> l \<noteq> n \<longrightarrow>
      ch_pid (pl_children s ! j) = ch_pid (pl_children s ! l) \<longrightarrow> ch_pid (pl_children s ! j) > 1 \<longrightarrow> j = l"
    using g by (auto simp: less_Suc_eq)
  show "\<forall>(pid, k)\<in>set (pl_running s). \<exists>j<Suc n. j \<noteq> n \<and> pid = ch_pid (pl_children s ! j) \<and> pid > 1 \<and> k = int j"
  proof clarify
    fix p k assume "(p, k) \<in> set (pl_running s)"
    then obtain j where "j < n" "p = ch_pid (pl_children s ! j)" "p > 1" "k = int j" using g by blast
    then show "\<exists>j<Suc n. j \<noteq> n \<and> p = ch_pid (pl_children s ! j) \<and> p > 1 \<and> k = int j" by (intro exI [of _ j]) simp
  qed
  show "\<forall>pid\<in>set (pl_dead s). \<exists>j<Suc n. j \<noteq> n \<and> pid = ch_pid (pl_children s ! j) \<and> pid > 1"
  proof
    fix p assume "p \<in> set (pl_dead s)"
    then obtain j where "j < n" "p = ch_pid (pl_children s ! j)" "p > 1" using g by blast
    then show "\<exists>j<Suc n. j \<noteq> n \<and> p = ch_pid (pl_children s ! j) \<and> p > 1" by (intro exI [of _ j]) simp
  qed
qed

lemma pool_inv_slot_gone_dead:
  assumes "pool_inv n s" "pl_dead s = pid # ds" "i < n" "ch_pid (pl_children s ! i) = pid"
  shows "slot_gone n (s\<lparr>pl_dead := ds\<rparr>) i"
  unfolding slot_gone_def
proof (intro conjI)
  note g = assms(1) [unfolded pool_inv_def]
  have i: "i < MAXCHILDREN" using g assms(3) by auto
  have one: "j = i" if "j < n" "ch_pid (pl_children s ! j) = pid" "pid > 1" for j
    using g assms(3,4) that by metis
  have p: "pid > 1" "pid \<notin> set ds" "pid \<notin> fst ` set (pl_running s)" using g assms(2) by auto
  show "length (pl_children (s\<lparr>pl_dead := ds\<rparr>)) = MAXCHILDREN" "n \<le> MAXCHILDREN" "i < n" "\<not> pl_quit (s\<lparr>pl_dead := ds\<rparr>)"
    "distinct (map fst (pl_running (s\<lparr>pl_dead := ds\<rparr>)) @ pl_dead (s\<lparr>pl_dead := ds\<rparr>))" using g assms(2,3) by simp_all
  have "slot_ok (s\<lparr>pl_dead := ds\<rparr>) j" if "j < n" "j \<noteq> i" for j
  proof -
    have "slot_ok s j" using g that by auto
    moreover have "ch_pid (pl_children s ! j) \<noteq> pid" using one that p(1) by blast
    ultimately show ?thesis using assms(2) by (auto simp: slot_ok_def Let_def)
  qed
  then show "\<forall>j<MAXCHILDREN. j \<noteq> i \<longrightarrow> (if j < n then slot_ok (s\<lparr>pl_dead := ds\<rparr>) j else pl_children (s\<lparr>pl_dead := ds\<rparr>) ! j = free_slot)"
    using g by auto
  show "\<forall>j<n. \<forall>l<n. j \<noteq> i \<longrightarrow> l \<noteq> i \<longrightarrow> ch_pid (pl_children (s\<lparr>pl_dead := ds\<rparr>) ! j) = ch_pid (pl_children (s\<lparr>pl_dead := ds\<rparr>) ! l) \<longrightarrow>
      ch_pid (pl_children (s\<lparr>pl_dead := ds\<rparr>) ! j) > 1 \<longrightarrow> j = l"
    using g by simp
  show "\<forall>(q, k)\<in>set (pl_running (s\<lparr>pl_dead := ds\<rparr>)). \<exists>j<n. j \<noteq> i \<and> q = ch_pid (pl_children (s\<lparr>pl_dead := ds\<rparr>) ! j) \<and> q > 1 \<and> k = int j"
  proof clarify
    fix q k assume q: "(q, k) \<in> set (pl_running (s\<lparr>pl_dead := ds\<rparr>))"
    then obtain j where j: "j < n" "q = ch_pid (pl_children s ! j)" "q > 1" "k = int j" using g by auto
    have "q \<noteq> pid" using q p(3) by force
    then have "j \<noteq> i" using j(2) assms(4) by blast
    then show "\<exists>j<n. j \<noteq> i \<and> q = ch_pid (pl_children (s\<lparr>pl_dead := ds\<rparr>) ! j) \<and> q > 1 \<and> k = int j" using j by auto
  qed
  show "\<forall>q\<in>set (pl_dead (s\<lparr>pl_dead := ds\<rparr>)). \<exists>j<n. j \<noteq> i \<and> q = ch_pid (pl_children (s\<lparr>pl_dead := ds\<rparr>) ! j) \<and> q > 1"
  proof
    fix q assume q: "q \<in> set (pl_dead (s\<lparr>pl_dead := ds\<rparr>))"
    then obtain j where j: "j < n" "q = ch_pid (pl_children s ! j)" "q > 1" using g assms(2) by auto
    have "q \<noteq> pid" using q p(2) by auto
    then show "\<exists>j<n. j \<noteq> i \<and> q = ch_pid (pl_children (s\<lparr>pl_dead := ds\<rparr>) ! j) \<and> q > 1" using j assms(4) by auto
  qed
qed

lemma search_slot:
  assumes "pool_inv n s" "pid \<in> set (pl_dead s)"
  shows "\<exists>i<n. search_slot_by_pid (pl_children s) pid = Some i \<and> ch_pid (pl_children s ! i) = pid"
proof -
  note g = assms(1) [unfolded pool_inv_def]
  obtain j where j: "j < n" "pid = ch_pid (pl_children s ! j)" "pid > 1" using g assms(2) by blast
  have "j < length (pl_children s)" using g j(1) by linarith
  then have "search_slot_by_pid (pl_children s) pid \<noteq> None"
    unfolding search_slot_by_pid_def find_None_iff using j(2) by auto
  then obtain i where i: "search_slot_by_pid (pl_children s) pid = Some i" by blast
  then have "ch_pid (pl_children s ! i) = pid" "i < MAXCHILDREN"
    using g by (auto simp: search_slot_by_pid_def find_Some_iff)
  moreover have "i < n"
  proof (rule ccontr)
    assume "\<not> i < n"
    then have "pl_children s ! i = free_slot" using g \<open>i < MAXCHILDREN\<close> by (metis if_not_P)
    then show False using \<open>ch_pid (pl_children s ! i) = pid\<close> j(3) by (simp add: free_slot_def)
  qed
  ultimately show ?thesis using i by blast
qed

text \<open>Reaping one child starts another in its slot.\<close>

lemma reap_child_start:
  assumes "pool_inv n s" "pl_dead s = pid # ds"
  obtains i where "i < n" "ch_pid (pl_children s ! i) = pid"
    "reap_child fork pid (s\<lparr>pl_dead := ds\<rparr>) = snd (start_child fork i (s\<lparr>pl_dead := ds\<rparr>))"
proof -
  have "\<not> pl_quit s" using assms(1) by (simp add: pool_inv_def)
  moreover obtain i where "i < n" "search_slot_by_pid (pl_children s) pid = Some i" "ch_pid (pl_children s ! i) = pid"
    using search_slot [OF assms(1), of pid] assms(2) by auto
  ultimately show ?thesis using that [of i] by (simp add: reap_child_def)
qed

lemma reap_child_inv:
  assumes "fork_ok fork" "pool_inv n s" "pl_dead s = pid # ds"
  shows "pool_inv n (reap_child fork pid (s\<lparr>pl_dead := ds\<rparr>))"
proof -
  obtain i where i: "i < n" "ch_pid (pl_children s ! i) = pid"
    "reap_child fork pid (s\<lparr>pl_dead := ds\<rparr>) = snd (start_child fork i (s\<lparr>pl_dead := ds\<rparr>))"
    by (rule reap_child_start [OF assms(2,3)])
  show ?thesis unfolding i(3)
    by (rule start_child_inv [OF assms(1) pool_inv_slot_gone_dead [OF assms(2,3) i(1,2)]])
qed

lemma reap_children_inv: "fork_ok fork \<Longrightarrow> pool_inv n s \<Longrightarrow> pool_inv n (reap_children fork s) \<and> pl_dead (reap_children fork s) = []"
proof (induction fork s rule: reap_children.induct)
  case (1 fork s)
  show ?case
  proof (cases "pl_dead s")
    case Nil
    then show ?thesis using 1(3) by (subst (1 2) reap_children.simps) simp
  next
    case (Cons pid ds)
    then show ?thesis using 1(1) [OF Cons 1(2) reap_child_inv [OF 1(2,3) Cons]]
      by (subst (1 2) reap_children.simps) simp
  qed
qed


section \<open>Creating the pool and handling signals\<close>

text \<open>When the parent exits, every live child has been told to end.\<close>

definition all_told :: "pool \<Rightarrow> bool" where
  "all_told s \<longleftrightarrow> (\<forall>(pid, k)\<in>set (pl_running s). (pid, SIGTERM) \<in> set (pl_signals s))"

lemma p_clean_exit_told:
  assumes "pool_inv n s"
  shows "all_told (p_clean_exit s)" "pl_running (p_clean_exit s) = pl_running s"
proof -
  note g = assms [unfolded pool_inv_def]
  show "pl_running (p_clean_exit s) = pl_running s" by (simp add: p_clean_exit_def kill_children_def)
  have "(p, SIGTERM) \<in> set (pl_signals (p_clean_exit s))" if "(p, k) \<in> set (pl_running s)" for p k
  proof -
    obtain j where j: "j < n" "p = ch_pid (pl_children s ! j)" "p > 1" using g \<open>(p, k) \<in> _\<close> by blast
    then have "j < length (pl_children s)" using g by linarith
    then have "pl_children s ! j \<in> set (pl_children s)" by (rule nth_mem)
    moreover have "slot_ok s j" using g j(1) by (metis order_less_le_trans)
    then have "ch_status (pl_children s ! j) \<noteq> UNDEF" by (simp add: slot_ok_def Let_def)
    ultimately show ?thesis using j(2,3) by (auto simp: p_clean_exit_def kill_children_def)
  qed
  then show "all_told (p_clean_exit s)" by (auto simp: all_told_def p_clean_exit_def kill_children_def)
qed

definition pool_good :: "nat \<Rightarrow> pool \<Rightarrow> bool" where
  "pool_good n s \<longleftrightarrow> (if pl_exited s then all_told s else pool_inv n s)"

lemma start_child_flags:
  assumes "fork_ok fork" "i < length (pl_children s)" "start_child fork i s = (pid, s')"
  shows "pl_exited s' = pl_exited s" "pid \<noteq> -1 \<longrightarrow> pid > 1" "ch_pid (pl_children s' ! i) = pid" "pl_dead s' = pl_dead s"
  by (rule start_child_cases [OF assms(1,2)]; use assms(2,3) in force)+

lemma create_children_good:
  "fork_ok fork \<Longrightarrow> pool_inv i s \<Longrightarrow> \<not> pl_exited s \<Longrightarrow> pl_dead s = [] \<Longrightarrow> i \<le> n \<Longrightarrow> n \<le> MAXCHILDREN \<Longrightarrow>
   (\<forall>j<i. ch_pid (pl_children s ! j) > 1) \<Longrightarrow>
   (let s' = create_children fork [i..<n] s
    in pool_good n s' \<and> (\<not> pl_exited s' \<longrightarrow> pl_dead s' = [] \<and> (\<forall>j<n. ch_pid (pl_children s' ! j) > 1)))"
proof (induction "n - i" arbitrary: i s)
  case 0
  then have "i = n" by simp
  then show ?case using 0 by (simp add: pool_good_def)
next
  case (Suc k)
  then have i: "i < n" "i < MAXCHILDREN" by simp_all
  obtain pid s1 where sc: "start_child fork i s = (pid, s1)" by (cases "start_child fork i s")
  have inv: "pool_inv (Suc i) s1"
    using start_child_inv [OF Suc.prems(1) pool_inv_slot_gone_new [OF Suc.prems(2) i(2)]] by (simp add: sc)
  have len: "i < length (pl_children s)" using Suc.prems(2) i(2) by (simp add: pool_inv_def)
  note f = start_child_flags [OF Suc.prems(1) len sc]
  have u: "create_children fork [i..<n] s = (if pid = -1 then p_clean_exit s1 else create_children fork [Suc i..<n] s1)"
    using i(1) by (simp add: upt_conv_Cons sc)
  show ?case
  proof (cases "pid = -1")
    case True
    then show ?thesis
      unfolding u Let_def using p_clean_exit_told(1) [OF inv] by (simp add: pool_good_def p_clean_exit_def)
  next
    case False
    have pids: "\<forall>j<Suc i. ch_pid (pl_children s1 ! j) > 1"
    proof (intro allI impI)
      fix j assume "j < Suc i"
      show "ch_pid (pl_children s1 ! j) > 1"
      proof (cases "j = i")
        case True
        then show ?thesis using f(2,3) False by simp
      next
        case j: False
        have "pl_children s1 ! j = pl_children s ! j"
          by (rule start_child_cases [OF Suc.prems(1) len]) (use sc j in auto)
        then show ?thesis using Suc.prems(7) \<open>j < Suc i\<close> j by simp
      qed
    qed
    show ?thesis
      unfolding u if_not_P [OF False]
      by (rule Suc.hyps(1)) (use Suc.hyps(2) Suc.prems inv f i pids in simp_all)
  qed
qed

lemma pool_start_good:
  assumes "pool_start n s"
  shows "pool_good n s" "\<not> pl_exited s \<Longrightarrow> pl_dead s = [] \<and> (\<forall>j<n. ch_pid (pl_children s ! j) > 1)"
proof -
  obtain fork where f: "n \<le> MAXCHILDREN" "fork_ok fork" "s = child_pool_create fork n fresh_pool"
    using assms by (auto simp: pool_start_def)
  have s: "s = create_children fork [0..<n] fresh_pool" by (simp add: f(3) child_pool_create_def fresh_pool_def)
  have "\<not> pl_exited fresh_pool" "pl_dead fresh_pool = []" by (simp_all add: fresh_pool_def)
  from create_children_good [OF f(2) pool_inv_fresh this _ f(1)]
  show "pool_good n s" "\<not> pl_exited s \<Longrightarrow> pl_dead s = [] \<and> (\<forall>j<n. ch_pid (pl_children s ! j) > 1)"
    unfolding s Let_def by simp_all
qed

lemma kill_children_simps [simp]:
  "pl_children (kill_children sig s) = pl_children s" "pl_running (kill_children sig s) = pl_running s"
  "pl_dead (kill_children sig s) = pl_dead s" "pl_quit (kill_children sig s) = pl_quit s"
  "pl_exited (kill_children sig s) = pl_exited s"
  by (simp_all add: kill_children_def)

lemma slot_ok_kill [simp]: "slot_ok (kill_children sig s) = slot_ok s"
  by (simp add: slot_ok_def fun_eq_iff)

lemma kill_children_inv: "pool_inv n s \<Longrightarrow> pool_inv n (kill_children sig s)"
  unfolding pool_inv_def kill_children_simps slot_ok_kill .

lemma pool_inv_quit: "pool_inv n s \<Longrightarrow> pool_inv n (kill_children sig s) \<and> all_told (p_clean_exit (s\<lparr>pl_quit := True\<rparr>))"
  using p_clean_exit_told(1) [of n s] kill_children_inv [of n s sig]
  by (simp add: all_told_def p_clean_exit_def kill_children_def)

lemma pl_exited_reap_child [simp]: "pl_exited (reap_child fork pid s) = pl_exited s"
  by (auto simp: reap_child_def start_child_def child_make_def set_slot_def Let_def split: option.split)

lemma pl_exited_reap [simp]: "pl_exited (reap_children fork s) = pl_exited s"
proof (induction fork s rule: reap_children.induct)
  case (1 fork s)
  then show ?case by (cases "pl_dead s") (subst reap_children.simps, simp)+
qed

lemma takesig_good:
  assumes "pool_inv n s" "\<not> pl_exited s" "fork_ok fork"
  shows "pool_good n (takesig fork conf_ok sig s)"
proof (cases sig)
  case SIGHUP
  have "\<not> pl_exited (kill_children SIGHUP s)" using assms(2) by (simp add: kill_children_def)
  then show ?thesis
    using SIGHUP kill_children_inv [OF assms(1)] p_clean_exit_told(1) [OF assms(1)]
    by (simp add: takesig_def pool_good_def p_clean_exit_def)
next
  case SIGCHLD
  then show ?thesis using reap_children_inv [OF assms(3,1)] assms(2) by (simp add: takesig_def pool_good_def)
qed (use pool_inv_quit [OF assms(1)] in \<open>simp_all add: takesig_def pool_good_def p_clean_exit_def\<close>)

lemma child_ends_inv:
  assumes "pool_inv n s" "mset (pl_running s) = add_mset (pid, k) (mset r)" "mset d = add_mset pid (mset (pl_dead s))"
  shows "pool_inv n (s\<lparr>pl_running := r, pl_dead := d\<rparr>)"
proof -
  note g = assms(1) [unfolded pool_inv_def]
  let ?s = "s\<lparr>pl_running := r, pl_dead := d\<rparr>"
  have r: "set (pl_running s) = insert (pid, k) (set r)" using arg_cong [OF assms(2), of set_mset] by simp
  have d: "set d = insert pid (set (pl_dead s))" using arg_cong [OF assms(3), of set_mset] by simp
  have "mset (map fst r @ d) = mset (map fst (pl_running s) @ pl_dead s)"
    using arg_cong [OF assms(2), of "image_mset fst"] by (simp add: assms(3))
  moreover have "distinct (map fst (pl_running s) @ pl_dead s)" using g by blast
  ultimately have 1: "distinct (map fst r @ d)" by (metis mset_eq_imp_distinct_iff)
  have ok: "slot_ok ?s i" if "slot_ok s i" for i
    using that r d unfolding slot_ok_def Let_def by auto
  have 2: "\<forall>i<MAXCHILDREN. if i < n then slot_ok ?s i else pl_children ?s ! i = free_slot"
    using g ok by simp
  obtain j where j: "j < n" "pid = ch_pid (pl_children s ! j)" "pid > 1" using g r by blast
  have 3: "\<forall>(p, k)\<in>set r. \<exists>i<n. p = ch_pid (pl_children s ! i) \<and> p > 1 \<and> k = int i" using g r by blast
  have "\<forall>p\<in>set (pl_dead s). \<exists>i<n. p = ch_pid (pl_children s ! i) \<and> p > 1" using g by (elim conjE)
  then have 4: "\<forall>p\<in>set d. \<exists>i<n. p = ch_pid (pl_children s ! i) \<and> p > 1" unfolding d using j by auto
  have sel: "pl_children ?s = pl_children s" "pl_running ?s = r" "pl_dead ?s = d" "pl_quit ?s = pl_quit s" by simp_all
  have 5: "\<forall>i<n. \<forall>j<n. ch_pid (pl_children s ! i) = ch_pid (pl_children s ! j) \<longrightarrow> ch_pid (pl_children s ! i) > 1 \<longrightarrow> i = j"
    using g by (elim conjE)
  have 6: "length (pl_children s) = MAXCHILDREN" "n \<le> MAXCHILDREN" "\<not> pl_quit s" using g by simp_all
  show ?thesis
    unfolding pool_inv_def sel by (intro conjI 6 5 1 2 [unfolded sel] 3 4)
qed

lemma pool_step_good:
  assumes "pool_step s s'" "pool_good n s"
  shows "pool_good n s'"
  using assms(1)
proof (rule pool_stepE)
  fix pid k r d
  assume "s' = s\<lparr>pl_running := r, pl_dead := d\<rparr>" "\<not> pl_exited s" "mset (pl_running s) = add_mset (pid, k) (mset r)"
    "mset d = add_mset pid (mset (pl_dead s))"
  then show ?thesis using assms(2) child_ends_inv [of n s pid k r d] by (simp add: pool_good_def)
next
  fix fork conf_ok sig
  assume "s' = takesig fork conf_ok sig s" "\<not> pl_exited s" "fork_ok fork"
  then show ?thesis using assms(2) takesig_good [of n s fork conf_ok sig] by (simp add: pool_good_def)
qed


section \<open>What the supervisor is for\<close>

text \<open>
  An interface for refinement by an abstraction function: the invariant of the concrete system makes
  every step of it a step, or none, of the abstract one; runs are then matched by runs.
\<close>

locale step_refinement =
  fixes start :: "'s \<Rightarrow> bool" and step :: "'s \<Rightarrow> 's \<Rightarrow> bool" and good :: "'s \<Rightarrow> bool"
    and abs :: "'s \<Rightarrow> 'a" and spec_start :: "'a \<Rightarrow> bool" and spec_step :: "'a \<Rightarrow> 'a \<Rightarrow> bool"
  assumes start_good: "start s \<Longrightarrow> good s"
    and start_abs: "start s \<Longrightarrow> spec_start (abs s)"
    and step_good: "step s s' \<Longrightarrow> good s \<Longrightarrow> good s'"
    and step_abs: "step s s' \<Longrightarrow> good s \<Longrightarrow> abs s' = abs s \<or> spec_step (abs s) (abs s')"
begin

lemma steps_good: "step\<^sup>*\<^sup>* s s' \<Longrightarrow> good s \<Longrightarrow> good s'"
  by (induction rule: rtranclp_induct) (auto intro: step_good)

lemma reachable_good: "start s \<Longrightarrow> step\<^sup>*\<^sup>* s s' \<Longrightarrow> good s'"
  using steps_good start_good by blast

lemma steps_abs: "step\<^sup>*\<^sup>* s s' \<Longrightarrow> good s \<Longrightarrow> spec_step\<^sup>*\<^sup>* (abs s) (abs s')"
proof (induction rule: rtranclp_induct)
  case (step t u)
  have "good t" using steps_good [OF step(1) step(4)] .
  then show ?case using step(3) [OF step(4)] step_abs [OF step(2)] by (auto intro: rtranclp.rtrancl_into_rtrancl)
qed simp

lemma reachable_abs: "start s \<Longrightarrow> step\<^sup>*\<^sup>* s s' \<Longrightarrow> spec_start (abs s) \<and> spec_step\<^sup>*\<^sup>* (abs s) (abs s')"
  using steps_abs start_good start_abs by blast

end

text \<open>
  The abstract supervisor: a worker is up, down (it ended and was not noticed yet) or lost (no child
  could be made for it); \<open>None\<close> is the supervisor that has ended.
\<close>

datatype worker = Free | Up | Down | Lost

type_synonym workers = "(nat \<Rightarrow> worker) option"

inductive worker_step :: "workers \<Rightarrow> workers \<Rightarrow> bool" where
  crash: "w i = Up \<Longrightarrow> worker_step (Some w) (Some (w(i := Down)))"
| restart: "(\<And>i. w' i = w i \<and> w i \<noteq> Down \<or> w i = Down \<and> w' i \<in> {Up, Lost}) \<Longrightarrow> worker_step (Some w) (Some w')"
| stop: "worker_step (Some w) None"

definition worker_state :: "pool \<Rightarrow> nat \<Rightarrow> worker" where
  "worker_state s i =
     (if i \<ge> MAXCHILDREN \<or> ch_status (pl_children s ! i) = UNDEF then Free
      else if ch_pid (pl_children s ! i) = -1 then Lost
      else if ch_pid (pl_children s ! i) \<in> set (pl_dead s) then Down else Up)"

definition pool_abs :: "pool \<Rightarrow> workers" where
  "pool_abs s = (if pl_exited s then None else Some (worker_state s))"

definition workers_start :: "nat \<Rightarrow> workers \<Rightarrow> bool" where
  "workers_start n w \<longleftrightarrow> w = None \<or> w = Some (\<lambda>i. if i < n then Up else Free)"

lemma worker_state_slot:
  assumes "pool_inv n s"
  shows "worker_state s i = (if i < n then (if ch_pid (pl_children s ! i) = -1 then Lost
      else if ch_pid (pl_children s ! i) \<in> set (pl_dead s) then Down else Up) else Free)"
proof -
  note g = assms [unfolded pool_inv_def]
  show ?thesis
  proof (cases "i < MAXCHILDREN")
    case True
    have "if i < n then slot_ok s i else pl_children s ! i = free_slot" using g True by blast
    then show ?thesis using True by (auto simp: worker_state_def slot_ok_def free_slot_def Let_def split: if_splits)
  next
    case False
    then have "\<not> i < n" using g by linarith
    then show ?thesis using False by (simp add: worker_state_def)
  qed
qed

text \<open>What may become of a worker for which \<open>fork\<close> is called.\<close>

definition fork_results :: "(pool \<Rightarrow> int) \<Rightarrow> worker set" where
  "fork_results fork = (if \<forall>s. fork s \<noteq> -1 then {Up} else if \<forall>s. fork s = -1 then {Lost} else {Up, Lost})"

lemma start_child_worker:
  assumes "fork_ok fork" "slot_gone n s i"
  shows "worker_state (snd (start_child fork i s)) j = (if j = i then worker_state (snd (start_child fork i s)) i else worker_state s j)"
    "worker_state (snd (start_child fork i s)) i \<in> fork_results fork"
proof -
  have i: "i < length (pl_children s)" "i < MAXCHILDREN" using assms(2) by (auto simp: slot_gone_def)
  let ?t = "set_slot i (\<lambda>c. c\<lparr>ch_status := READY, ch_serial := int i\<rparr>) s"
  have fst: "fst (start_child fork i s) = (if fork t > 0 then fork t else -1)"
    if "t = set_slot i (\<lambda>c. c\<lparr>ch_status := READY, ch_serial := int i\<rparr>) s" for t
    using that by (simp add: start_child_def child_make_def Let_def case_prod_beta)
  show "worker_state (snd (start_child fork i s)) j = (if j = i then worker_state (snd (start_child fork i s)) i else worker_state s j)"
    by (rule start_child_cases [OF assms(1) i(1)]) (auto simp: worker_state_def)
  show "worker_state (snd (start_child fork i s)) i \<in> fork_results fork"
  proof (rule start_child_cases [OF assms(1) i(1)])
    assume c: "start_child fork i s = (-1, s\<lparr>pl_children := (pl_children s)[i := (pl_children s ! i)\<lparr>ch_status := READY, ch_serial := int i, ch_pid := -1\<rparr>]\<rparr>)"
    have "\<not> fork ?t > 0" using fst [OF refl] unfolding c by (simp split: if_splits)
    moreover have "fork ?t = -1 \<or> fork ?t > 1" using assms(1) unfolding fork_ok_def by blast
    ultimately have "fork ?t = -1" by linarith
    then have "\<not> (\<forall>s. fork s \<noteq> -1)" by blast
    then have "Lost \<in> fork_results fork" by (simp add: fork_results_def)
    then show ?thesis using i by (simp add: c worker_state_def)
  next
    fix pid
    assume m: "pid > 1" "pid \<notin> fst ` set (pl_running s)" "pid \<notin> set (pl_dead s)"
      "start_child fork i s = (pid, s\<lparr>pl_children := (pl_children s)[i := (pl_children s ! i)\<lparr>ch_status := READY, ch_serial := int i, ch_pid := pid\<rparr>],
       pl_running := (pid, int i) # pl_running s\<rparr>)"
    have "fork ?t > 0" using fst [OF refl] m(1) unfolding m(4) by (simp split: if_splits)
    then have "fork ?t \<noteq> -1" by linarith
    then have "\<not> (\<forall>s. fork s = -1)" by blast
    then have "Up \<in> fork_results fork" by (simp add: fork_results_def)
    then show ?thesis using i m by (simp add: m(4) worker_state_def)
  qed
qed

lemma reap_children_workers:
  assumes "fork_ok fork" "pool_inv n s"
  shows "(worker_state s j \<noteq> Down \<longrightarrow> worker_state (reap_children fork s) j = worker_state s j) \<and>
    (worker_state s j = Down \<longrightarrow> worker_state (reap_children fork s) j \<in> fork_results fork)"
  using assms
proof (induction fork s rule: reap_children.induct)
  case (1 fork s)
  show ?case
  proof (cases "pl_dead s")
    case Nil
    then have "worker_state s j \<noteq> Down" by (simp add: worker_state_def)
    then show ?thesis using Nil by (subst (1 2) reap_children.simps) simp
  next
    case (Cons pid ds)
    let ?s = "s\<lparr>pl_dead := ds\<rparr>" and ?s' = "reap_child fork pid (s\<lparr>pl_dead := ds\<rparr>)"
    obtain i where i: "i < n" "ch_pid (pl_children s ! i) = pid" "?s' = snd (start_child fork i ?s)"
      by (rule reap_child_start [OF 1(3) Cons])
    note gone = pool_inv_slot_gone_dead [OF 1(3) Cons i(1,2)]
    note w = start_child_worker [OF 1(2) gone]
    note inv = 1(3) [unfolded pool_inv_def]
    have "pid > 1" using inv Cons by auto
    have d: "worker_state s i = Down"
      unfolding worker_state_slot [OF 1(3)] using i(1,2) Cons \<open>pid > 1\<close> by simp
    have o: "worker_state ?s l = worker_state s l" if "l \<noteq> i" for l
    proof (cases "l < n")
      case True
      have "ch_pid (pl_children s ! l) \<noteq> pid" using inv i(1,2) that True \<open>pid > 1\<close> by metis
      then show ?thesis using Cons by (auto simp: worker_state_def)
    next
      case False
      then have "worker_state s l = Free" by (simp add: worker_state_slot [OF 1(3)])
      then show ?thesis by (auto simp: worker_state_def split: if_splits)
    qed
    have IH: "(worker_state ?s' j \<noteq> Down \<longrightarrow> worker_state (reap_children fork ?s') j = worker_state ?s' j) \<and>
      (worker_state ?s' j = Down \<longrightarrow> worker_state (reap_children fork ?s') j \<in> fork_results fork)"
      by (rule 1(1) [OF Cons 1(2) reap_child_inv [OF 1(2,3) Cons]])
    have r: "reap_children fork s = reap_children fork ?s'" using Cons by (subst reap_children.simps) simp
    show ?thesis
    proof (cases "j = i")
      case True
      have "worker_state ?s' i \<in> fork_results fork" using w(2) unfolding i(3) .
      then show ?thesis using IH unfolding r True d by (cases "worker_state ?s' i = Down") simp_all
    next
      case False
      then have "worker_state ?s' j = worker_state s j" using w(1) [of j] o [of j] unfolding i(3) by simp
      then show ?thesis using IH unfolding r by (simp only:)
    qed
  qed
qed


lemma pool_start_workers: "pool_start n s \<Longrightarrow> workers_start n (pool_abs s)"
proof -
  assume a: "pool_start n s"
  show ?thesis
  proof (cases "pl_exited s")
    case False
    then have p: "pl_dead s = []" "\<forall>j<n. ch_pid (pl_children s ! j) > 1" "pool_inv n s"
      using pool_start_good [OF a] by (simp_all add: pool_good_def)
    have "worker_state s = (\<lambda>i. if i < n then Up else Free)"
    proof
      fix i
      have "i < n \<Longrightarrow> ch_pid (pl_children s ! i) \<noteq> -1" using p(2) by force
      then show "worker_state s i = (if i < n then Up else Free)" unfolding worker_state_slot [OF p(3)] p(1) by simp
    qed
    then show ?thesis using False by (simp add: workers_start_def pool_abs_def)
  qed (simp add: workers_start_def pool_abs_def)
qed

lemma child_ends_worker:
  assumes "pool_inv n s" "mset (pl_running s) = add_mset (pid, k) (mset r)" "mset d = add_mset pid (mset (pl_dead s))"
  shows "\<exists>i. worker_state s i = Up \<and> worker_state (s\<lparr>pl_running := r, pl_dead := d\<rparr>) = (worker_state s)(i := Down)"
proof -
  note g = assms(1) [unfolded pool_inv_def]
  have r: "(pid, k) \<in> set (pl_running s)" using arg_cong [OF assms(2), of set_mset] by auto
  have d: "set d = insert pid (set (pl_dead s))" using arg_cong [OF assms(3), of set_mset] by simp
  obtain i where i: "i < n" "pid = ch_pid (pl_children s ! i)" "pid > 1" using g r by blast
  have "pid \<in> fst ` set (pl_running s)" using r by force
  moreover have "distinct (map fst (pl_running s) @ pl_dead s)" using g by (elim conjE)
  ultimately have nd: "pid \<notin> set (pl_dead s)" by auto
  let ?s = "s\<lparr>pl_running := r, pl_dead := d\<rparr>"
  have u: "\<forall>i<n. \<forall>j<n. ch_pid (pl_children s ! i) = ch_pid (pl_children s ! j) \<longrightarrow> ch_pid (pl_children s ! i) > 1 \<longrightarrow> i = j"
    using g by (elim conjE)
  have up: "worker_state s i = Up" unfolding worker_state_slot [OF assms(1)] using i nd by simp
  have w: "worker_state ?s j = (if j < n then (if ch_pid (pl_children s ! j) = -1 then Lost
      else if ch_pid (pl_children s ! j) = pid \<or> ch_pid (pl_children s ! j) \<in> set (pl_dead s) then Down else Up) else Free)" for j
    unfolding worker_state_slot [OF child_ends_inv [OF assms]] by (simp add: d)
  have "worker_state ?s j = ((worker_state s)(i := Down)) j" for j
  proof (cases "j = i")
    case True
    then show ?thesis unfolding w using i by simp
  next
    case False
    then have "j < n \<Longrightarrow> ch_pid (pl_children s ! j) \<noteq> pid" using u i by metis
    then show ?thesis unfolding w fun_upd_other [OF False] worker_state_slot [OF assms(1)] by simp
  qed
  then have "worker_state ?s = (worker_state s)(i := Down)" ..
  then show ?thesis using up by blast
qed

lemma pool_step_workers:
  assumes "pool_step s s'" "pool_good n s"
  shows "pool_abs s' = pool_abs s \<or> worker_step (pool_abs s) (pool_abs s')"
  using assms(1)
proof (rule pool_stepE)
  fix pid k r d
  assume a: "s' = s\<lparr>pl_running := r, pl_dead := d\<rparr>" "\<not> pl_exited s" "mset (pl_running s) = add_mset (pid, k) (mset r)"
    "mset d = add_mset pid (mset (pl_dead s))"
  then obtain i where "worker_state s i = Up" "worker_state s' = (worker_state s)(i := Down)"
    using child_ends_worker [of n s pid k r d] assms(2) by (auto simp: pool_good_def)
  then show ?thesis using worker_step.crash [of "worker_state s" i] a(1,2) by (simp add: pool_abs_def)
next
  fix fork conf_ok sig
  assume a: "s' = takesig fork conf_ok sig s" "\<not> pl_exited s" "fork_ok fork"
  then have inv: "pool_inv n s" using assms(2) by (simp add: pool_good_def)
  show ?thesis
  proof (cases sig)
    case SIGHUP
    have "worker_state (kill_children SIGHUP s) = worker_state s" by (simp add: worker_state_def fun_eq_iff)
    then show ?thesis
      using a SIGHUP worker_step.stop [of "worker_state s"] by (simp add: takesig_def pool_abs_def p_clean_exit_def)
  next
    case SIGCHLD
    have "worker_step (Some (worker_state s)) (Some (worker_state (reap_children fork s)))"
    proof (rule worker_step.restart)
      fix i
      show "worker_state (reap_children fork s) i = worker_state s i \<and> worker_state s i \<noteq> Down \<or>
          worker_state s i = Down \<and> worker_state (reap_children fork s) i \<in> {Up, Lost}"
        using reap_children_workers [OF a(3) inv, of i] by (auto simp: fork_results_def split: if_splits)
    qed
    then show ?thesis using a SIGCHLD by (simp add: takesig_def pool_abs_def)
  qed (use a worker_step.stop [of "worker_state s"] in \<open>simp_all add: takesig_def pool_abs_def p_clean_exit_def\<close>)
qed

interpretation supervisor: step_refinement "pool_start n" pool_step "pool_good n" pool_abs "workers_start n" worker_step for n
  by unfold_locales (blast intro: pool_start_good pool_start_workers pool_step_good dest: pool_step_workers)+

section \<open>The configuration of the pool\<close>

text \<open>
  \<open>initialise_configuration\<close> of \<open>src/kospam.c\<close>; \<open>None\<close> is a fatal error.  The file is its contents; whether
  the user exists and the working directory can be entered are parameters.
\<close>

definition initialise_configuration ::
  "string \<Rightarrow> (string \<Rightarrow> bool) \<Rightarrow> (string \<Rightarrow> bool) \<Rightarrow> string option \<Rightarrow> config option" where
  "initialise_configuration datadir user_exists chdir_ok file =
     (if file = None then None
      else
        let c0 = read_config datadir file;
            c1 = (if cfg_number_of_worker_processes c0 < 2 then c0\<lparr>cfg_number_of_worker_processes := 2\<rparr> else c0);
            c2 = (if cfg_number_of_worker_processes c1 > int MAXCHILDREN
                  then c1\<lparr>cfg_number_of_worker_processes := int MAXCHILDREN\<rparr> else c1)
        in if length (cfg_username c2) > 1 \<and> \<not> user_exists (cfg_username c2) then None
           else if \<not> chdir_ok (cfg_workdir c2) then None
           else Some c2)"

lemma initialise_configuration_workers:
  "initialise_configuration datadir user_exists chdir_ok file = Some cfg \<Longrightarrow>
   2 \<le> cfg_number_of_worker_processes cfg \<and> cfg_number_of_worker_processes cfg \<le> int MAXCHILDREN"
  by (auto simp: initialise_configuration_def Let_def split: if_splits)

section \<open>The worker\<close>

text \<open>
  The loop of \<open>child_main\<close>.  A round is given by whether \<open>received_sighup\<close> is set at its start and, when the
  database can be opened, by the number of messages \<open>process_dir\<close> handles; the result is the number of
  messages at the exit, and \<open>None\<close> when the rounds end before the loop.
\<close>

fun child_rounds :: "config \<Rightarrow> (bool \<times> int option) list \<Rightarrow> int \<Rightarrow> int option" where
  "child_rounds cfg [] messages = None"
| "child_rounds cfg ((received_sighup, handled) # rounds) messages =
     (if received_sighup then Some messages
      else
        let m = (case handled of None \<Rightarrow> messages | Some k \<Rightarrow> messages + k)
        in if cfg_max_requests_per_child cfg > 0 \<and> m \<ge> cfg_max_requests_per_child cfg then Some m
           else child_rounds cfg rounds m)"

definition child_main :: "config \<Rightarrow> (bool \<times> int option) list \<Rightarrow> int option" where
  "child_main cfg rounds = child_rounds cfg rounds 0"

lemma child_rounds_end:
  "\<forall>(hup, k)\<in>set rounds. hup \<or> (\<exists>j\<ge>1. k = Some j) \<Longrightarrow> 0 < cfg_max_requests_per_child cfg \<Longrightarrow>
   m + int (length rounds) \<ge> cfg_max_requests_per_child cfg \<Longrightarrow> m < cfg_max_requests_per_child cfg \<Longrightarrow>
   child_rounds cfg rounds m \<noteq> None"
proof (induction rounds arbitrary: m)
  case (Cons r rounds)
  obtain hup k where r: "r = (hup, k)" by (cases r)
  show ?case
  proof (cases hup)
    case False
    then obtain j where j: "k = Some j" "1 \<le> j" using Cons.prems(1) r by auto
    show ?thesis
    proof (cases "m + j \<ge> cfg_max_requests_per_child cfg")
      case False
      then show ?thesis using Cons.IH [of "m + j"] Cons.prems r j \<open>\<not> hup\<close> by simp
    qed (use r j \<open>\<not> hup\<close> Cons.prems(2) in simp)
  qed (use r in simp)
qed simp

lemma child_rounds_unlimited:
  "\<forall>(hup, k)\<in>set rounds. \<not> hup \<Longrightarrow> cfg_max_requests_per_child cfg \<le> 0 \<Longrightarrow> child_rounds cfg rounds m = None"
proof (induction rounds arbitrary: m)
  case (Cons r rounds)
  then show ?case by (cases r) (auto simp: Let_def split: option.split)
qed simp

section \<open>Properties\<close>

text \<open>A \<open>fork\<close> as the system promises it.\<close>

definition next_pid :: "pool \<Rightarrow> int" where
  "next_pid s = 2 + sum_list (map abs (map fst (pl_running s) @ pl_dead s))"

lemma sum_abs_nonneg: "0 \<le> sum_list (map abs xs)" for xs :: "int list"
  by (rule sum_list_nonneg) auto

lemma abs_le_sum_abs: "x \<in> set xs \<Longrightarrow> x \<le> sum_list (map abs xs)" for x :: int
proof (induction xs)
  case (Cons y xs)
  then show ?case using sum_abs_nonneg [of xs] abs_ge_self [of y] by fastforce
qed simp

lemma next_pid_new: "x \<in> set (map fst (pl_running s) @ pl_dead s) \<Longrightarrow> x < next_pid s"
  unfolding next_pid_def using abs_le_sum_abs [of x "map fst (pl_running s) @ pl_dead s"] by linarith

lemma next_pid_gt: "1 < next_pid s"
  unfolding next_pid_def using sum_abs_nonneg [of "map fst (pl_running s) @ pl_dead s"] by linarith

lemma fork_ok_next_pid: "fork_ok next_pid" "next_pid s \<noteq> -1"
proof -
  have "next_pid t \<notin> set (map fst (pl_running t) @ pl_dead t)" for t using next_pid_new [of "next_pid t" t] by blast
  then show "fork_ok next_pid" unfolding fork_ok_def using next_pid_gt by simp
  show "next_pid s \<noteq> -1" using next_pid_gt [of s] by linarith
qed

lemma start_child_next_pid:
  "i < length (pl_children s) \<Longrightarrow> start_child next_pid i s =
     (next_pid s, s\<lparr>pl_children := (pl_children s)[i := (pl_children s ! i)\<lparr>ch_status := READY, ch_serial := int i, ch_pid := next_pid s\<rparr>],
        pl_running := (next_pid s, int i) # pl_running s\<rparr>)"
proof -
  assume i: "i < length (pl_children s)"
  have "next_pid (set_slot i f s) = next_pid s" for f by (simp add: next_pid_def set_slot_def)
  moreover have "0 < next_pid s" using next_pid_gt [of s] by linarith
  ultimately show ?thesis using i by (simp add: start_child_def child_make_def Let_def) (simp add: set_slot_def)
qed

abbreviation demo_pool :: pool where
  "demo_pool \<equiv> child_pool_create next_pid 2 fresh_pool"

lemma demo_pool_start: "pool_start 2 demo_pool"
  unfolding pool_start_def using fork_ok_next_pid(1) by auto

lemma demo_pool_state:
  "pl_exited demo_pool = False" "pl_running demo_pool = [(4, 1), (2, 0)]" "pl_dead demo_pool = []"
  "ch_pid (pl_children demo_pool ! 0) = 2" "ch_status (pl_children demo_pool ! 0) = READY"
proof -
  let ?c = "\<lambda>i p. free_slot\<lparr>ch_status := READY, ch_serial := i, ch_pid := p\<rparr>" and ?r = "replicate MAXCHILDREN free_slot"
  have u: "[0..<2] = [0, Suc 0]" by (simp add: upt_rec)
  have f: "next_pid fresh_pool = 2" "pl_children fresh_pool = ?r" "pl_running fresh_pool = []"
    by (simp_all add: next_pid_def fresh_pool_def)
  let ?s1 = "fresh_pool\<lparr>pl_children := ?r[0 := ?c 0 2], pl_running := [(2, 0)]\<rparr>"
  have "0 < length (pl_children fresh_pool)" by (simp add: f(2))
  from start_child_next_pid [OF this] have 1: "start_child next_pid 0 fresh_pool = (2, ?s1)" unfolding f by simp
  have "Suc 0 < length (pl_children ?s1)" by simp
  note st2 = start_child_next_pid [OF this]
  have p: "next_pid ?s1 = 4" by (simp add: next_pid_def fresh_pool_def)
  have n: "pl_children ?s1 ! Suc 0 = free_slot" by simp
  have 2: "start_child next_pid (Suc 0) ?s1 =
      (4, fresh_pool\<lparr>pl_children := ?r[0 := ?c 0 2, Suc 0 := ?c 1 4], pl_running := [(4, 1), (2, 0)]\<rparr>)"
    unfolding st2 p n by simp
  have "fresh_pool\<lparr>pl_children := ?r\<rparr> = fresh_pool" by (simp add: fresh_pool_def)
  then have d: "demo_pool = fresh_pool\<lparr>pl_children := ?r[0 := ?c 0 2, Suc 0 := ?c 1 4], pl_running := [(4, 1), (2, 0)]\<rparr>"
    by (simp only: child_pool_create_def u create_children.simps 1 2 Let_def prod.case) simp
  show "pl_exited demo_pool = False" "pl_running demo_pool = [(4, 1), (2, 0)]" "pl_dead demo_pool = []"
    "ch_pid (pl_children demo_pool ! 0) = 2" "ch_status (pl_children demo_pool ! 0) = READY"
    unfolding d by (simp_all add: fresh_pool_def)
qed

lemma demo_pool_exited: "\<not> pl_exited demo_pool"
  by (simp add: demo_pool_state)

text \<open>
  C28: In every state the pool can reach, no two live workers read the same directory, and each reads one
  of those of the configured workers; a slot in use always has its own number; and when the parent has
  exited every child that still lived has been sent SIGTERM.
\<close>

theorem pool_workers_distinct:
  assumes "pool_start n s" "pool_step\<^sup>*\<^sup>* s s'"
  shows "if pl_exited s' then \<forall>(pid, k)\<in>set (pl_running s'). (pid, SIGTERM) \<in> set (pl_signals s')
    else distinct (map snd (pl_running s')) \<and> snd ` set (pl_running s') \<subseteq> int ` {..<n} \<and>
      (\<forall>i<n. ch_status (pl_children s' ! i) = READY \<and> ch_serial (pl_children s' ! i) = int i)"
proof (cases "pl_exited s'")
  case True
  then show ?thesis using supervisor.reachable_good [OF assms] by (auto simp: pool_good_def all_told_def)
next
  case False
  then have inv: "pool_inv n s'" using supervisor.reachable_good [OF assms] by (simp add: pool_good_def)
  note g = inv [unfolded pool_inv_def]
  have r: "\<forall>(pid, k)\<in>set (pl_running s'). \<exists>i<n. pid = ch_pid (pl_children s' ! i) \<and> pid > 1 \<and> k = int i" using g by (elim conjE)
  have "distinct (map fst (pl_running s') @ pl_dead s')" using g by (elim conjE)
  then have d: "distinct (map fst (pl_running s'))" by simp
  have "inj_on snd (set (pl_running s'))"
  proof (rule inj_onI)
    fix x y assume xy: "x \<in> set (pl_running s')" "y \<in> set (pl_running s')" "snd x = snd y"
    have "\<exists>i<n. fst z = ch_pid (pl_children s' ! i) \<and> snd z = int i" if "z \<in> set (pl_running s')" for z
      using bspec [OF r that] by (cases z) auto
    from this [OF xy(1)] this [OF xy(2)]
    obtain i j where "fst x = ch_pid (pl_children s' ! i)" "snd x = int i" "fst y = ch_pid (pl_children s' ! j)" "snd y = int j"
      by blast
    then have "fst x = fst y" using xy(3) by simp
    then show "x = y" using xy(3) by (rule prod_eqI)
  qed
  moreover have "distinct (pl_running s')" using d by (simp add: distinct_map)
  ultimately have 1: "distinct (map snd (pl_running s'))" by (simp add: distinct_map)
  have 2: "snd ` set (pl_running s') \<subseteq> int ` {..<n}" using r by fastforce
  have 3: "slot_ok s' i" if "i < n" for i
  proof -
    have "i < MAXCHILDREN" using g that by linarith
    then show ?thesis using g that by (metis (full_types))
  qed
  show ?thesis using False 1 2 3 by (simp add: slot_ok_def Let_def)
qed

lemma pool_workers_distinct_witness:
  "\<exists>s'. pool_step\<^sup>*\<^sup>* demo_pool s' \<and> \<not> pl_exited s' \<and> distinct (map snd (pl_running s'))"
  using pool_workers_distinct [OF demo_pool_start, of demo_pool] demo_pool_exited by (intro exI [of _ demo_pool]) simp

text \<open>
  C29: The pool implements the abstract supervisor: every run of it, with any order of endings and
  signals, is a run in which workers crash, crashed workers are restarted or lost together, and the
  supervisor stops.
\<close>

theorem pool_refines_supervisor:
  assumes "pool_start n s" "pool_step\<^sup>*\<^sup>* s s'"
  shows "workers_start n (pool_abs s) \<and> worker_step\<^sup>*\<^sup>* (pool_abs s) (pool_abs s')"
  by (rule supervisor.reachable_abs [OF assms])

lemma pool_refines_supervisor_witness:
  "pool_abs demo_pool = Some (\<lambda>i. if i < 2 then Up else Free) \<and>
   worker_step\<^sup>*\<^sup>* (pool_abs demo_pool) (pool_abs (takesig next_pid True SIGTERM demo_pool))"
proof -
  have "pool_step demo_pool (takesig next_pid True SIGTERM demo_pool)"
    by (rule pool_step.signal [OF demo_pool_exited fork_ok_next_pid(1)]) simp
  then have r: "pool_step\<^sup>*\<^sup>* demo_pool (takesig next_pid True SIGTERM demo_pool)" by (rule r_into_rtranclp)
  have "pool_abs demo_pool \<noteq> None" using demo_pool_exited by (simp add: pool_abs_def)
  moreover have w: "workers_start 2 (pool_abs demo_pool) \<and>
      worker_step\<^sup>*\<^sup>* (pool_abs demo_pool) (pool_abs (takesig next_pid True SIGTERM demo_pool))"
    by (rule pool_refines_supervisor [OF demo_pool_start r])
  ultimately have "pool_abs demo_pool = Some (\<lambda>i. if i < 2 then Up else Free)"
    unfolding workers_start_def by (elim conjE disjE) (erule notE, assumption, assumption)
  then show ?thesis using w by (intro conjI) (assumption, elim conjE)
qed

text \<open>
  C30: When \<open>fork\<close> does not fail, one SIGCHLD brings every worker that has ended back, each in its own slot.
\<close>

theorem sigchld_restarts_workers:
  assumes "pool_start n s" "pool_step\<^sup>*\<^sup>* s s'" "\<not> pl_exited s'" "fork_ok fork" "\<forall>t. fork t \<noteq> -1"
  shows "worker_state (takesig fork conf_ok SIGCHLD s') i =
      (if worker_state s' i = Down then Up else worker_state s' i) \<and> pl_dead (takesig fork conf_ok SIGCHLD s') = []"
proof -
  have inv: "pool_inv n s'" using supervisor.reachable_good [OF assms(1,2)] assms(3) by (simp add: pool_good_def)
  show ?thesis
    using reap_children_workers [OF assms(4) inv, of i] reap_children_inv [OF assms(4) inv] assms(5)
    by (auto simp: takesig_def fork_results_def)
qed

lemma sigchld_restarts_workers_witness:
  "worker_state (takesig next_pid True SIGCHLD demo_pool) 0 =
     (if worker_state demo_pool 0 = Down then Up else worker_state demo_pool 0) \<and>
   pl_dead (takesig next_pid True SIGCHLD demo_pool) = []"
  using sigchld_restarts_workers [OF demo_pool_start rtranclp.rtrancl_refl demo_pool_exited fork_ok_next_pid(1)] fork_ok_next_pid(2)
  by blast

text \<open>A slot for which no child could be made is never used again, however often signals arrive.\<close>

lemma worker_step_lost: "worker_step w w' \<Longrightarrow> w = Some f \<Longrightarrow> w' = Some f' \<Longrightarrow> f i = Lost \<Longrightarrow> f' i = Lost"
  by (induction rule: worker_step.induct) (auto, metis worker.distinct)

lemma workers_stopped: "worker_step\<^sup>*\<^sup>* None w \<Longrightarrow> w = None"
  by (induction rule: rtranclp_induct) (auto elim: worker_step.cases)

lemma worker_steps_lost: "worker_step\<^sup>*\<^sup>* w w' \<Longrightarrow> w = Some f \<Longrightarrow> w' = Some f' \<Longrightarrow> f i = Lost \<Longrightarrow> f' i = Lost"
proof (induction arbitrary: f' rule: rtranclp_induct)
  case (step u v)
  then obtain g where "u = Some g" by (cases u) (auto elim: worker_step.cases)
  then show ?case using step worker_step_lost by blast
qed simp

text \<open>
  C31: When \<open>fork\<close> fails while an ended worker is replaced, its slot is lost: no later signal and no other
  event brings the worker back, and its directory is not read any more.
\<close>

theorem failed_fork_loses_worker:
  assumes "pool_start n s" "pool_step\<^sup>*\<^sup>* s s1" "\<not> pl_exited s1" "worker_state s1 i = Down"
    and "pool_step\<^sup>*\<^sup>* (takesig (\<lambda>_. -1) conf_ok SIGCHLD s1) s2" "\<not> pl_exited s2"
  shows "worker_state s2 i = Lost \<and> int i \<notin> snd ` set (pl_running s2)"
proof -
  have f: "fork_ok (\<lambda>_. -1)" by (simp add: fork_ok_def)
  have good: "pool_good n s1" by (rule supervisor.reachable_good [OF assms(1,2)])
  then have inv: "pool_inv n s1" using assms(3) by (simp add: pool_good_def)
  let ?t = "takesig (\<lambda>_. -1) conf_ok SIGCHLD s1"
  have t: "\<not> pl_exited ?t" using assms(3) by (simp add: takesig_def)
  have tg: "pool_good n ?t" by (rule takesig_good [OF inv assms(3) f])
  have "worker_state ?t i = Lost"
    using reap_children_workers [OF f inv, of i] assms(4) by (simp add: takesig_def fork_results_def)
  moreover have a: "worker_step\<^sup>*\<^sup>* (pool_abs ?t) (pool_abs s2)" by (rule supervisor.steps_abs [OF assms(5) tg])
  ultimately have l: "worker_state s2 i = Lost"
    using worker_steps_lost [OF a, of "worker_state ?t" "worker_state s2" i] t assms(6) by (simp add: pool_abs_def)
  have "pool_inv n s2" using supervisor.steps_good [OF assms(5) tg] assms(6) by (simp add: pool_good_def)
  note g = this [unfolded pool_inv_def]
  have "\<forall>(pid, k)\<in>set (pl_running s2). \<exists>j<n. pid = ch_pid (pl_children s2 ! j) \<and> pid > 1 \<and> k = int j" using g by (elim conjE)
  moreover have "ch_pid (pl_children s2 ! i) = -1" using l by (simp add: worker_state_def split: if_splits)
  ultimately have "int i \<notin> snd ` set (pl_running s2)" by force
  then show ?thesis using l by blast
qed

lemma failed_fork_loses_worker_witness:
  "\<exists>s1. pool_step demo_pool s1 \<and> worker_state s1 0 = Down \<and>
     worker_state (takesig (\<lambda>_. -1) True SIGCHLD s1) 0 = Lost"
proof -
  let ?s1 = "demo_pool\<lparr>pl_running := [(4, 1)], pl_dead := [2]\<rparr>"
  have st: "pool_step demo_pool ?s1"
    by (rule pool_step.child_ends [OF demo_pool_exited, of 2 0]) (simp_all add: demo_pool_state)
  have d: "worker_state ?s1 0 = Down" by (simp add: worker_state_def demo_pool_state)
  have e: "\<not> pl_exited ?s1" "\<not> pl_exited (takesig (\<lambda>_. -1) True SIGCHLD ?s1)"
    using demo_pool_exited by (simp_all add: takesig_def)
  have "pool_step\<^sup>*\<^sup>* demo_pool ?s1" using st by (rule r_into_rtranclp)
  from failed_fork_loses_worker [OF demo_pool_start this e(1) d rtranclp.rtrancl_refl e(2)] st d show ?thesis by blast
qed

text \<open>
  C32: A worker with a limit on its messages ends: as long as each round finds a message it does within
  as many rounds as the limit, and then it has handled at least that many; without a limit it goes on
  until it is told to end.
\<close>

theorem child_main_ends:
  assumes "\<forall>(hup, k)\<in>set rounds. \<not> hup \<and> (\<exists>j\<ge>1. k = Some j)"
  shows "if 0 < cfg_max_requests_per_child cfg
    then cfg_max_requests_per_child cfg \<le> int (length rounds) \<longrightarrow>
      (\<exists>m\<ge>cfg_max_requests_per_child cfg. child_main cfg rounds = Some m)
    else child_main cfg rounds = None"
proof (cases "0 < cfg_max_requests_per_child cfg")
  case True
  have h: "\<forall>(hup, k)\<in>set rounds. hup \<or> (\<exists>j\<ge>1. k = Some j)" and n: "\<forall>(hup, k)\<in>set rounds. \<not> hup" using assms by auto
  have "child_rounds cfg rs m = Some r \<Longrightarrow> \<forall>(hup, k)\<in>set rs. \<not> hup \<Longrightarrow> r \<ge> cfg_max_requests_per_child cfg" for rs m r
    by (induction cfg rs m rule: child_rounds.induct) (auto simp: Let_def split: if_splits)
  then show ?thesis using child_rounds_end [OF h True, of 0] n True by (auto simp: child_main_def)
next
  case False
  then have "child_rounds cfg rounds 0 = None" using assms by (intro child_rounds_unlimited) auto
  then show ?thesis using False by (simp add: child_main_def)
qed

lemma child_main_ends_witness:
  "\<exists>m\<ge>2. child_main (default_config []\<lparr>cfg_max_requests_per_child := 2\<rparr>) [(False, Some 1), (False, Some 3)] = Some m"
  using child_main_ends [of "[(False, Some 1), (False, Some 3)]" "default_config []\<lparr>cfg_max_requests_per_child := 2\<rparr>"] by simp

end
