(* ===== verification/Xxh3.thy ===== *)
theory Xxh3
  imports Kospam_Prelude
begin

text \<open>
  \<open>src/xxh3_64.c\<close>: the 64 bit key of a token.  All arithmetic is on \<open>64 word\<close>, which wraps as
  \<open>unsigned long long\<close> does; a block is read as the eight bytes of a little endian word.
\<close>

unbundle bit_operations_syntax

abbreviation XXH3_PRIME64_1 :: "64 word" where
  "XXH3_PRIME64_1 \<equiv> 0x9E3779B185EBCA87"

abbreviation XXH3_PRIME64_2 :: "64 word" where
  "XXH3_PRIME64_2 \<equiv> 0xC2B2AE3D27D4EB4F"

abbreviation XXH3_PRIME64_3 :: "64 word" where
  "XXH3_PRIME64_3 \<equiv> 0x165667B19E3779F9"

text \<open>\<open>(x << n) | (x >> (64 - n))\<close> and \<open>x ^ (x >> n)\<close>.\<close>

definition rotl64 :: "nat \<Rightarrow> 64 word \<Rightarrow> 64 word" where
  "rotl64 n x = push_bit n x OR drop_bit (64 - n) x"

definition xorshift :: "nat \<Rightarrow> 64 word \<Rightarrow> 64 word" where
  "xorshift n x = x XOR drop_bit n x"

text \<open>The value of up to eight bytes, the first the least significant.\<close>

primrec le_bytes :: "string \<Rightarrow> 64 word" where
  "le_bytes [] = 0"
| "le_bytes (c # s) = of_char c OR push_bit 8 (le_bytes s)"

definition mix_k :: "64 word \<Rightarrow> 64 word" where
  "mix_k k = rotl64 31 (k * XXH3_PRIME64_2) * XXH3_PRIME64_1"

definition xxh3_round :: "64 word \<Rightarrow> 64 word \<Rightarrow> 64 word" where
  "xxh3_round h k = rotl64 27 (h XOR mix_k k) * XXH3_PRIME64_3"

text \<open>The loop over whole blocks, then the fall-through switch on the remaining bytes.\<close>

fun xxh3_loop :: "64 word \<Rightarrow> string \<Rightarrow> 64 word" where
  "xxh3_loop h s =
     (if 8 \<le> length s then xxh3_loop (xxh3_round h (le_bytes (take 8 s))) (drop 8 s)
      else if s = [] then h
      else h XOR mix_k (le_bytes s))"

declare xxh3_loop.simps [simp del]

definition xxh3_final :: "64 word \<Rightarrow> 64 word" where
  "xxh3_final h = xorshift 32 (xorshift 29 (xorshift 33 h * XXH3_PRIME64_2) * XXH3_PRIME64_3)"

definition xxh3_64 :: "string \<Rightarrow> 64 word" where
  "xxh3_64 s = xxh3_final (xxh3_loop (XXH3_PRIME64_1 + of_nat (length s) * XXH3_PRIME64_2) s)"

text \<open>The vectors of \<open>src/tests.c\<close>, \<open>test_xxh3_64\<close>.\<close>

lemma xxh3_64_vectors:
  "xxh3_64 ''hello'' = 8327191403669471562"
  "xxh3_64 ''beautiful'' = 9895763730955755674"
  "xxh3_64 ''morning+sunshine'' = 17884616789552791443"
  "xxh3_64 '''' = 13315799867417602922"
  "xxh3_64 ''A'' = 9742785211322600093"
  by (code_simp)+

section \<open>Every step is injective\<close>

lemma rotl64_inj [word_inj]: "n < 64 \<Longrightarrow> rotl64 n x = rotl64 n y \<Longrightarrow> x = y"
proof (rule bit_word_eqI)
  fix i :: nat
  assume n: "n < 64" and e: "rotl64 n x = rotl64 n y" and "i < LENGTH(64)"
  then have i: "i < 64" by simp
  show "bit x i = bit y i"
  proof (cases "i + n < 64")
    case True
    have "bit (rotl64 n z) (i + n) = bit z i" for z :: "64 word"
      using True n by (auto simp: rotl64_def bit_or_iff bit_push_bit_iff bit_drop_bit_eq
          dest: bit_imp_le_length)
    then show ?thesis using e by metis
  next
    case False
    have "bit (rotl64 n z) (i + n - 64) = bit z i" for z :: "64 word"
      using False n i by (auto simp: rotl64_def bit_or_iff bit_push_bit_iff bit_drop_bit_eq add.commute)
    then show ?thesis using e by metis
  qed
qed

lemma xorshift_inj [word_inj]: "0 < n \<Longrightarrow> xorshift n x = xorshift n y \<Longrightarrow> x = y"
proof (rule bit_word_eqI)
  fix i :: nat
  assume n: "0 < n" and e: "xorshift n x = xorshift n y"
  have step: "bit x i = bit y i" if "bit x (i + n) = bit y (i + n)" for i
  proof -
    have "bit (xorshift n z) i = (bit z i \<noteq> bit z (i + n))" for z :: "64 word"
      by (simp add: xorshift_def bit_xor_iff bit_drop_bit_eq add.commute)
    then show ?thesis using e that by metis
  qed
  show "bit x i = bit y i"
  proof (induction "64 - i" arbitrary: i rule: less_induct)
    case less
    show ?case
    proof (cases "i < 64")
      case True
      then show ?thesis using less.hyps [of "i + n"] n step by simp
    next
      case False
      then have "\<not> bit z i" for z :: "64 word" by (auto dest: bit_imp_le_length)
      then show ?thesis by simp
    qed
  qed
qed

lemma XXH3_PRIMES_inverse:
  "(614540362697595703 :: 64 word) * XXH3_PRIME64_1 = 1"
  "(839798700976720815 :: 64 word) * XXH3_PRIME64_2 = 1"
  "(16855272203555305545 :: 64 word) * XXH3_PRIME64_3 = 1"
  by simp_all

lemmas prime_mult_inj [word_inj] = XXH3_PRIMES_inverse [THEN inj_word_mult_odd]

lemma xor_left_inj [word_inj]: "(h :: 64 word) XOR x = h XOR y \<Longrightarrow> x = y"
  by (auto simp: bit_eq_iff bit_xor_iff)

lemma xor_right_inj [word_inj]: "(x :: 64 word) XOR k = y XOR k \<Longrightarrow> x = y"
  by (auto simp: bit_eq_iff bit_xor_iff)

lemma mix_k_inj [word_inj]: "mix_k x = mix_k y \<Longrightarrow> x = y"
  unfolding mix_k_def
  by (rule prime_mult_inj(2), rule rotl64_inj [of 31], simp, erule prime_mult_inj(1))

lemma xxh3_final_inj [word_inj]: "xxh3_final x = xxh3_final y \<Longrightarrow> x = y"
  unfolding xxh3_final_def
  by (rule xorshift_inj [of 33], simp, rule prime_mult_inj(2), rule xorshift_inj [of 29], simp,
      rule prime_mult_inj(3), rule xorshift_inj [of 32], simp, assumption)

lemma xxh3_round_inj_block [word_inj]: "xxh3_round h x = xxh3_round h y \<Longrightarrow> x = y"
  unfolding xxh3_round_def
  by (rule mix_k_inj, rule xor_left_inj, rule rotl64_inj [of 27], simp, erule prime_mult_inj(3))

lemma xxh3_round_inj_state [word_inj]: "xxh3_round g x = xxh3_round h x \<Longrightarrow> g = h"
  unfolding xxh3_round_def
  by (rule xor_right_inj, rule rotl64_inj [of 27], simp, erule prime_mult_inj(3))

lemma xxh3_loop_inj_state: "xxh3_loop g s = xxh3_loop h s \<Longrightarrow> g = h"
proof (induction s arbitrary: g h rule: length_induct)
  case (1 s)
  show ?case
  proof (cases "8 \<le> length s")
    case True
    then have "length (drop 8 s) < length s" by simp
    moreover have "xxh3_loop (xxh3_round g (le_bytes (take 8 s))) (drop 8 s) =
        xxh3_loop (xxh3_round h (le_bytes (take 8 s))) (drop 8 s)"
      using True "1.prems" by (simp add: xxh3_loop.simps [of _ s])
    ultimately show ?thesis using "1.IH" xxh3_round_inj_state by blast
  next
    case False
    then show ?thesis using "1.prems" xor_right_inj
      by (auto simp: xxh3_loop.simps [of _ s] split: if_splits)
  qed
qed

lemma of_char_word: "(of_char c :: 64 word) = of_nat (byte c)"
  by (rule of_nat_of_char [symmetric])

lemma bit_of_char: "bit (of_char c :: 64 word) i \<Longrightarrow> i < 8"
proof -
  assume "bit (of_char c :: 64 word) i"
  then have "bit (byte c) i" unfolding of_char_word by (simp only: bit_of_nat_iff)
  moreover have "byte c = take_bit 8 (byte c)" using byte_less_256 [of c] by (simp add: take_bit_nat_eq_self)
  ultimately show "i < 8" by (metis bit_take_bit_iff)
qed

lemma bit_le_bytes: "length s \<le> 8 \<Longrightarrow> bit (le_bytes s) i \<Longrightarrow> i < 8 * length s"
proof (induction s arbitrary: i)
  case (Cons c s)
  show ?case
    using Cons.prems Cons.IH [of "i - 8"] bit_of_char [of c i]
    by (auto simp: bit_or_iff bit_push_bit_iff)
qed simp

lemma le_bytes_inj: "length s = length t \<Longrightarrow> length s \<le> 8 \<Longrightarrow> le_bytes s = le_bytes t \<Longrightarrow> s = t"
proof (induction s t rule: list_induct2)
  case (Cons c s d t)
  have low: "bit (le_bytes (a # u)) i = bit (of_char a :: 64 word) i" if "i < 8" for a u i
    using that by (auto simp: bit_or_iff bit_push_bit_iff)
  have high: "bit (le_bytes (a # u)) (i + 8) = bit (le_bytes u) i" if "i < 56" for a u i
    using that by (auto simp: bit_or_iff bit_push_bit_iff dest: bit_of_char)
  have "(of_char c :: 64 word) = of_char d"
  proof (rule bit_word_eqI)
    fix i show "bit (of_char c :: 64 word) i = bit (of_char d :: 64 word) i"
      using low Cons.prems(2) bit_of_char by metis
  qed
  then have "unat (of_char c :: 64 word) = unat (of_char d :: 64 word)" by simp
  then have "byte c = byte d"
    by (simp only: of_char_word unat_of_nat mod_less [OF byte_less_256_word])
  moreover have "le_bytes s = le_bytes t"
  proof (rule bit_word_eqI)
    fix i show "bit (le_bytes s) i = bit (le_bytes t) i"
    proof (cases "i < 56")
      case True
      then show ?thesis using high Cons.prems(2) by metis
    next
      case False
      then have "\<not> i < 8 * length s" "\<not> i < 8 * length t" using Cons by auto
      then show ?thesis using bit_le_bytes Cons.prems(1) Cons.hyps by (metis Suc_leD length_Cons)
    qed
  qed
  ultimately show ?case using Cons by simp
qed simp

lemma xxh3_loop_append:
  "length u mod 8 = 0 \<Longrightarrow> xxh3_loop h (u @ v) = xxh3_loop (xxh3_loop h u) v"
proof (induction u arbitrary: h rule: length_induct)
  case (1 u)
  show ?case
  proof (cases "8 \<le> length u")
    case True
    then have "length (drop 8 u) < length u" "length (drop 8 u) mod 8 = 0"
      using "1.prems" by (simp_all add: mod_eq_0_iff_dvd dvd_diff_nat)
    with True 1 show ?thesis
      by (simp add: xxh3_loop.simps [of h "u @ v"] xxh3_loop.simps [of h u])
  next
    case False
    then have "u = []" using "1.prems" by simp
    then show ?thesis by (simp add: xxh3_loop.simps [of h "[]"])
  qed
qed

lemma xxh3_loop_block_inj:
  assumes "length s = length t" and "length s \<le> 8" and "length s = 8 \<or> w = []"
    and "xxh3_loop h (s @ w) = xxh3_loop h (t @ w)"
  shows "s = t"
proof (cases "length s = 8")
  case True
  then have "xxh3_loop (xxh3_round h (le_bytes s)) w = xxh3_loop (xxh3_round h (le_bytes t)) w"
    using assms by (simp add: xxh3_loop.simps [of h "s @ w"] xxh3_loop.simps [of h "t @ w"])
  then have "le_bytes s = le_bytes t"
    by (rule xxh3_round_inj_block [OF xxh3_loop_inj_state])
  then show ?thesis using assms le_bytes_inj by blast
next
  case False
  then have w: "w = []" "length s < 8" using assms by auto
  show ?thesis
  proof (cases "s = []")
    case False
    then have "h XOR mix_k (le_bytes s) = h XOR mix_k (le_bytes t)"
      using assms w by (auto simp: xxh3_loop.simps [of h s] xxh3_loop.simps [of h t])
    then have "le_bytes s = le_bytes t" by (rule mix_k_inj [OF xor_left_inj])
    then show ?thesis using assms le_bytes_inj by blast
  qed (use assms in simp)
qed

lemma xxh3_64_short_inj:
  "length s = length t \<Longrightarrow> length s \<le> 8 \<Longrightarrow> xxh3_64 s = xxh3_64 t \<Longrightarrow> s = t"
  using xxh3_loop_block_inj [of s t "[]"] by (auto simp: xxh3_64_def dest: xxh3_final_inj)

text \<open>
  C13: two tokens of the same length that differ only inside one aligned block of eight bytes
  (or inside the last, shorter block) never get the same key.  In particular no two tokens of
  equal length up to eight bytes collide.
\<close>

theorem xxh3_64_no_collision:
  assumes "length s = length t" and "length s \<le> 8" and "length u mod 8 = 0"
    and "length s = 8 \<or> w = []"
    and "xxh3_64 (u @ s @ w) = xxh3_64 (u @ t @ w)"
  shows "s = t"
proof -
  let ?h = "XXH3_PRIME64_1 + of_nat (length (u @ s @ w)) * XXH3_PRIME64_2"
  have "xxh3_loop ?h (u @ s @ w) = xxh3_loop ?h (u @ t @ w)"
    using assms(1,5) by (auto simp: xxh3_64_def dest: xxh3_final_inj)
  then have "xxh3_loop (xxh3_loop ?h u) (s @ w) = xxh3_loop (xxh3_loop ?h u) (t @ w)"
    by (simp only: xxh3_loop_append [OF assms(3)])
  then show ?thesis using assms xxh3_loop_block_inj by blast
qed

theorem xxh3_64_no_collision_witness:
  "xxh3_64 ''morning+sunshine'' \<noteq> xxh3_64 ''morning+moonrise''"
proof
  assume "xxh3_64 ''morning+sunshine'' = xxh3_64 ''morning+moonrise''"
  then have "xxh3_64 (''morning+'' @ ''sunshine'' @ []) = xxh3_64 (''morning+'' @ ''moonrise'' @ [])" by simp
  then have "''sunshine'' = ''moonrise''"
    by (rule xxh3_64_no_collision [where u = "''morning+''" and w = "[]", rotated -1]) simp_all
  then show False by simp
qed

end
