(* ===== verification/Token_Hash.thy ===== *)
theory Token_Hash
  imports C_Float Xxh3 "HOL-Library.Multiset"
begin

text \<open>
  \<open>src/hash.c\<close>: the table of the tokens of a message.  The array \<open>struct node *token_hash[MAXHASH]\<close>
  is a function from the bucket number to the chain, a list of nodes in the order of the \<open>r\<close>
  pointers.  \<open>addnode\<close> and \<open>makenewnode\<close> take whether the two calls of \<open>malloc\<close> succeed; a NULL
  string argument, which no caller passes, is left out.

  The locale \<open>token_map\<close> is the interface the tokenizer and the statistical engine rely on.
\<close>

abbreviation MAXHASH :: nat where
  "MAXHASH \<equiv> 8171"

record node =
  n_str :: string
  n_key :: "64 word"
  n_spaminess :: fp
  n_deviation :: fp
  n_nham :: real
  n_nspam :: real
  n_type :: int

type_synonym hashtab = "nat \<Rightarrow> node list"

definition hash :: "64 word \<Rightarrow> nat" where
  "hash key = unat key mod MAXHASH"

definition inithash :: hashtab where
  "inithash = (\<lambda>i. [])"

definition makenewnode :: "bool \<Rightarrow> string \<Rightarrow> fp \<Rightarrow> fp \<Rightarrow> node option" where
  "makenewnode malloc_ok s spaminess deviation =
     (if \<not> malloc_ok then None
      else Some \<lparr>n_str = s, n_key = xxh3_64 s, n_spaminess = spaminess, n_deviation = deviation,
             n_nham = 0, n_nspam = 0,
             n_type = (if CHR ''*'' \<in> set s \<or> CHR ''+'' \<in> set s \<or> CHR '':'' \<in> set s \<or> CHR ''%'' \<in> set s
                       then 1 else 0)\<rparr>)"

text \<open>The walk along a chain: \<open>True\<close> when a node with the key is on it.\<close>

fun chain_has :: "node list \<Rightarrow> 64 word \<Rightarrow> bool" where
  "chain_has [] key = False"
| "chain_has (p # ps) key = (if n_key p = key then True else chain_has ps key)"

definition addnode_with :: "bool \<Rightarrow> hashtab \<Rightarrow> string \<Rightarrow> fp \<Rightarrow> fp \<Rightarrow> hashtab \<times> int" where
  "addnode_with malloc_ok xhash s spaminess deviation =
     (let key = xxh3_64 s;
          chain = xhash (hash key);
          new = (case makenewnode malloc_ok s spaminess deviation of None \<Rightarrow> [] | Some n \<Rightarrow> [n])
      in if chain = [] then (xhash(hash key := new), 1)
         else if chain_has chain key then (xhash, 0)
         else (xhash(hash key := chain @ new), 1))"

abbreviation addnode :: "hashtab \<Rightarrow> string \<Rightarrow> fp \<Rightarrow> fp \<Rightarrow> hashtab" where
  "addnode xhash s spaminess deviation \<equiv> fst (addnode_with True xhash s spaminess deviation)"

fun chain_find :: "node list \<Rightarrow> 64 word \<Rightarrow> node option" where
  "chain_find [] key = None"
| "chain_find (q # qs) key = (if n_key q = key then Some q else chain_find qs key)"

definition findkey :: "hashtab \<Rightarrow> 64 word \<Rightarrow> node option" where
  "findkey xhash key = chain_find (xhash (hash key)) key"

definition findnode :: "hashtab \<Rightarrow> string \<Rightarrow> node option" where
  "findnode xhash s = findkey xhash (xxh3_64 s)"

text \<open>\<open>updatenode\<close>: the first node with the key, if any; the flag is the returned 1 or 0.\<close>

definition bump_node :: "real \<Rightarrow> real \<Rightarrow> real \<Rightarrow> real \<Rightarrow> node \<Rightarrow> node" where
  "bump_node nham nspam spaminess deviation q =
     (let q' = q\<lparr>n_nham := n_nham q + nham, n_nspam := n_nspam q + nspam\<rparr>
      in if spaminess \<noteq> DEFAULT_SPAMICITY
         then q'\<lparr>n_spaminess := Fin spaminess, n_deviation := Fin deviation\<rparr> else q')"

fun chain_update :: "node list \<Rightarrow> 64 word \<Rightarrow> (node \<Rightarrow> node) \<Rightarrow> node list \<times> int" where
  "chain_update [] key f = ([], 0)"
| "chain_update (q # qs) key f =
     (if n_key q = key then (f q # qs, 1)
      else (q # fst (chain_update qs key f), snd (chain_update qs key f)))"

definition updatenode :: "hashtab \<Rightarrow> 64 word \<Rightarrow> real \<Rightarrow> real \<Rightarrow> real \<Rightarrow> real \<Rightarrow> hashtab \<times> int" where
  "updatenode xhash key nham nspam spaminess deviation =
     (let (c, r) = chain_update (xhash (hash key)) key (bump_node nham nspam spaminess deviation)
      in (xhash(hash key := c), r))"

text \<open>The loops over the whole table visit the buckets in order and each chain from its head.\<close>

definition all_nodes :: "hashtab \<Rightarrow> node list" where
  "all_nodes xhash = concat (map xhash [0..<MAXHASH])"

definition map_nodes :: "(node \<Rightarrow> node) \<Rightarrow> hashtab \<Rightarrow> hashtab" where
  "map_nodes f xhash = (\<lambda>i. if i < MAXHASH then map f (xhash i) else xhash i)"

definition resetcounters :: "hashtab \<Rightarrow> hashtab" where
  "resetcounters xhash = map_nodes (\<lambda>q. q\<lparr>n_nham := 0, n_nspam := 0\<rparr>) xhash"

definition clearhash :: "hashtab \<Rightarrow> hashtab" where
  "clearhash xhash = (\<lambda>i. if i < MAXHASH then [] else xhash i)"

definition printhash :: "hashtab \<Rightarrow> string list" where
  "printhash xhash = map n_str (all_nodes xhash)"

definition count_existing_tokens_in_token_table :: "hashtab \<Rightarrow> nat" where
  "count_existing_tokens_in_token_table xhash =
     length (filter (\<lambda>q. n_nham q + n_nspam q > 0) (all_nodes xhash))"

section \<open>The table invariant\<close>

definition wf_chain :: "nat \<Rightarrow> node list \<Rightarrow> bool" where
  "wf_chain i c \<longleftrightarrow> (\<forall>q\<in>set c. n_key q = xxh3_64 (n_str q) \<and> hash (xxh3_64 (n_str q)) = i) \<and>
     distinct (map n_key c)"

definition wf_tab :: "hashtab \<Rightarrow> bool" where
  "wf_tab t \<longleftrightarrow> (\<forall>i. wf_chain i (t i))"

lemma hash_less [simp]: "hash key < MAXHASH"
  by (simp add: hash_def)

lemma chain_has_iff: "chain_has c key \<longleftrightarrow> key \<in> n_key ` set c"
  by (induction c) auto

lemma chain_find_None_iff: "chain_find c key = None \<longleftrightarrow> key \<notin> n_key ` set c"
  by (induction c) auto

lemma chain_find_SomeD: "chain_find c key = Some q \<Longrightarrow> q \<in> set c \<and> n_key q = key"
  by (induction c) (auto split: if_splits)

lemma chain_find_member:
  "distinct (map n_key c) \<Longrightarrow> q \<in> set c \<Longrightarrow> chain_find c (n_key q) = Some q"
  by (induction c) (auto simp: rev_image_eqI)

lemma chain_find_append:
  "chain_find (c @ d) key = (case chain_find c key of None \<Rightarrow> chain_find d key | Some q \<Rightarrow> Some q)"
  by (induction c) auto

lemma makenewnode_False [simp]: "makenewnode False s p d = None"
  by (simp add: makenewnode_def)

lemma makenewnode_None_iff: "makenewnode m s p d = None \<longleftrightarrow> \<not> m"
  by (simp add: makenewnode_def)

lemma makenewnode_SomeD:
  "makenewnode m s p d = Some n \<Longrightarrow>
   n_str n = s \<and> n_key n = xxh3_64 s \<and> n_spaminess n = p \<and> n_deviation n = d \<and> n_nham n = 0 \<and> n_nspam n = 0"
  by (auto simp: makenewnode_def split: if_splits)

lemma addnode_unfold:
  "addnode_with m t s p d =
     (if chain_has (t (hash (xxh3_64 s))) (xxh3_64 s) then (t, 0)
      else (t(hash (xxh3_64 s) := t (hash (xxh3_64 s)) @
             (case makenewnode m s p d of None \<Rightarrow> [] | Some n \<Rightarrow> [n])), 1))"
  by (auto simp: addnode_with_def Let_def)

lemma wf_inithash [simp]: "wf_tab inithash"
  by (simp add: wf_tab_def wf_chain_def inithash_def)

lemma wf_chain_snoc:
  "wf_chain i c \<Longrightarrow> n_key n = xxh3_64 (n_str n) \<Longrightarrow> hash (n_key n) = i \<Longrightarrow> n_key n \<notin> n_key ` set c \<Longrightarrow>
   wf_chain i (c @ [n])"
  by (auto simp: wf_chain_def)

lemma wf_addnode [intro]:
  assumes "wf_tab t"
  shows "wf_tab (fst (addnode_with m t s p d))"
proof (cases "makenewnode m s p d")
  case None
  then show ?thesis using assms by (simp add: addnode_unfold makenewnode_None_iff)
next
  case (Some n)
  have "wf_chain (hash (xxh3_64 s)) (t (hash (xxh3_64 s)) @ [n])"
    if "\<not> chain_has (t (hash (xxh3_64 s))) (xxh3_64 s)"
    using makenewnode_SomeD [OF Some] that assms
    by (intro wf_chain_snoc) (auto simp: wf_tab_def chain_has_iff)
  then show ?thesis using assms Some by (auto simp: addnode_unfold wf_tab_def)
qed

lemma chain_update_keys:
  "(\<And>q. n_key (f q) = n_key q) \<Longrightarrow> map n_key (fst (chain_update c key f)) = map n_key c"
  by (induction c) auto

lemma bump_node_key [simp]:
  "n_key (bump_node a b p d q) = n_key q" "n_str (bump_node a b p d q) = n_str q"
  "n_type (bump_node a b p d q) = n_type q"
  by (simp_all add: bump_node_def Let_def)

lemma chain_update_set:
  "q \<in> set (fst (chain_update c key f)) \<Longrightarrow> q \<in> set c \<or> (\<exists>q'\<in>set c. q = f q')"
  by (induction c) (auto split: if_splits)

lemma wf_updatenode [intro]: "wf_tab t \<Longrightarrow> wf_tab (fst (updatenode t k a b p d))"
  by (auto simp: wf_tab_def wf_chain_def updatenode_def case_prod_beta Let_def chain_update_keys
      dest!: chain_update_set)

lemma wf_map_nodes:
  "(\<And>q. n_key (f q) = n_key q) \<Longrightarrow> (\<And>q. n_str (f q) = n_str q) \<Longrightarrow> wf_tab t \<Longrightarrow> wf_tab (map_nodes f t)"
  by (auto simp: wf_tab_def wf_chain_def map_nodes_def comp_def)

lemma wf_resetcounters [intro]: "wf_tab t \<Longrightarrow> wf_tab (resetcounters t)"
  unfolding resetcounters_def by (rule wf_map_nodes) auto

lemma wf_clearhash [intro]: "wf_tab t \<Longrightarrow> wf_tab (clearhash t)"
  by (simp add: wf_tab_def wf_chain_def clearhash_def)

lemma wf_tab_member: "wf_tab t \<Longrightarrow> q \<in> set (t i) \<Longrightarrow> hash (n_key q) = i \<and> n_key q = xxh3_64 (n_str q)"
  by (auto simp: wf_tab_def wf_chain_def)

lemma wf_tab_bucket:
  assumes "wf_tab t" and "MAXHASH \<le> i"
  shows "t i = []"
proof (rule ccontr)
  assume "t i \<noteq> []"
  then have "hash (n_key (hd (t i))) = i" using wf_tab_member [OF assms(1)] by simp
  then show False using hash_less [of "n_key (hd (t i))"] assms(2) by simp
qed

lemma set_all_nodes: "set (all_nodes t) = (\<Union>i<MAXHASH. set (t i))"
  by (auto simp: all_nodes_def)

lemma distinct_all_nodes: "wf_tab t \<Longrightarrow> distinct (map n_key (all_nodes t))"
proof -
  assume w: "wf_tab t"
  have "distinct (map n_key (concat (map t [0..<n])))" for n
  proof (induction n)
    case (Suc n)
    have "distinct (map n_key (t n))" using w by (simp add: wf_tab_def wf_chain_def)
    moreover have "n_key ` (\<Union>i<n. set (t i)) \<inter> n_key ` set (t n) = {}"
    proof -
      have "i = n" if "q \<in> set (t i)" "q' \<in> set (t n)" "n_key q = n_key q'" for i q q'
        using wf_tab_member [OF w that(1)] wf_tab_member [OF w that(2)] that(3) by metis
      then show ?thesis by fastforce
    qed
    ultimately show ?case using Suc by (simp add: lessThan_atLeast0)
  qed simp
  then show ?thesis by (simp add: all_nodes_def)
qed

lemma member_all_nodes:
  assumes "wf_tab t"
  shows "q \<in> set (all_nodes t) \<longleftrightarrow> findkey t (n_key q) = Some q"
proof
  assume "q \<in> set (all_nodes t)"
  then obtain i where q: "q \<in> set (t i)" by (auto simp: set_all_nodes)
  have "hash (n_key q) = i" using wf_tab_member [OF assms q] by blast
  moreover have "distinct (map n_key (t i))" using assms by (simp add: wf_tab_def wf_chain_def)
  ultimately show "findkey t (n_key q) = Some q"
    unfolding findkey_def using chain_find_member [OF _ q] by metis
next
  assume "findkey t (n_key q) = Some q"
  then show "q \<in> set (all_nodes t)"
    using chain_find_SomeD [of "t (hash (n_key q))" "n_key q" q] hash_less
    by (auto simp: findkey_def set_all_nodes)
qed

section \<open>The interface: a map that keeps the first entry of a key\<close>

text \<open>
  What the clients of the table use: \<open>insert s v\<close> stores a node for \<open>s\<close> unless the key of \<open>s\<close> is
  taken.
\<close>

locale token_map =
  fixes empty :: 't
    and insert :: "string \<Rightarrow> 'v \<Rightarrow> 't \<Rightarrow> 't"
    and lookup :: "'t \<Rightarrow> 64 word \<Rightarrow> 'n option"
    and entry :: "string \<Rightarrow> 'v \<Rightarrow> 'n"
    and invar :: "'t \<Rightarrow> bool"
  assumes lookup_empty: "lookup empty k = None"
    and lookup_insert: "invar t \<Longrightarrow> lookup (insert s v t) k =
      (if k = xxh3_64 s \<and> lookup t k = None then Some (entry s v) else lookup t k)"
    and invar_empty: "invar empty"
    and invar_insert: "invar t \<Longrightarrow> invar (insert s v t)"
begin

lemma invar_inserts: "invar t \<Longrightarrow> invar (fold (\<lambda>(s, v). insert s v) xs t)"
  by (induction xs arbitrary: t) (auto intro: invar_insert)

lemma lookup_insert_mono: "invar t \<Longrightarrow> lookup t k = Some n \<Longrightarrow> lookup (insert s v t) k = Some n"
  by (simp add: lookup_insert)

text \<open>After a run of insertions a key holds its old entry, else the first one inserted for it.\<close>

lemma lookup_inserts:
  "invar t \<Longrightarrow> lookup (fold (\<lambda>(s, v). insert s v) xs t) k =
     (case lookup t k of Some n \<Rightarrow> Some n
      | None \<Rightarrow> map_option (\<lambda>(s, v). entry s v) (List.find (\<lambda>(s, v). xxh3_64 s = k) xs))"
proof (induction xs arbitrary: t)
  case Nil
  then show ?case by (simp split: option.split)
next
  case (Cons x xs)
  obtain s v where x: "x = (s, v)" by (cases x)
  show ?case
    using Cons.IH [OF invar_insert [OF Cons.prems]] Cons.prems
    by (auto simp: x lookup_insert split: option.splits)
qed

lemma lookup_inserts_None_iff:
  "invar t \<Longrightarrow> lookup (fold (\<lambda>(s, v). insert s v) xs t) k = None \<longleftrightarrow>
     lookup t k = None \<and> k \<notin> xxh3_64 ` fst ` set xs"
  by (auto simp: lookup_inserts find_None_iff split: option.splits) force+

text \<open>Inserting twice is inserting once.\<close>

lemma lookup_insert_idem:
  "invar t \<Longrightarrow> lookup (insert s v (insert s w t)) = lookup (insert s w t)"
  by (auto simp: fun_eq_iff lookup_insert invar_insert)

end

definition new_node :: "string \<Rightarrow> fp \<times> fp \<Rightarrow> node" where
  "new_node s v = the (makenewnode True s (fst v) (snd v))"

lemma findkey_inithash [simp]: "findkey inithash k = None"
  by (simp add: findkey_def inithash_def)

lemma findkey_addnode:
  "wf_tab t \<Longrightarrow> findkey (addnode t s p d) k =
     (if k = xxh3_64 s \<and> findkey t k = None then Some (new_node s (p, d)) else findkey t k)"
proof -
  assume "wf_tab t"
  have mk: "makenewnode True s p d = Some (new_node s (p, d))"
    by (simp add: new_node_def makenewnode_def)
  have key: "n_key (new_node s (p, d)) = xxh3_64 s" using makenewnode_SomeD [OF mk] by simp
  show ?thesis
  proof (cases "chain_has (t (hash (xxh3_64 s))) (xxh3_64 s)")
    case True
    then show ?thesis
      by (auto simp: addnode_unfold findkey_def chain_has_iff chain_find_None_iff)
  next
    case False
    then have "chain_find (t (hash (xxh3_64 s))) (xxh3_64 s) = None"
      by (simp add: chain_has_iff chain_find_None_iff)
    then show ?thesis using False mk key
      by (auto simp: addnode_unfold findkey_def chain_find_append split: option.splits)
  qed
qed

interpretation tokens: token_map inithash "\<lambda>s v t. addnode t s (fst v) (snd v)" findkey new_node wf_tab
  by unfold_locales (auto simp: findkey_addnode)

section \<open>Behaviour of the operations\<close>

text \<open>
  \<open>addnode\<close> is "insert if absent".  It returns 1 exactly when no node has the key of the
  string yet, it then makes the string findable with the given spaminess and deviation and zero
  counters, and it never changes what is found for any other key or a key already present.
\<close>

theorem addnode_insert_if_absent:
  assumes "wf_tab t"
  shows "snd (addnode_with True t s p d) = (if findnode t s = None then 1 else 0) \<and>
     findkey (addnode t s p d) k =
       (if k = xxh3_64 s \<and> findkey t k = None then Some (new_node s (p, d)) else findkey t k) \<and>
     n_spaminess (new_node s (p, d)) = p \<and> n_deviation (new_node s (p, d)) = d \<and>
     n_nham (new_node s (p, d)) = 0 \<and> n_nspam (new_node s (p, d)) = 0"
proof -
  have "chain_has (t (hash (xxh3_64 s))) (xxh3_64 s) \<longleftrightarrow> findnode t s \<noteq> None"
    by (auto simp: findnode_def findkey_def chain_has_iff chain_find_None_iff)
  then show ?thesis using tokens.lookup_insert [OF assms, of s "(p, d)" k]
    by (auto simp: addnode_unfold new_node_def makenewnode_def)
qed

text \<open>A token added a second time with a penalty keeps its first entry.\<close>

theorem addnode_insert_if_absent_witness:
  "findkey (addnode (addnode inithash ''hello'' (Fin 0.5) (Fin 0)) ''hello'' (Fin 0.9999) (Fin 0.4999))
     (xxh3_64 ''hello'') = Some (new_node ''hello'' (Fin 0.5, Fin 0))"
proof -
  have w: "wf_tab (addnode inithash ''hello'' (Fin 0.5) (Fin 0))" by (rule wf_addnode) simp
  show ?thesis
    using addnode_insert_if_absent [OF w, of "''hello''" "Fin 0.9999" "Fin 0.4999" "xxh3_64 ''hello''"]
      addnode_insert_if_absent [OF wf_inithash, of "''hello''" "Fin 0.5" "Fin 0" "xxh3_64 ''hello''"]
    by simp
qed

lemma chain_find_update:
  "(\<And>q. n_key (f q) = n_key q) \<Longrightarrow>
   chain_find (fst (chain_update c key f)) k =
     (if k = key then map_option f (chain_find c k) else chain_find c k)"
  by (induction c) auto

lemma chain_update_result: "snd (chain_update c key f) = (if chain_find c key = None then 0 else 1)"
  by (induction c) auto

lemma findkey_updatenode:
  "findkey (fst (updatenode t key a b p d)) k =
     (if k = key then map_option (bump_node a b p d) (findkey t k) else findkey t k)"
  by (auto simp: updatenode_def findkey_def case_prod_beta Let_def chain_find_update)

lemma updatenode_result:
  "snd (updatenode t key a b p d) = (if findkey t key = None then 0 else 1)"
  by (simp add: updatenode_def findkey_def chain_update_result case_prod_beta Let_def)

text \<open>
  \<open>updatenode\<close> adds the counters to the node with the key (and overwrites its spaminess and
  deviation only for a spaminess other than the default 0.5), touches no other node, and returns
  1 exactly when there is such a node.
\<close>

theorem updatenode_spec:
  "snd (updatenode t key a b p d) = (if findkey t key = None then 0 else 1) \<and>
   findkey (fst (updatenode t key a b p d)) k =
     (if k = key
      then map_option (\<lambda>q. q\<lparr>n_nham := n_nham q + a, n_nspam := n_nspam q + b,
             n_spaminess := (if p = 0.5 then n_spaminess q else Fin p),
             n_deviation := (if p = 0.5 then n_deviation q else Fin d)\<rparr>) (findkey t k)
      else findkey t k)"
proof -
  have "bump_node a b p d = (\<lambda>q. q\<lparr>n_nham := n_nham q + a, n_nspam := n_nspam q + b,
             n_spaminess := (if p = 0.5 then n_spaminess q else Fin p),
             n_deviation := (if p = 0.5 then n_deviation q else Fin d)\<rparr>)"
    by (auto simp: fun_eq_iff bump_node_def Let_def)
  then show ?thesis by (simp only: updatenode_result findkey_updatenode)
qed

section \<open>Histories of a table\<close>

datatype tab_op = Add bool string fp fp | Update "64 word" real real real real | Reset | Clear

fun run_op :: "hashtab \<Rightarrow> tab_op \<Rightarrow> hashtab" where
  "run_op t (Add m s p d) = fst (addnode_with m t s p d)"
| "run_op t (Update k a b p d) = fst (updatenode t k a b p d)"
| "run_op t Reset = resetcounters t"
| "run_op t Clear = clearhash t"

lemma wf_run_op: "wf_tab t \<Longrightarrow> wf_tab (run_op t op)"
  by (cases op) auto

lemma wf_run_ops: "wf_tab t \<Longrightarrow> wf_tab (foldl run_op t ops)"
  by (induction ops arbitrary: t) (auto intro: wf_run_op)

text \<open>
  C7: whatever sequence of operations (allocation failures included) has run since \<open>inithash\<close>,
  every node sits in the bucket of the key of its own string, no key occurs twice in the whole
  table, and the walks over all buckets visit exactly the findable nodes.
\<close>

theorem table_invariant:
  "let t = foldl run_op inithash ops in
     (\<forall>i. list_all (\<lambda>q. n_key q = xxh3_64 (n_str q) \<and> hash (n_key q) = i) (t i)) \<and>
     distinct (map n_key (all_nodes t)) \<and>
     (q \<in> set (all_nodes t) \<longleftrightarrow> findkey t (n_key q) = Some q)"
proof -
  have w: "wf_tab (foldl run_op inithash ops)" by (rule wf_run_ops) simp
  have "list_all (\<lambda>q. n_key q = xxh3_64 (n_str q) \<and> hash (n_key q) = i)
      (foldl run_op inithash ops i)" for i
    unfolding list_all_iff using wf_tab_member [OF w] by blast
  then show ?thesis unfolding Let_def
    using distinct_all_nodes [OF w] member_all_nodes [OF w, of q] by blast
qed

lemma clearhash_wf: "wf_tab t \<Longrightarrow> clearhash t = inithash"
  by (auto simp: clearhash_def inithash_def fun_eq_iff wf_tab_bucket)

lemma all_nodes_update:
  "i < MAXHASH \<Longrightarrow> mset (all_nodes (t(i := t i @ c))) = mset (all_nodes t) + mset c"
proof -
  have "mset (concat (map (t(i := t i @ c)) [0..<n])) =
      mset (concat (map t [0..<n])) + (if i < n then mset c else {#})" for n
    by (induction n) (auto simp: less_Suc_eq)
  then show "i < MAXHASH \<Longrightarrow> ?thesis" by (simp add: all_nodes_def)
qed

lemma mset_addnode:
  "mset (all_nodes (addnode t s p d)) =
     mset (all_nodes t) +
     (if chain_has (t (hash (xxh3_64 s))) (xxh3_64 s) then {#} else {#new_node s (p, d)#})"
  by (auto simp: addnode_unfold all_nodes_update new_node_def makenewnode_def)

lemma length_addnode: "length (all_nodes (addnode t s p d)) \<le> Suc (length (all_nodes t))"
  using arg_cong [OF mset_addnode, of size t s p d] by (auto split: if_splits)

lemma all_nodes_inithash [simp]: "all_nodes inithash = []"
  by (simp add: all_nodes_def inithash_def)

lemma all_nodes_single: "all_nodes (addnode inithash s p d) = [new_node s (p, d)]"
proof -
  have "\<not> chain_has (inithash i) k" for i k by (simp add: inithash_def)
  then show ?thesis using mset_addnode [of inithash s p d] by simp
qed

lemma new_node_simps [simp]:
  "n_str (new_node s v) = s" "n_key (new_node s v) = xxh3_64 s" "n_spaminess (new_node s v) = fst v"
  "n_deviation (new_node s v) = snd v" "n_nham (new_node s v) = 0" "n_nspam (new_node s v) = 0"
  by (simp_all add: new_node_def makenewnode_def)

end
