(* ===== verification/Chi_Square.thy ===== *)
theory Chi_Square
  imports Token_Hash Kospam_Config
begin

text \<open>
  \<open>src/chi.c\<close>: Robinson's combination of the token probabilities (the build without the GSL
  library): the inverse chi-square function in its two variants and \<open>get_spam_probability\<close>.  The
  global variables \<open>makeAdjustments\<close> fills are the record it returns.

  The main facts: both variants compute the survival function of the chi-square distribution, the
  products kept as mantissa and exponent are exact and never underflow, and the combined value is
  a probability, neutral without evidence, symmetric, and monotone in every token.
\<close>

abbreviation MAX_ALLOWABLE_M :: real where
  "MAX_ALLOWABLE_M \<equiv> 700"

definition factorial :: "int \<Rightarrow> real" where
  "factorial x = fold (\<lambda>i f. f * of_int i) [1..x] 1"

text \<open>The partial sums of the loop over \<open>i\<close>; \<open>y\<close> is \<open>-log(fAdjustedProduct)\<close>.\<close>

definition few_sum :: "real \<Rightarrow> int \<Rightarrow> real" where
  "few_sum y k = fold (\<lambda>i s. s + y powi i / factorial i) [0..k - 1] 0"

definition chi2p_few_tokens :: "real \<Rightarrow> real \<Rightarrow> real \<Rightarrow> real" where
  "chi2p_few_tokens fChi iChiDF fESF =
     (let fAdjustedProduct = exp (fESF * (- fChi) / 2);
          iActualSize = iChiDF / 2;
          fEffectiveSize = iActualSize * fESF;
          fSum = few_sum (- ln fAdjustedProduct) (trunc fEffectiveSize);
          fFirstTerm = fAdjustedProduct * fSum;
          fSecondTerm = fAdjustedProduct * (fEffectiveSize - of_int (trunc fEffectiveSize)) *
            (- ln fAdjustedProduct) powi (trunc fEffectiveSize) / factorial (trunc fEffectiveSize)
      in fFirstTerm + fSecondTerm)"

record adjustments =
  iHalfDF :: int
  iAdjustedHalfDF :: int
  fAdjustedProp :: real
  fAdjustedChi :: real
  iAdjustedDF :: int
  fM :: real

definition makeAdjustments :: "real \<Rightarrow> int \<Rightarrow> real \<Rightarrow> adjustments" where
  "makeAdjustments fChi iDF fESF =
     (let half = trunc (of_int iDF / 2);
          ahalf = (if fESF * of_int half + 0.5 > 1 then trunc (fESF * of_int half + 0.5) else 1);
          prop = of_int ahalf / of_int half;
          achi = fChi * prop
      in \<lparr>iHalfDF = half, iAdjustedHalfDF = ahalf, fAdjustedProp = prop, fAdjustedChi = achi,
          iAdjustedDF = ahalf * 2, fM = achi / 2\<rparr>)"

definition many_sum :: "real \<Rightarrow> int \<Rightarrow> real \<times> real" where
  "many_sum m k = fold (\<lambda>i (fSum, fTerm). let t = fTerm * (m / of_int i) in (fSum + t, t))
     [1..k - 1] (exp (- m), exp (- m))"

definition chi2p_many_tokens :: "real \<Rightarrow> int \<Rightarrow> real \<Rightarrow> real" where
  "chi2p_many_tokens fChi iDF fESF =
     (let a = makeAdjustments fChi iDF fESF;
          b = (if fM a > MAX_ALLOWABLE_M
               then makeAdjustments fChi iDF (fESF * (MAX_ALLOWABLE_M / fM a)) else a);
          fSum = fst (many_sum (fM b) (trunc (of_int (iAdjustedDF b) / 2)))
      in if fSum < 1 then fSum else 1)"

text \<open>The \<open>double\<close> \<open>df\<close> becomes an \<open>int\<close> in the call of \<open>chi2p_many_tokens\<close>.\<close>

definition chi2inv :: "real \<Rightarrow> real \<Rightarrow> real \<Rightarrow> real" where
  "chi2inv x df esf = (if df * esf > 25 then chi2p_many_tokens x (trunc df) esf
     else chi2p_few_tokens x df esf)"

section \<open>The product with its own exponent\<close>

record FLOAT =
  mant :: real
  expo :: int

text \<open>\<open>frexp\<close> of the C library: a mantissa in [0.5, 1) and an exponent.\<close>

definition frexp :: "real \<Rightarrow> real \<times> int" where
  "frexp m = (if m = 0 then (0, 0)
     else let e = \<lfloor>log 2 \<bar>m\<bar>\<rfloor> + 1 in (m * 2 powi (- e), e))"

definition mul_FLOAT :: "FLOAT \<Rightarrow> real \<Rightarrow> FLOAT" where
  "mul_FLOAT Q p =
     (let m = mant Q * p
      in if m < 1 / 10 ^ 200
         then \<lparr>mant = fst (frexp m), expo = expo Q + snd (frexp m)\<rparr>
         else Q\<lparr>mant := m\<rparr>)"

definition deviating :: "config \<Rightarrow> node \<Rightarrow> bool" where
  "deviating cfg q \<longleftrightarrow> fle (Fin (cfg_exclusion_radius cfg)) (DEVIATION (n_spaminess q))"

fun fval :: "fp \<Rightarrow> real" where
  "fval (Fin p) = p"
| "fval NaN = 0"

definition prob_step :: "config \<Rightarrow> node \<Rightarrow> FLOAT \<times> FLOAT \<times> nat \<Rightarrow> FLOAT \<times> FLOAT \<times> nat" where
  "prob_step cfg q acc =
     (case acc of (P, Q, n) \<Rightarrow>
        if deviating cfg q
        then (mul_FLOAT P (1 - fval (n_spaminess q)), mul_FLOAT Q (fval (n_spaminess q)), Suc n)
        else (P, Q, n))"

definition ln_FLOAT :: "FLOAT \<Rightarrow> real" where
  "ln_FLOAT P = ln (mant P) + of_int (expo P) * ln 2"

definition get_spam_probability :: "hashtab \<Rightarrow> config \<Rightarrow> real \<times> nat" where
  "get_spam_probability xhash cfg =
     (let (P, Q, n) = fold (prob_step cfg) (all_nodes xhash)
            (\<lparr>mant = 1, expo = 0\<rparr>, \<lparr>mant = 1, expo = 0\<rparr>, 0);
          ln_q = ln_FLOAT Q * cfg_esf_h cfg;
          ln_p = ln_FLOAT P * cfg_esf_s cfg;
          H = chi2inv (-2 * ln_q) (2 * real n) (cfg_esf_h cfg);
          S = chi2inv (-2 * ln_p) (2 * real n) (cfg_esf_s cfg)
      in ((1 + H - S) / 2, n))"

section \<open>The two variants of the chi-square function\<close>

text \<open>Reference: the probability that a Poisson variable with mean \<open>m\<close> is below \<open>n\<close>.\<close>

definition poisson_tail :: "real \<Rightarrow> nat \<Rightarrow> real" where
  "poisson_tail m n = exp (- m) * (\<Sum>i<n. m ^ i / fact i)"

lemma fold_upto_nat:
  "fold f [0..int n - 1] a = fold (\<lambda>i. f (int i)) [0..<n] a"
proof (induction n)
  case (Suc n)
  have "[0..int (Suc n) - 1] = [0..int n - 1] @ [int n]"
    by (simp add: upto_rec2)
  then show ?case using Suc by simp
qed simp

lemma fold_upto1_nat:
  "fold f [1..int n] a = fold (\<lambda>i. f (int (Suc i))) [0..<n] a"
proof (induction n)
  case (Suc n)
  have "[1..int (Suc n)] = [1..int n] @ [int (Suc n)]"
    by (simp add: upto_rec2)
  then show ?case using Suc by simp
qed simp

lemma factorial_nat [simp]: "factorial (int n) = fact n"
proof -
  have "fold (\<lambda>i f. f * real_of_int (int (Suc i))) [0..<n] 1 = fact n"
    by (induction n) (simp_all add: algebra_simps)
  then show ?thesis by (simp add: factorial_def fold_upto1_nat)
qed

lemma few_sum_nat: "few_sum y (int n) = (\<Sum>i<n. y ^ i / fact i)"
proof -
  have "fold (\<lambda>i s. s + y powi (int i) / factorial (int i)) [0..<n] 0 = (\<Sum>i<n. y ^ i / fact i)"
    by (induction n) (simp_all add: power_int_of_nat)
  then show ?thesis by (simp only: few_sum_def fold_upto_nat)
qed

lemma many_sum_nat:
  "many_sum m (int (Suc n)) = (exp (- m) * (\<Sum>i<Suc n. m ^ i / fact i), exp (- m) * (m ^ n / fact n))"
proof -
  have "fold (\<lambda>i (fSum, fTerm). let t = fTerm * (m / of_int (int (Suc i))) in (fSum + t, t))
      [0..<n] (exp (- m), exp (- m)) =
      (exp (- m) * (\<Sum>i<Suc n. m ^ i / fact i), exp (- m) * (m ^ n / fact n))"
  proof (induction n)
    case (Suc n)
    have "exp (- m) * (m ^ n / fact n) * (m / of_int (int (Suc n))) = exp (- m) * (m ^ Suc n / fact (Suc n))"
      by (simp add: field_simps)
    with Suc show ?case by (simp add: Let_def algebra_simps del: fact_Suc power_Suc)
  qed simp
  then show ?thesis by (simp add: many_sum_def fold_upto1_nat)
qed

lemma poisson_tail_nonneg: "0 \<le> m \<Longrightarrow> 0 \<le> poisson_tail m n"
  by (simp add: poisson_tail_def sum_nonneg)

lemma exp_sum_le: "0 \<le> (m::real) \<Longrightarrow> (\<Sum>i<n. m ^ i / fact i) \<le> exp m"
proof -
  assume "0 \<le> m"
  have "(\<Sum>i<n. m ^ i /\<^sub>R fact i) \<le> (\<Sum>i. m ^ i /\<^sub>R fact i)"
    using \<open>0 \<le> m\<close> by (intro sum_le_suminf summable_exp_generic) auto
  then show ?thesis by (simp add: exp_def divide_inverse mult.commute)
qed

lemma poisson_tail_le_1:
  assumes "0 \<le> m"
  shows "poisson_tail m n \<le> 1"
proof -
  have "exp (- m) * (\<Sum>i<n. m ^ i / fact i) \<le> exp (- m) * exp m"
    using exp_sum_le [OF assms] by (intro mult_left_mono) auto
  then show ?thesis by (simp add: poisson_tail_def flip: exp_add)
qed

lemma poisson_tail_0 [simp]: "poisson_tail m 0 = 0"
  by (simp add: poisson_tail_def)

lemma poisson_tail_mono_n: "0 \<le> m \<Longrightarrow> poisson_tail m n \<le> poisson_tail m (Suc n)"
  by (simp add: poisson_tail_def)

lemma DERIV_poisson_tail:
  "((\<lambda>m. poisson_tail m (Suc n)) has_real_derivative - (exp (- m) * (m ^ n / fact n))) (at m)"
proof (induction n)
  case 0
  show ?case unfolding poisson_tail_def by (auto intro!: derivative_eq_intros)
next
  case (Suc n)
  have eq: "(\<lambda>m. poisson_tail m (Suc (Suc n))) =
      (\<lambda>m. poisson_tail m (Suc n) + exp (- m) * (m ^ Suc n / fact (Suc n)))"
    by (simp add: poisson_tail_def fun_eq_iff algebra_simps)
  have "((\<lambda>m. m ^ Suc n / fact (Suc n)) has_real_derivative m ^ n / fact n) (at m)"
  proof -
    have "((\<lambda>m. m ^ Suc n / fact (Suc n)) has_real_derivative
        (real (Suc n) * m ^ n) / fact (Suc n)) (at m)"
      using DERIV_pow [of "Suc n" m] by (intro DERIV_cdivide) simp
    moreover have "(real (Suc n) * m ^ n) / fact (Suc n) = m ^ n / fact n"
      by (simp del: of_nat_Suc)
    ultimately show ?thesis by simp
  qed
  moreover have "((\<lambda>m. exp (- m)) has_real_derivative - exp (- m)) (at m)"
    by (auto intro!: derivative_eq_intros)
  moreover have "- (e * c) + (- e * x + c * e) = - (e * x)" for e c x :: real
    by (simp add: algebra_simps)
  ultimately show ?case
    unfolding eq by (intro DERIV_cong [OF DERIV_add [OF Suc DERIV_mult]])
qed

lemma poisson_tail_antimono:
  assumes "0 \<le> a" and "a \<le> b"
  shows "poisson_tail b n \<le> poisson_tail a n"
proof (cases n)
  case (Suc k)
  have "poisson_tail b (Suc k) \<le> poisson_tail a (Suc k)"
  proof (rule DERIV_nonpos_imp_nonincreasing [OF assms(2)])
    fix m assume "a \<le> m" "m \<le> b"
    then have "- (exp (- m) * (m ^ k / fact k)) \<le> 0" using assms by simp
    then show "\<exists>y. ((\<lambda>m. poisson_tail m (Suc k)) has_real_derivative y) (at m) \<and> y \<le> 0"
      using DERIV_poisson_tail by blast
  qed
  with Suc show ?thesis by simp
qed simp

lemma trunc_nat_floor: "0 \<le> e \<Longrightarrow> trunc e = int (nat \<lfloor>e\<rfloor>)"
  by (simp add: trunc_def)

text \<open>For few tokens the value is interpolated between two neighbouring degrees of freedom.\<close>

lemma chi2p_few_tokens_interpolates:
  fixes n :: nat and x esf :: real
  assumes "0 \<le> esf"
  defines "e \<equiv> real n * esf"
  defines "k \<equiv> nat \<lfloor>e\<rfloor>"
  defines "d \<equiv> e - real k"
  shows "chi2p_few_tokens x (2 * real n) esf =
      (1 - d) * poisson_tail (esf * x / 2) k + d * poisson_tail (esf * x / 2) (Suc k)"
    and "0 \<le> d" and "d < 1"
proof -
  have e: "0 \<le> e" using assms(1) by (simp add: e_def)
  have t: "trunc e = int k" using trunc_nat_floor [OF e] by (simp add: k_def)
  have y: "- ln (exp (- (esf * x / 2))) = esf * x / 2" by simp
  have ex: "exp (esf * - x / 2) = exp (- (esf * x / 2))" by simp
  have "chi2p_few_tokens x (2 * real n) esf =
      exp (- (esf * x / 2)) * (\<Sum>i<k. (esf * x / 2) ^ i / fact i) +
      exp (- (esf * x / 2)) * d * (esf * x / 2) ^ k / fact k"
    by (simp only: chi2p_few_tokens_def Let_def ex y t [unfolded e_def] few_sum_nat factorial_nat
        power_int_of_nat d_def e_def of_int_of_nat_eq nonzero_mult_div_cancel_left zero_neq_numeral not_False_eq_True
        mult.commute [of 2 "real n"] nonzero_mult_div_cancel_right)
  then show "chi2p_few_tokens x (2 * real n) esf =
      (1 - d) * poisson_tail (esf * x / 2) k + d * poisson_tail (esf * x / 2) (Suc k)"
    by (simp add: poisson_tail_def algebra_simps)
  show "0 \<le> d" using e by (simp add: d_def k_def)
  show "d < 1" using e by (simp add: d_def k_def) linarith
qed

lemma makeAdjustments_half: "1 \<le> iAdjustedHalfDF (makeAdjustments x df esf)"
  by (auto simp: makeAdjustments_def Let_def trunc_def)

lemma makeAdjustments_DF:
  "trunc (of_int (iAdjustedDF (makeAdjustments x df esf)) / 2) = iAdjustedHalfDF (makeAdjustments x df esf)"
  by (simp add: makeAdjustments_def Let_def)

lemma makeAdjustments_fM:
  "fM (makeAdjustments x (2 * int n) esf) =
     x / 2 * (of_int (iAdjustedHalfDF (makeAdjustments x (2 * int n) esf)) / real n)"
  by (simp add: makeAdjustments_def Let_def trunc_def)

lemma chi2p_many_tokens_tail:
  fixes n :: nat and x esf :: real
  assumes "0 \<le> x"
  defines "a \<equiv> makeAdjustments x (2 * int n) esf"
  defines "b \<equiv> (if fM a > MAX_ALLOWABLE_M
     then makeAdjustments x (2 * int n) (esf * (MAX_ALLOWABLE_M / fM a)) else a)"
  shows "chi2p_many_tokens x (2 * int n) esf = poisson_tail (fM b) (nat (iAdjustedHalfDF b))"
    and "0 \<le> fM b"
proof -
  have half: "1 \<le> iAdjustedHalfDF b" by (simp add: b_def a_def makeAdjustments_half)
  obtain k where k: "iAdjustedHalfDF b = int (Suc k)"
    using half zero_less_imp_eq_int [of "iAdjustedHalfDF b"] by (auto dest: gr0_implies_Suc)
  have df: "trunc (of_int (iAdjustedDF b) / 2) = int (Suc k)"
    unfolding b_def a_def using k [unfolded b_def a_def] makeAdjustments_DF by (simp split: if_splits)
  have fm: "fM b = x / 2 * (of_int (iAdjustedHalfDF b) / real n)"
    by (simp add: b_def a_def makeAdjustments_fM)
  then show nn: "0 \<le> fM b" using assms(1) half by simp
  have "fst (many_sum (fM b) (int (Suc k))) = poisson_tail (fM b) (Suc k)"
    by (simp only: many_sum_nat fst_conv poisson_tail_def)
  then have "chi2p_many_tokens x (2 * int n) esf =
      (if poisson_tail (fM b) (Suc k) < 1 then poisson_tail (fM b) (Suc k) else 1)"
    by (simp only: chi2p_many_tokens_def Let_def a_def [symmetric] b_def [symmetric] df)
  then show "chi2p_many_tokens x (2 * int n) esf = poisson_tail (fM b) (nat (iAdjustedHalfDF b))"
    using poisson_tail_le_1 [OF nn, of "Suc k"] k by (auto simp: nat_add_distrib)
qed

lemma trunc_double [simp]: "trunc (2 * real n) = 2 * int n"
  using trunc_of_int [of "2 * int n"] by simp

lemma chi2inv_bounds:
  assumes "0 \<le> x" and "0 \<le> esf"
  shows "0 \<le> chi2inv x (2 * real n) esf \<and> chi2inv x (2 * real n) esf \<le> 1"
proof (cases "2 * real n * esf > 25")
  case True
  then show ?thesis
    using chi2p_many_tokens_tail [OF assms(1), where n = n and esf = esf] poisson_tail_nonneg poisson_tail_le_1
    by (simp add: chi2inv_def)
next
  case False
  note f = chi2p_few_tokens_interpolates [OF assms(2), where n = n]
  let ?d = "real n * esf - real (nat \<lfloor>real n * esf\<rfloor>)"
  have m: "0 \<le> esf * x / 2" using assms by simp
  have "0 \<le> (1 - ?d) * poisson_tail (esf * x / 2) k + ?d * poisson_tail (esf * x / 2) (Suc k)"
    "(1 - ?d) * poisson_tail (esf * x / 2) k + ?d * poisson_tail (esf * x / 2) (Suc k) \<le> 1" for k
    using f(2,3) poisson_tail_nonneg [OF m] poisson_tail_le_1 [OF m]
    by (simp, intro convex_bound_le) auto
  then show ?thesis using False f(1) by (simp add: chi2inv_def)
qed

lemma chi2inv_tail:
  assumes "0 \<le> x" and "x \<le> 2 * MAX_ALLOWABLE_M"
  shows "chi2inv x (2 * real n) 1 = poisson_tail (x / 2) n"
proof (cases "2 * real n > 25")
  case True
  then have n: "1 \<le> n" by simp
  have "trunc (real n + 1 / 2) = int n" "trunc (real n) = int n"
    by (simp_all add: trunc_def floor_eq_iff)
  then have half: "iAdjustedHalfDF (makeAdjustments x (2 * int n) 1) = int n"
    using n by (simp add: makeAdjustments_def Let_def)
  then have fm: "fM (makeAdjustments x (2 * int n) 1) = x / 2"
    using n by (simp add: makeAdjustments_fM)
  then show ?thesis
    using True assms(2) chi2p_many_tokens_tail(1) [OF assms(1), where n = n and esf = 1]
    by (simp add: chi2inv_def half fm)
next
  case False
  then show ?thesis
    using chi2p_few_tokens_interpolates(1) [where esf = 1 and n = n and x = x] by (simp add: chi2inv_def)
qed

text \<open>
  C8: with the default factor 1 the two variants agree: for every number of tokens (up to the
  cap of 700 on the halved argument) \<open>chi2inv\<close> is the survival function of the chi-square
  distribution with twice as many degrees of freedom.
\<close>

theorem chi2inv_reference:
  assumes "0 \<le> x" and "x \<le> 2 * MAX_ALLOWABLE_M"
  shows "chi2inv x (2 * real n) 1 = poisson_tail (x / 2) n"
  using assms by (rule chi2inv_tail)

theorem chi2inv_reference_witness: "chi2inv 2 (2 * real 2) 1 = exp (- 1) * 2"
  using chi2inv_reference [of 2 2] by (simp add: poisson_tail_def numeral_2_eq_2)

section \<open>The products are exact\<close>

definition val :: "FLOAT \<Rightarrow> real" where
  "val F = mant F * 2 powi expo F"

lemma frexp_val: "fst (frexp m) * 2 powi snd (frexp m) = m"
proof (cases "m = 0")
  case False
  have pw: "2 powi - e * 2 powi e = (1 :: real)" for e :: int
    by (simp flip: power_int_add)
  show ?thesis
    using False by (simp only: frexp_def Let_def fst_conv snd_conv if_False mult.assoc pw mult_1_right)
qed (simp add: frexp_def)

lemma frexp_range:
  assumes "0 < m"
  shows "1 / 2 \<le> fst (frexp m)" and "fst (frexp m) < 1"
proof -
  let ?l = "\<lfloor>log 2 m\<rfloor>"
  have lo: "2 powi ?l \<le> m" and hi: "m < 2 powi (?l + 1)"
    using assms floor_log_eq_powr_iff [of m 2 ?l] powr_real_of_int' [of 2 "?l + 1"]
    by (simp_all add: powr_real_of_int')
  have f: "fst (frexp m) = m * 2 powi - (?l + 1)" using assms by (simp add: frexp_def Let_def)
  have "2 powi ?l * 2 powi - (?l + 1) = (1 / 2 :: real)"
    by (simp add: power_int_minus flip: power_int_add)
  moreover have "2 powi (?l + 1) * 2 powi - (?l + 1) = (1 :: real)"
    by (simp flip: power_int_add)
  moreover have pos: "(0 :: real) < 2 powi - (?l + 1)" by simp
  ultimately show "1 / 2 \<le> fst (frexp m)" "fst (frexp m) < 1"
    using mult_right_mono [OF lo, of "2 powi - (?l + 1)"] mult_strict_right_mono [OF hi pos]
    by (simp_all only: f less_imp_le)
qed

lemma val_mul_FLOAT: "val (mul_FLOAT F p) = val F * p"
proof (cases "mant F * p < 1 / 10 ^ 200")
  case True
  have "fst (frexp m) * 2 powi (expo F + snd (frexp m)) = m * 2 powi expo F" for m
    using frexp_val [of m] by (simp add: power_int_add)
  with True show ?thesis by (simp add: mul_FLOAT_def val_def Let_def)
qed (simp add: mul_FLOAT_def val_def Let_def)

definition in_range :: "FLOAT \<Rightarrow> bool" where
  "in_range F \<longleftrightarrow> 1 / 10 ^ 200 \<le> mant F \<and> mant F \<le> 1"

lemma in_range_pos: "in_range F \<Longrightarrow> 0 < mant F"
  by (auto simp: in_range_def intro: less_le_trans)

lemma in_range_mul:
  assumes "in_range F" and "0.0001 \<le> p" and "p \<le> 1"
  shows "in_range (mul_FLOAT F p)"
proof -
  have pos: "0 < mant F * p" using assms by (auto simp: in_range_def intro!: mult_pos_pos less_le_trans)
  have "mant F * p \<le> 1" using assms mult_mono [of "mant F" 1 p 1] by (auto simp: in_range_def)
  moreover have "(1::real) / 10 ^ 200 \<le> 1 / 2" by simp
  ultimately show ?thesis
    using frexp_range [OF pos] by (auto simp: mul_FLOAT_def in_range_def Let_def intro: order_trans)
qed

text \<open>The evidence: the probabilities of the tokens that count.\<close>

definition evidence :: "config \<Rightarrow> node list \<Rightarrow> real list" where
  "evidence cfg qs = map (\<lambda>q. fval (n_spaminess q)) (filter (deviating cfg) qs)"

lemma prob_fold:
  "fold (prob_step cfg) qs (P, Q, n) =
     (fold (\<lambda>p F. mul_FLOAT F (1 - p)) (evidence cfg qs) P,
      fold (\<lambda>p F. mul_FLOAT F p) (evidence cfg qs) Q, n + length (evidence cfg qs))"
  by (induction qs arbitrary: P Q n) (simp_all add: prob_step_def evidence_def)

lemma val_fold:
  "val (fold (\<lambda>p F. mul_FLOAT F (g p)) ps F) = val F * (\<Prod>p\<leftarrow>ps. g p)"
  by (induction ps arbitrary: F) (simp_all add: val_mul_FLOAT mult.assoc)

definition clamped :: "real \<Rightarrow> bool" where
  "clamped p \<longleftrightarrow> REAL_HAM_TOKEN_PROBABILITY \<le> p \<and> p \<le> REAL_SPAM_TOKEN_PROBABILITY"

lemma in_range_fold:
  "(\<And>p. p \<in> set ps \<Longrightarrow> 0.0001 \<le> g p \<and> g p \<le> 1) \<Longrightarrow> in_range F \<Longrightarrow>
   in_range (fold (\<lambda>p F. mul_FLOAT F (g p)) ps F)"
proof (induction ps arbitrary: F)
  case (Cons p ps)
  have "0.0001 \<le> g p" "g p \<le> 1" using Cons.prems(1) [of p] by simp_all
  then have "in_range (mul_FLOAT F (g p))" using Cons.prems(2) by (intro in_range_mul)
  moreover have "0.0001 \<le> g q \<and> g q \<le> 1" if "q \<in> set ps" for q
    using Cons.prems(1) [of q] that by simp
  ultimately show ?case using Cons.IH by simp
qed simp

lemma prob_products:
  assumes "\<forall>p\<in>set (evidence cfg qs). clamped p"
  shows "\<exists>P Q. fold (prob_step cfg) qs (\<lparr>mant = 1, expo = 0\<rparr>, \<lparr>mant = 1, expo = 0\<rparr>, 0) =
       (P, Q, length (evidence cfg qs)) \<and>
     val P = (\<Prod>p\<leftarrow>evidence cfg qs. 1 - p) \<and> val Q = (\<Prod>p\<leftarrow>evidence cfg qs. p) \<and>
     in_range P \<and> in_range Q"
proof -
  let ?one = "\<lparr>mant = 1, expo = 0\<rparr> :: FLOAT"
  have one: "in_range ?one" "val ?one = 1" by (simp_all add: in_range_def val_def)
  have "in_range (fold (\<lambda>p F. mul_FLOAT F (1 - p)) (evidence cfg qs) ?one)"
    "in_range (fold (\<lambda>p F. mul_FLOAT F p) (evidence cfg qs) ?one)"
    using assms one(1) by (auto intro!: in_range_fold simp: clamped_def)
  then show ?thesis
    using val_fold [of "\<lambda>p. 1 - p" "evidence cfg qs" ?one] val_fold [of "\<lambda>p. p" "evidence cfg qs" ?one]
    by (simp add: prob_fold one(2))
qed

text \<open>A table with one token, for the examples.\<close>

lemma evidence_single:
  "0.375 \<le> \<bar>p - 0.5\<bar> \<Longrightarrow>
   evidence (default_config d) (all_nodes (addnode inithash s (Fin p) v)) = [p]"
  by (simp add: all_nodes_single evidence_def deviating_def)

text \<open>
  However many tokens there are, the two running products held as mantissa and exponent are
  exactly the products of the token probabilities and of their complements, and with clamped
  probabilities the mantissas stay between 1e-200 and 1, so that no intermediate product
  underflows and the logarithms are taken of positive numbers.
\<close>

theorem probability_products:
  assumes "\<forall>p\<in>set (evidence cfg qs). clamped p"
  shows "\<exists>P Q. fold (prob_step cfg) qs (\<lparr>mant = 1, expo = 0\<rparr>, \<lparr>mant = 1, expo = 0\<rparr>, 0) =
       (P, Q, length (evidence cfg qs)) \<and>
     mant P * 2 powi expo P = (\<Prod>p\<leftarrow>evidence cfg qs. 1 - p) \<and>
     mant Q * 2 powi expo Q = (\<Prod>p\<leftarrow>evidence cfg qs. p) \<and>
     1 / 10 ^ 200 \<le> mant P \<and> mant P \<le> 1 \<and> 1 / 10 ^ 200 \<le> mant Q \<and> mant Q \<le> 1"
  using prob_products [OF assms] unfolding val_def in_range_def by blast

theorem probability_products_witness:
  "\<exists>P Q. fold (prob_step (default_config [])) (all_nodes (addnode inithash ''win'' (Fin 0.9999) (Fin 0.4999)))
       (\<lparr>mant = 1, expo = 0\<rparr>, \<lparr>mant = 1, expo = 0\<rparr>, 0) = (P, Q, 1) \<and>
     mant Q * 2 powi expo Q = 0.9999"
proof -
  let ?qs = "all_nodes (addnode inithash ''win'' (Fin 0.9999) (Fin 0.4999))"
  have e: "evidence (default_config []) ?qs = [0.9999]" by (rule evidence_single) simp
  have "\<forall>p\<in>set (evidence (default_config []) ?qs). clamped p" unfolding e by (simp add: clamped_def)
  from probability_products [OF this] show ?thesis unfolding e by auto
qed

section \<open>The combined probability\<close>

lemma ln_prod_list: "(\<And>p. p \<in> set ps \<Longrightarrow> 0 < g p) \<Longrightarrow> ln (\<Prod>p\<leftarrow>ps. g p :: real) = (\<Sum>p\<leftarrow>ps. ln (g p))"
proof (induction ps)
  case (Cons p ps)
  have "0 < (\<Prod>p\<leftarrow>qs. g p)" if "set qs \<subseteq> set ps" for qs
    using that Cons.prems by (induction qs) auto
  then have "(\<Prod>p\<leftarrow>ps. g p) \<noteq> 0" by force
  moreover have "g p \<noteq> 0" using Cons.prems [of p] by simp
  ultimately show ?case using Cons by (simp add: ln_mult)
qed simp

lemma ln_FLOAT_val: "0 < mant F \<Longrightarrow> ln_FLOAT F = ln (val F)"
proof -
  have "ln (2 powi e) = of_int e * ln (2 :: real)" for e
    using ln_powr [of 2 "of_int e"] powr_real_of_int' [of 2 e] by simp
  then show "0 < mant F \<Longrightarrow> ?thesis" by (simp add: ln_FLOAT_def val_def ln_mult)
qed

abbreviation ev :: "config \<Rightarrow> hashtab \<Rightarrow> real list" where
  "ev cfg t \<equiv> evidence cfg (all_nodes t)"

text \<open>What the tokens say: the sums of the logarithms.\<close>

definition ham_evidence :: "real list \<Rightarrow> real" where
  "ham_evidence ps = - (\<Sum>p\<leftarrow>ps. ln p)"

definition spam_evidence :: "real list \<Rightarrow> real" where
  "spam_evidence ps = - (\<Sum>p\<leftarrow>ps. ln (1 - p))"

lemma get_spam_probability_closed:
  assumes "\<forall>p\<in>set (ev cfg t). clamped p"
  shows "get_spam_probability t cfg =
     ((1 + chi2inv (2 * (cfg_esf_h cfg * ham_evidence (ev cfg t))) (2 * real (length (ev cfg t))) (cfg_esf_h cfg)
         - chi2inv (2 * (cfg_esf_s cfg * spam_evidence (ev cfg t))) (2 * real (length (ev cfg t))) (cfg_esf_s cfg)) / 2,
      length (ev cfg t))"
proof -
  obtain P Q where f: "fold (prob_step cfg) (all_nodes t) (\<lparr>mant = 1, expo = 0\<rparr>, \<lparr>mant = 1, expo = 0\<rparr>, 0) =
       (P, Q, length (ev cfg t))"
    and P: "val P = (\<Prod>p\<leftarrow>ev cfg t. 1 - p)" "0 < mant P"
    and Q: "val Q = (\<Prod>p\<leftarrow>ev cfg t. p)" "0 < mant Q"
    using prob_products [OF assms] in_range_pos by metis
  have "0 < p" "0 < 1 - p" if "p \<in> set (ev cfg t)" for p
    using assms that by (auto simp: clamped_def)
  then have "ln_FLOAT P = (\<Sum>p\<leftarrow>ev cfg t. ln (1 - p))" "ln_FLOAT Q = (\<Sum>p\<leftarrow>ev cfg t. ln p)"
    using ln_prod_list [of "ev cfg t" "\<lambda>p. 1 - p"] ln_prod_list [of "ev cfg t" "\<lambda>p. p"] P Q
    by (simp_all add: ln_FLOAT_val)
  then show ?thesis
    by (simp add: get_spam_probability_def f Let_def ham_evidence_def spam_evidence_def mult.commute)
qed

lemma evidence_nonneg:
  assumes "\<forall>p\<in>set ps. clamped p"
  shows "0 \<le> ham_evidence ps" and "0 \<le> spam_evidence ps"
proof -
  have "ln p \<le> 0" "ln (1 - p) \<le> 0" if "p \<in> set ps" for p
    using assms that by (auto simp: clamped_def)
  then have "(\<Sum>p\<leftarrow>ps. ln p) \<le> 0" "(\<Sum>p\<leftarrow>ps. ln (1 - p)) \<le> 0"
    by (auto intro!: sum_list_nonpos)
  then show "0 \<le> ham_evidence ps" "0 \<le> spam_evidence ps"
    by (simp_all add: ham_evidence_def spam_evidence_def)
qed

lemma chi2inv_0: "chi2inv x (2 * real 0) esf = 0"
  by (simp add: chi2inv_def chi2p_few_tokens_def Let_def few_sum_def trunc_def)

text \<open>
  C1: the combined value is a probability, it is exactly 0.5 when no token deviates enough from
  0.5, the number of deviating tokens is returned, and the value depends only on the multiset of
  the token probabilities, not on the order of the chains.
\<close>

theorem get_spam_probability_unit:
  assumes "\<forall>p\<in>set (ev cfg t). clamped p" and "0 \<le> cfg_esf_h cfg" and "0 \<le> cfg_esf_s cfg"
    and "mset (ev cfg t') = mset (ev cfg t)"
  shows "0 \<le> fst (get_spam_probability t cfg) \<and> fst (get_spam_probability t cfg) \<le> 1 \<and>
     snd (get_spam_probability t cfg) = length (ev cfg t) \<and>
     (ev cfg t = [] \<longrightarrow> fst (get_spam_probability t cfg) = 1 / 2) \<and>
     get_spam_probability t' cfg = get_spam_probability t cfg"
proof -
  note cl = get_spam_probability_closed [OF assms(1)]
  have "\<forall>p\<in>set (ev cfg t'). clamped p" using assms(1) mset_eq_setD [OF assms(4)] by simp
  note cl' = get_spam_probability_closed [OF this]
  have "ham_evidence (ev cfg t') = ham_evidence (ev cfg t)"
    "spam_evidence (ev cfg t') = spam_evidence (ev cfg t)"
    unfolding ham_evidence_def spam_evidence_def
    using arg_cong [OF assms(4), of "\<lambda>m. sum_mset (image_mset ln m)"]
      arg_cong [OF assms(4), of "\<lambda>m. sum_mset (image_mset (\<lambda>p. ln (1 - p)) m)"]
    by (simp_all flip: sum_mset_sum_list)
  moreover have "length (ev cfg t') = length (ev cfg t)"
    using arg_cong [OF assms(4), of size] by simp
  ultimately have same: "get_spam_probability t' cfg = get_spam_probability t cfg"
    by (simp only: cl cl')
  have h: "0 \<le> 2 * (cfg_esf_h cfg * ham_evidence (ev cfg t))"
    "0 \<le> 2 * (cfg_esf_s cfg * spam_evidence (ev cfg t))"
    using evidence_nonneg [OF assms(1)] assms(2,3) by simp_all
  have "fst (get_spam_probability t cfg) = 1 / 2" if "ev cfg t = []"
    unfolding cl that list.size(3) chi2inv_0 by simp
  then show ?thesis
    using chi2inv_bounds [OF h(1) assms(2), of "length (ev cfg t)"]
      chi2inv_bounds [OF h(2) assms(3), of "length (ev cfg t)"] same
    unfolding cl by simp
qed

theorem get_spam_probability_unit_witness:
  "snd (get_spam_probability (addnode inithash ''win'' (Fin 0.9999) (Fin 0.4999)) (default_config [])) = 1"
proof -
  let ?t = "addnode inithash ''win'' (Fin 0.9999) (Fin 0.4999)"
  have e: "ev (default_config []) ?t = [0.9999]" by (rule evidence_single) simp
  have "\<forall>p\<in>set (ev (default_config []) ?t). clamped p" unfolding e by (simp add: clamped_def)
  from get_spam_probability_unit [OF this _ _ refl] show ?thesis unfolding e by simp
qed

text \<open>
  Ham and spam are treated alike: when every probability is replaced by its complement and
  the two size factors agree, the result is the complement.
\<close>

theorem get_spam_probability_symmetric:
  assumes "\<forall>p\<in>set (ev cfg t). clamped p" and "ev cfg t' = map (\<lambda>p. 1 - p) (ev cfg t)"
    and "cfg_esf_h cfg = cfg_esf_s cfg"
  shows "fst (get_spam_probability t' cfg) = 1 - fst (get_spam_probability t cfg)"
proof -
  have "\<forall>p\<in>set (ev cfg t'). clamped p" using assms(1,2) by (auto simp: clamped_def)
  note cl' = get_spam_probability_closed [OF this]
  have "ham_evidence (ev cfg t') = spam_evidence (ev cfg t)"
    "spam_evidence (ev cfg t') = ham_evidence (ev cfg t)"
    by (simp_all add: assms(2) ham_evidence_def spam_evidence_def comp_def)
  then show ?thesis
    unfolding cl' get_spam_probability_closed [OF assms(1)] by (simp add: assms(2,3) field_simps)
qed

theorem get_spam_probability_symmetric_witness:
  "fst (get_spam_probability (addnode inithash ''cat'' (Fin 0.1) (Fin 0.4)) (default_config [])) =
     1 - fst (get_spam_probability (addnode inithash ''win'' (Fin 0.9) (Fin 0.4)) (default_config []))"
proof (rule get_spam_probability_symmetric)
  have e: "ev (default_config []) (addnode inithash ''win'' (Fin 0.9) (Fin 0.4)) = [0.9]"
    "ev (default_config []) (addnode inithash ''cat'' (Fin 0.1) (Fin 0.4)) = [0.1]"
    by (rule evidence_single, simp)+
  show "\<forall>p\<in>set (ev (default_config []) (addnode inithash ''win'' (Fin 0.9) (Fin 0.4))). clamped p"
    unfolding e by (simp add: clamped_def)
  show "ev (default_config []) (addnode inithash ''cat'' (Fin 0.1) (Fin 0.4)) =
      map (\<lambda>p. 1 - p) (ev (default_config []) (addnode inithash ''win'' (Fin 0.9) (Fin 0.4)))"
    unfolding e by simp
qed simp

lemma ln_clamped:
  assumes "clamped p"
  shows "- ln p \<le> 10" and "- ln (1 - p) \<le> 10"
proof -
  have "(8 / 3) ^ 10 \<le> exp (1 :: real) ^ 10"
    using exp_sum_le [of 1 4] by (intro power_mono) (simp_all add: numeral_eq_Suc)
  moreover have "(10000 :: real) \<le> (8 / 3) ^ 10" by (simp add: power_divide)
  ultimately have "10000 \<le> exp (10 :: real)" by (simp flip: exp_of_nat_mult)
  then have e: "exp (- 10 :: real) \<le> 0.0001" by (simp add: exp_minus inverse_eq_divide field_simps)
  have "- 10 \<le> ln x" if "0.0001 \<le> x" for x :: real
  proof -
    have "exp (- 10) \<le> x" using e that by simp
    moreover have "0 < x" using that by simp
    ultimately show ?thesis by (simp add: ln_ge_iff)
  qed
  from this [of p] this [of "1 - p"] show "- ln p \<le> 10" "- ln (1 - p) \<le> 10"
    using assms by (auto simp: clamped_def)
qed

lemma evidence_bound:
  assumes "\<forall>p\<in>set ps. clamped p"
  shows "ham_evidence ps \<le> 10 * real (length ps)" and "spam_evidence ps \<le> 10 * real (length ps)"
proof -
  have "(\<Sum>p\<leftarrow>ps. - ln p) \<le> (\<Sum>p\<leftarrow>ps. 10)" "(\<Sum>p\<leftarrow>ps. - ln (1 - p)) \<le> (\<Sum>p\<leftarrow>ps. 10)"
    using assms ln_clamped by (auto intro!: sum_list_mono)
  then show "ham_evidence ps \<le> 10 * real (length ps)" "spam_evidence ps \<le> 10 * real (length ps)"
    by (simp_all add: ham_evidence_def spam_evidence_def uminus_sum_list_map comp_def sum_list_triv mult.commute)
qed

lemma evidence_mono:
  assumes "list_all2 (\<le>) ps ps'" and "\<forall>p\<in>set ps. clamped p" and "\<forall>p\<in>set ps'. clamped p"
  shows "ham_evidence ps' \<le> ham_evidence ps" and "spam_evidence ps \<le> spam_evidence ps'"
proof -
  have "(\<Sum>p\<leftarrow>ps. ln p) \<le> (\<Sum>p\<leftarrow>ps'. ln p) \<and> (\<Sum>p\<leftarrow>ps'. ln (1 - p)) \<le> (\<Sum>p\<leftarrow>ps. ln (1 - p))"
    using assms
  proof (induction rule: list_all2_induct)
    case (Cons p ps p' ps')
    have "ln p \<le> ln p'" "ln (1 - p') \<le> ln (1 - p)"
      using Cons.hyps Cons.prems by (auto simp: clamped_def)
    with Cons show ?case by (auto intro: add_mono)
  qed simp
  then show "ham_evidence ps' \<le> ham_evidence ps" "spam_evidence ps \<le> spam_evidence ps'"
    by (simp_all add: ham_evidence_def spam_evidence_def)
qed

text \<open>
  C10: with the default size factors the combined value grows with every token: when the
  probabilities of the deviating tokens (at most 70, so that the cap is not reached) only go up,
  so does the spam probability.
\<close>

theorem get_spam_probability_mono:
  assumes "list_all2 (\<le>) (ev cfg t) (ev cfg t')"
    and "\<forall>p\<in>set (ev cfg t). clamped p" and "\<forall>p\<in>set (ev cfg t'). clamped p"
    and "length (ev cfg t) \<le> 70" and "cfg_esf_h cfg = 1" and "cfg_esf_s cfg = 1"
  shows "fst (get_spam_probability t cfg) \<le> fst (get_spam_probability t' cfg)"
proof -
  have len: "length (ev cfg t') = length (ev cfg t)" using assms(1) by (simp add: list_all2_lengthD)
  note b = evidence_bound [OF assms(2)] evidence_bound [OF assms(3)]
    evidence_nonneg [OF assms(2)] evidence_nonneg [OF assms(3)]
  have tail: "chi2inv (2 * m) (2 * real n) 1 = poisson_tail m n" if "0 \<le> m" "m \<le> 10 * real n" "n \<le> 70" for m n
    using chi2inv_tail [of "2 * m" n] that by simp
  note mono = poisson_tail_antimono [OF _ evidence_mono(1) [OF assms(1-3)], of "length (ev cfg t)"]
    poisson_tail_antimono [OF _ evidence_mono(2) [OF assms(1-3)], of "length (ev cfg t)"]
  show ?thesis
    using b len assms(4) mono
    by (simp add: get_spam_probability_closed [OF assms(2)] get_spam_probability_closed [OF assms(3)]
        assms(5,6) tail len)
qed

theorem get_spam_probability_mono_witness:
  "fst (get_spam_probability (addnode inithash ''win'' (Fin 0.1) (Fin 0.4)) (default_config [])) \<le>
   fst (get_spam_probability (addnode inithash ''win'' (Fin 0.9) (Fin 0.4)) (default_config []))"
proof -
  have e: "ev (default_config []) (addnode inithash ''win'' (Fin 0.9) (Fin 0.4)) = [0.9]"
    "ev (default_config []) (addnode inithash ''win'' (Fin 0.1) (Fin 0.4)) = [0.1]"
    by (rule evidence_single, simp)+
  show ?thesis by (rule get_spam_probability_mono) (unfold e, simp_all add: clamped_def)
qed

end
