(* ===== verification/Mysql.thy ===== *)
theory Mysql
  imports C_Numbers Kospam_Config
begin

text \<open>
  \<open>src/mysql.c\<close> and \<open>src/sql.h\<close>: the layer over the MySQL client library, and the functions that
  only run one prepared statement (\<open>wbl.c\<close>, \<open>minefield.c\<close>, \<open>attachment.c\<close>,
  \<open>counters.c\<close>).

  The client library is not under \<open>src/\<close>: it is the record \<open>my\<close> of its functions, an argument of
  every definition, which act on a world of any type \<open>'w\<close>; a connection and a statement are the
  numbers the library hands out.  Results written through pointers are returned values.  Log
  messages are left out.
\<close>

datatype sql_type = TYPE_UNDEF | TYPE_SHORT | TYPE_LONG | TYPE_LONGLONG | TYPE_STRING

datatype sql_val = SNull | SInt int | SStr string

record 'w mysql =
  mysql_init :: "'w \<Rightarrow> nat option \<times> 'w"
  mysql_options :: "nat \<Rightarrow> string \<Rightarrow> int \<Rightarrow> 'w \<Rightarrow> 'w"
  mysql_real_connect :: "nat \<Rightarrow> config \<Rightarrow> 'w \<Rightarrow> bool \<times> 'w"
  mysql_close :: "nat \<Rightarrow> 'w \<Rightarrow> 'w"
  mysql_query :: "nat \<Rightarrow> string \<Rightarrow> 'w \<Rightarrow> int \<times> 'w"
  mysql_select_db :: "nat \<Rightarrow> string \<Rightarrow> 'w \<Rightarrow> int \<times> 'w"
  mysql_store_result :: "nat \<Rightarrow> 'w \<Rightarrow> string list list option \<times> 'w"
  mysql_stmt_init :: "nat \<Rightarrow> 'w \<Rightarrow> nat option \<times> 'w"
  mysql_stmt_prepare :: "nat \<Rightarrow> string \<Rightarrow> 'w \<Rightarrow> int \<times> 'w"
  mysql_stmt_bind_param :: "nat \<Rightarrow> (sql_type \<times> sql_val) list \<Rightarrow> 'w \<Rightarrow> int \<times> 'w"
  mysql_stmt_execute :: "nat \<Rightarrow> 'w \<Rightarrow> int \<times> 'w"
  mysql_stmt_bind_result :: "nat \<Rightarrow> (sql_type \<times> nat) list \<Rightarrow> 'w \<Rightarrow> int \<times> 'w"
  mysql_stmt_store_result :: "nat \<Rightarrow> 'w \<Rightarrow> int \<times> 'w"
  mysql_stmt_fetch :: "nat \<Rightarrow> 'w \<Rightarrow> sql_val list option \<times> 'w"
  mysql_stmt_free_result :: "nat \<Rightarrow> 'w \<Rightarrow> 'w"
  mysql_stmt_insert_id :: "nat \<Rightarrow> 'w \<Rightarrow> nat"
  mysql_stmt_affected_rows :: "nat \<Rightarrow> 'w \<Rightarrow> nat"
  mysql_stmt_close :: "nat \<Rightarrow> 'w \<Rightarrow> 'w"

abbreviation (input) OK :: int where "OK \<equiv> 0"
abbreviation (input) ERR :: int where "ERR \<equiv> 1"
abbreviation MAX_SQL_VARS :: nat where "MAX_SQL_VARS \<equiv> 20"

record query =
  q_stmt :: "nat option"
  q_sql :: "sql_val list"
  q_type :: "sql_type list"
  q_len :: "nat list"
  q_pos :: nat

definition open_database :: "'w mysql \<Rightarrow> config \<Rightarrow> 'w \<Rightarrow> nat option \<times> 'w" where
  "open_database my cfg w =
     (case mysql_init my w of
        (None, w1) \<Rightarrow> (None, w1)
      | (Some conn, w1) \<Rightarrow>
          let w2 = mysql_options my conn ''MYSQL_OPT_CONNECT_TIMEOUT'' (cfg_mysql_connect_timeout cfg) w1;
              w3 = mysql_options my conn ''MYSQL_OPT_RECONNECT'' 1 w2
          in (case mysql_real_connect my conn cfg w3 of
                (False, w4) \<Rightarrow> (None, w4)
              | (True, w4) \<Rightarrow>
                  let w5 = snd (mysql_query my conn ''SET NAMES utf8mb4'' w4);
                      w6 = snd (mysql_query my conn ''SET CHARACTER SET utf8mb4'' w5)
                  in (Some conn, w6)))"

definition close_database :: "'w mysql \<Rightarrow> nat \<Rightarrow> 'w \<Rightarrow> 'w" where
  "close_database my conn w = mysql_close my conn w"

definition select_db :: "'w mysql \<Rightarrow> nat \<Rightarrow> string \<Rightarrow> 'w \<Rightarrow> int \<times> 'w" where
  "select_db my conn db w = mysql_select_db my conn db w"

definition p_bind_init :: "query \<Rightarrow> query" where
  "p_bind_init sql = sql\<lparr>q_pos := 0, q_sql := replicate MAX_SQL_VARS SNull,
     q_type := replicate MAX_SQL_VARS TYPE_UNDEF, q_len := replicate MAX_SQL_VARS 0\<rparr>"

text \<open>The idiom \<open>sql.sql[sql.pos] = v; sql.type[sql.pos] = t; sql.len[sql.pos] = l; sql.pos++\<close>.\<close>

definition bind_len :: "sql_val \<Rightarrow> sql_type \<Rightarrow> nat \<Rightarrow> query \<Rightarrow> query" where
  "bind_len v t l sql = sql\<lparr>q_sql := (q_sql sql)[q_pos sql := v], q_type := (q_type sql)[q_pos sql := t],
     q_len := (q_len sql)[q_pos sql := l], q_pos := q_pos sql + 1\<rparr>"

abbreviation bind :: "sql_val \<Rightarrow> sql_type \<Rightarrow> query \<Rightarrow> query" where
  "bind v t sql \<equiv> bind_len v t 0 sql"

definition p_query :: "'w mysql \<Rightarrow> nat \<Rightarrow> string \<Rightarrow> 'w \<Rightarrow> 'w" where
  "p_query my conn s w = snd (mysql_query my conn s w)"

text \<open>The loop over the variables stops at the first one without a type.\<close>

definition bound_params :: "query \<Rightarrow> (sql_type \<times> sql_val) list" where
  "bound_params sql = takeWhile (\<lambda>(t, v). t \<noteq> TYPE_UNDEF) (take MAX_SQL_VARS (zip (q_type sql) (q_sql sql)))"

definition bound_results :: "query \<Rightarrow> (sql_type \<times> nat) list" where
  "bound_results sql = takeWhile (\<lambda>(t, l). t \<noteq> TYPE_UNDEF) (take MAX_SQL_VARS (zip (q_type sql) (q_len sql)))"

definition p_exec_stmt :: "'w mysql \<Rightarrow> query \<Rightarrow> 'w \<Rightarrow> int \<times> 'w" where
  "p_exec_stmt my sql w =
     (case q_stmt sql of
        None \<Rightarrow> (ERR, w)
      | Some st \<Rightarrow>
          (case mysql_stmt_bind_param my st (bound_params sql) w of (r1, w1) \<Rightarrow>
             if r1 \<noteq> 0 then (ERR, w1)
             else (case mysql_stmt_execute my st w1 of (r2, w2) \<Rightarrow>
                     if r2 \<noteq> 0 then (ERR, w2) else (OK, w2))))"

definition p_store_results :: "'w mysql \<Rightarrow> query \<Rightarrow> 'w \<Rightarrow> int \<times> 'w" where
  "p_store_results my sql w =
     (case q_stmt sql of
        None \<Rightarrow> (ERR, w)
      | Some st \<Rightarrow>
          (case mysql_stmt_bind_result my st (bound_results sql) w of (r1, w1) \<Rightarrow>
             if r1 \<noteq> 0 then (ERR, w1)
             else (case mysql_stmt_store_result my st w1 of (r2, w2) \<Rightarrow>
                     if r2 \<noteq> 0 then (ERR, w2) else (OK, w2))))"

text \<open>The fetched row, if any, comes with the status.\<close>

definition p_fetch_results :: "'w mysql \<Rightarrow> query \<Rightarrow> 'w \<Rightarrow> (int \<times> sql_val list) \<times> 'w" where
  "p_fetch_results my sql w =
     (case q_stmt sql of
        None \<Rightarrow> ((ERR, []), w)
      | Some st \<Rightarrow>
          (case mysql_stmt_fetch my st w of
             (Some row, w1) \<Rightarrow> ((OK, row), w1)
           | (None, w1) \<Rightarrow> ((ERR, []), w1)))"

definition p_free_results :: "'w mysql \<Rightarrow> query \<Rightarrow> 'w \<Rightarrow> 'w" where
  "p_free_results my sql w = (case q_stmt sql of None \<Rightarrow> w | Some st \<Rightarrow> mysql_stmt_free_result my st w)"

definition p_get_insert_id :: "'w mysql \<Rightarrow> query \<Rightarrow> 'w \<Rightarrow> nat" where
  "p_get_insert_id my sql w = mysql_stmt_insert_id my (the (q_stmt sql)) w"

definition p_get_affected_rows :: "'w mysql \<Rightarrow> query \<Rightarrow> 'w \<Rightarrow> nat" where
  "p_get_affected_rows my sql w = mysql_stmt_affected_rows my (the (q_stmt sql)) w"

definition prepare_sql_statement :: "'w mysql \<Rightarrow> nat \<Rightarrow> string \<Rightarrow> 'w \<Rightarrow> int \<times> query \<times> 'w" where
  "prepare_sql_statement my conn s w =
     (let sql = \<lparr>q_stmt = None, q_sql = replicate MAX_SQL_VARS SNull,
                 q_type = replicate MAX_SQL_VARS TYPE_UNDEF, q_len = replicate MAX_SQL_VARS 0, q_pos = 0\<rparr>
      in case mysql_stmt_init my conn w of
           (None, w1) \<Rightarrow> (ERR, sql, w1)
         | (Some st, w1) \<Rightarrow>
             (case mysql_stmt_prepare my st s w1 of (r, w2) \<Rightarrow>
                if r \<noteq> 0 then (ERR, sql\<lparr>q_stmt := Some st\<rparr>, w2)
                else (OK, sql\<lparr>q_stmt := Some st\<rparr>, w2)))"

definition close_prepared_statement :: "'w mysql \<Rightarrow> query \<Rightarrow> 'w \<Rightarrow> 'w" where
  "close_prepared_statement my sql w = (case q_stmt sql of None \<Rightarrow> w | Some st \<Rightarrow> mysql_stmt_close my st w)"

record te =
  te_nham :: "32 word"
  te_nspam :: "32 word"

text \<open>\<open>te.nham += atof(row[0])\<close>: the sum is computed as a \<open>double\<close> and truncated.\<close>

definition add_count :: "32 word \<Rightarrow> string \<Rightarrow> 32 word" where
  "add_count n s = word_of_int (trunc (real (unat n) + strtod s))"

definition get_ham_spam_counters :: "'w mysql \<Rightarrow> nat \<Rightarrow> string \<Rightarrow> 'w \<Rightarrow> te \<times> 'w" where
  "get_ham_spam_counters my conn stmt w =
     (let te = \<lparr>te_nham = 0, te_nspam = 0\<rparr>
      in case mysql_query my conn stmt w of (r, w1) \<Rightarrow>
           if r = 0
           then (case mysql_store_result my conn w1 of
                   (None, w2) \<Rightarrow> (te, w2)
                 | (Some rows, w2) \<Rightarrow>
                     (fold (\<lambda>row te. \<lparr>te_nham = add_count (te_nham te) (row ! 0),
                                      te_nspam = add_count (te_nspam te) (row ! 1)\<rparr>) rows te, w2))
           else (te, w1))"

section \<open>Functions that run one statement\<close>

text \<open>The \<open>int\<close> or \<open>unsigned long\<close> a result variable holds: it keeps its value without a row.\<close>

definition fetched_int :: "int \<Rightarrow> sql_val list \<Rightarrow> int" where
  "fetched_int old row = (case row of SInt i # _ \<Rightarrow> i | _ \<Rightarrow> old)"

definition check_email_against_list :: "'w mysql \<Rightarrow> nat \<Rightarrow> string \<Rightarrow> string \<Rightarrow> 'w \<Rightarrow> int \<times> 'w" where
  "check_email_against_list my conn table email w =
     (let s = snprintf_s 511 (''SELECT count(*) FROM '' @ table @ '' WHERE email=?'')
      in case prepare_sql_statement my conn s w of (r, sql, w1) \<Rightarrow>
           if r = ERR then (0, w1)
           else
             let sql1 = bind (SStr email) TYPE_STRING (p_bind_init sql)
             in case p_exec_stmt my sql1 w1 of (r2, w2) \<Rightarrow>
                  if r2 = ERR then (0, close_prepared_statement my sql1 w2)
                  else
                    let sql2 = bind_len SNull TYPE_LONG 4 (p_bind_init sql1);
                        w3 = snd (p_store_results my sql2 w2)
                    in case p_fetch_results my sql2 w3 of ((r4, row), w4) \<Rightarrow>
                         (fetched_int 0 row,
                          close_prepared_statement my sql2 (p_free_results my sql2 w4)))"

definition is_sender_on_minefield :: "'w mysql \<Rightarrow> nat \<Rightarrow> string \<Rightarrow> 'w \<Rightarrow> bool \<times> 'w" where
  "is_sender_on_minefield my conn ip w =
     (case prepare_sql_statement my conn ''SELECT ts FROM minefield WHERE ip=?'' w of (r, sql, w1) \<Rightarrow>
        if r = ERR then (False, w1)
        else
          let sql1 = bind (SStr ip) TYPE_STRING (p_bind_init sql)
          in case p_exec_stmt my sql1 w1 of (r2, w2) \<Rightarrow>
               if r2 = ERR then (False, close_prepared_statement my sql1 w2)
               else
                 let sql2 = bind_len SNull TYPE_LONG 4 (p_bind_init sql1);
                     w3 = snd (p_store_results my sql2 w2)
                 in case p_fetch_results my sql2 w3 of ((r4, row), w4) \<Rightarrow>
                      (r4 = OK, close_prepared_statement my sql2 (p_free_results my sql2 w4)))"

definition store_minefield_ip :: "'w mysql \<Rightarrow> nat \<Rightarrow> string \<Rightarrow> int \<Rightarrow> 'w \<Rightarrow> 'w" where
  "store_minefield_ip my conn ip now w =
     (case prepare_sql_statement my conn ''REPLACE INTO minefield (ip, ts) VALUES(?, ?)'' w of (r, sql, w1) \<Rightarrow>
        if r = ERR then w1
        else
          let sql1 = bind (SInt (to_int32 now)) TYPE_LONG (bind (SStr ip) TYPE_STRING (p_bind_init sql))
          in close_prepared_statement my sql1 (snd (p_exec_stmt my sql1 w1)))"

definition update_bad_attachment_counter :: "'w mysql \<Rightarrow> nat \<Rightarrow> string \<Rightarrow> 'w \<Rightarrow> 'w" where
  "update_bad_attachment_counter my conn digest w =
     (case prepare_sql_statement my conn ''UPDATE attach_digest SET counter=counter+1 WHERE digest=?'' w of
        (r, sql, w1) \<Rightarrow>
        if r = OK
        then let sql1 = bind (SStr digest) TYPE_STRING (p_bind_init sql)
             in close_prepared_statement my sql1 (snd (p_exec_stmt my sql1 w1))
        else w1)"

text \<open>\<open>has_known_bad_attachment\<close> on the list of the digests of the attachments.\<close>

fun bad_attachment_loop :: "'w mysql \<Rightarrow> nat \<Rightarrow> query \<Rightarrow> string list \<Rightarrow> bool \<Rightarrow> 'w \<Rightarrow> bool \<times> query \<times> 'w" where
  "bad_attachment_loop my conn sql [] rc w = (rc, sql, w)"
| "bad_attachment_loop my conn sql (digest # ds) rc w =
     (let sql1 = bind (SStr digest) TYPE_STRING (p_bind_init sql)
      in case p_exec_stmt my sql1 w of (r1, w1) \<Rightarrow>
           if r1 = ERR then (rc, sql1, w1)
           else
             let sql2 = bind_len SNull TYPE_LONGLONG 8 (p_bind_init sql1);
                 w2 = snd (p_store_results my sql2 w1)
             in case p_fetch_results my sql2 w2 of ((r3, row), w3) \<Rightarrow>
                  let w4 = p_free_results my sql2 w3
                  in if fetched_int 0 row > 0
                     then bad_attachment_loop my conn sql2 ds True (update_bad_attachment_counter my conn digest w4)
                     else bad_attachment_loop my conn sql2 ds rc w4)"

definition has_known_bad_attachment :: "'w mysql \<Rightarrow> nat \<Rightarrow> string list \<Rightarrow> 'w \<Rightarrow> bool \<times> 'w" where
  "has_known_bad_attachment my conn digests w =
     (if digests = [] then (False, w)
      else case prepare_sql_statement my conn ''SELECT counter FROM attach_digest WHERE digest=?'' w of
             (r, sql, w1) \<Rightarrow>
             if r = ERR then (False, w1)
             else case bad_attachment_loop my conn sql digests False w1 of (rc, sql', w2) \<Rightarrow>
                    (rc, close_prepared_statement my sql' w2))"

record counters =
  c_rcvd :: "64 word"
  c_ham :: "64 word"
  c_spam :: "64 word"
  c_possible_spam :: "64 word"
  c_unsure :: "64 word"
  c_minefield :: "64 word"
  c_virus :: "64 word"
  c_zombie :: "64 word"
  c_fp :: "64 word"
  c_fn :: "64 word"
  c_mynetwork :: "64 word"
  c_size :: "64 word"

definition update_counters :: "'w mysql \<Rightarrow> nat \<Rightarrow> counters \<Rightarrow> 'w \<Rightarrow> 'w" where
  "update_counters my conn c w =
     (let llu = (\<lambda>x :: 64 word. show_nat (unat x));
          buf = snprintf_s 8191 (''UPDATE counter SET rcvd=rcvd+'' @ llu (c_rcvd c) @ '', size=size+'' @ llu (c_size c) @
            '', mynetwork=mynetwork+'' @ llu (c_mynetwork c) @ '', ham=ham+'' @ llu (c_ham c) @
            '', spam=spam+'' @ llu (c_spam c) @ '', possible_spam=possible_spam+'' @ llu (c_possible_spam c) @
            '', unsure=unsure+'' @ llu (c_unsure c) @ '', minefield=minefield+'' @ llu (c_minefield c) @
            '', virus=virus+'' @ llu (c_virus c) @ '', zombie=zombie+'' @ llu (c_zombie c) @
            '', fp=fp+'' @ llu (c_fp c) @ '', fn=fn+'' @ llu (c_fn c))
      in p_query my conn buf w)"

section \<open>Binding\<close>

text \<open>Up to \<open>MAX_SQL_VARS\<close> values bound after \<open>p_bind_init\<close> reach the library in order.\<close>

lemma bind_fold:
  "length vs \<le> MAX_SQL_VARS \<Longrightarrow>
   fold (\<lambda>(t, v) q. bind v t q) vs (p_bind_init sql) =
     sql\<lparr>q_sql := map snd vs @ replicate (MAX_SQL_VARS - length vs) SNull,
         q_type := map fst vs @ replicate (MAX_SQL_VARS - length vs) TYPE_UNDEF,
         q_len := replicate MAX_SQL_VARS 0, q_pos := length vs\<rparr>"
proof (induction vs rule: rev_induct)
  case (snoc tv vs)
  have upd: "(xs @ replicate (MAX_SQL_VARS - n) d)[n := y] =
      xs @ y # replicate (MAX_SQL_VARS - Suc n) d" if "length xs = n" "n < MAX_SQL_VARS"
    for n and xs :: "'z list" and d y
    using that by (cases "MAX_SQL_VARS - n") (auto simp: list_update_append Suc_diff_Suc)
  have "(replicate MAX_SQL_VARS (0::nat))[length vs := 0] = replicate MAX_SQL_VARS 0"
    by (metis list_update_beyond list_update_id nth_replicate length_replicate not_le)
  with snoc upd [of "map snd vs"] upd [of "map fst vs"] show ?case
    by (simp add: bind_len_def case_prod_beta)
qed (simp add: p_bind_init_def)

lemma takeWhile_zip_replicate:
  "TYPE_UNDEF \<notin> set ts \<Longrightarrow> length vs = length ts \<Longrightarrow>
   takeWhile (\<lambda>(t, v). t \<noteq> TYPE_UNDEF) (zip (ts @ replicate n TYPE_UNDEF) (vs @ replicate n d)) = zip ts vs"
proof (induction ts vs rule: list_induct2')
  case 1
  then show ?case by (cases n) simp_all
qed auto

lemma bound_params_fold:
  assumes "length vs \<le> MAX_SQL_VARS" and "TYPE_UNDEF \<notin> fst ` set vs"
  shows "bound_params (fold (\<lambda>(t, v) q. bind v t q) vs (p_bind_init sql)) = vs"
proof -
  have "takeWhile (\<lambda>(t, v). t \<noteq> TYPE_UNDEF)
      (zip (map fst vs @ replicate (MAX_SQL_VARS - length vs) TYPE_UNDEF)
           (map snd vs @ replicate (MAX_SQL_VARS - length vs) SNull)) = zip (map fst vs) (map snd vs)"
    using assms(2) by (intro takeWhile_zip_replicate) auto
  then show ?thesis
    using assms(1) by (simp only: bind_fold) (simp add: bound_params_def zip_map_fst_snd)
qed

end
