(* ===== verification/Tokenizer.thy ===== *)
theory Tokenizer
  imports Kospam_Strings Token_Hash Kospam_Config
begin

text \<open>
  \<open>struct parser_state\<close> of \<open>src/parser.h\<close>, the per message state, and \<open>src/tokenizer.c\<close>, which
  turns a text into tokens: URL tokens, words, and pairs of neighbouring words.

  The tokenizer reads \<open>v[len-1]\<close> without asking whether the word is empty; for an empty word that
  read (and, for some values of the byte found there, a write) lies in front of the array, which
  is the result \<open>None\<close>.
\<close>

record parser_state =
  ps_tre :: char
  ps_n_token :: int
  ps_n_subject_token :: int
  ps_n_deviating_token :: int
  ps_from :: string
  ps_b_subject :: string
  ps_token_hash :: hashtab
  ps_envelope_from :: string
  ps_envelope_recipient :: string
  ps_need_signo_check :: bool
  ps_found_our_signo :: bool
  ps_training_request :: int
  ps_has_image_attachment :: int
  ps_has_octet_stream_attachment :: int
  ps_ip :: string
  ps_hostname :: string
  ps_kospam_watermark :: string
  ps_trapped :: bool

text \<open>\<open>init_state\<close> of \<open>src/parser.c\<close>: all bytes zero, then the fields that are set.\<close>

definition init_state :: parser_state where
  "init_state = \<lparr>ps_tre = CHR ''-'', ps_n_token = 0, ps_n_subject_token = 0, ps_n_deviating_token = 0,
     ps_from = [], ps_b_subject = [], ps_token_hash = inithash, ps_envelope_from = [],
     ps_envelope_recipient = [], ps_need_signo_check = False, ps_found_our_signo = False,
     ps_training_request = 0, ps_has_image_attachment = 0, ps_has_octet_stream_attachment = 0,
     ps_ip = [], ps_hostname = [], ps_kospam_watermark = [], ps_trapped = False\<rparr>"

text \<open>The conversion of an \<open>int\<close> to \<open>size_t\<close>: a negative value wraps.\<close>

definition size_t :: "int \<Rightarrow> nat" where
  "size_t i = nat (i mod 2 ^ 64)"

definition chopped_char :: "char \<Rightarrow> bool" where
  "chopped_char c \<longleftrightarrow> c = CHR ''!'' \<or> c = SQUOTE \<or> c = CHR ''('' \<or> c = CHR '')'' \<or> c = CHR '','' \<or>
     c = CHR ''.'' \<or> c = CHR '':'' \<or> c = CHR ''?''"

abbreviation add_default :: "hashtab \<Rightarrow> string \<Rightarrow> hashtab" where
  "add_default h s \<equiv> addnode h s (Fin DEFAULT_SPAMICITY) (Fin 0)"

text \<open>
  The state of the loop: the parser state, \<open>tmpbuf\<close> (the previous accepted word with its label),
  the number \<open>i\<close> of accepted words and the number \<open>n\<close> of tokens.  One round handles the word \<open>v\<close>.
\<close>

type_synonym tok_state = "parser_state \<times> string \<times> nat \<times> nat"

definition token_round :: "config \<Rightarrow> string \<Rightarrow> string \<Rightarrow> tok_state \<Rightarrow> tok_state option" where
  "token_round cfg label v acc =
     (case acc of (state, tmpbuf, i, n) \<Rightarrow>
        if v = [] then None
        else
          let v1 = (if chopped_char (last v) then butlast v else v);
              len = length v1;
              skiplen = (if strncasecmp_eq v1 ''http://'' 7 then 7
                         else if strncasecmp_eq v1 ''https://'' 8 then 8 else 0);
              (w, state1) =
                (if skiplen > 0
                 then let (w', tmp) = extract_url_token (drop skiplen v1) 512
                      in (w', state\<lparr>ps_token_hash := add_default (ps_token_hash state) tmp,
                                    ps_n_token := ps_n_token state + 1\<rparr>)
                 else (v1, state))
          in if len < size_t (cfg_min_word_len cfg) \<or>
                (len > size_t (cfg_max_word_len cfg) \<and> label \<noteq> ''SUBJ*'' \<and> \<not> strncmp_eq w ''att*'' 4)
             then Some (state1, tmpbuf, i, n)
             else
               let (h1, n1) =
                     (if i > 0
                      then (add_default (ps_token_hash state1)
                              (snprintf_s 511 (tmpbuf @ ''+'' @ label @ w)), Suc n)
                      else (ps_token_hash state1, n));
                   tmpbuf' = snprintf_s 511 (label @ w);
                   (h2, n2) = (if len > 2 then (add_default h1 tmpbuf', Suc n1) else (h1, n1))
               in Some (state1\<lparr>ps_token_hash := h2\<rparr>, tmpbuf', Suc i, n2))"

function tokenize_loop :: "config \<Rightarrow> string \<Rightarrow> string \<Rightarrow> tok_state \<Rightarrow> tok_state option" where
  "tokenize_loop cfg label s acc =
     (case split (Some s) SPACE 511 of
        (s', v, r) \<Rightarrow>
          (case token_round cfg label v acc of
             None \<Rightarrow> None
           | Some acc' \<Rightarrow>
               (case s' of None \<Rightarrow> Some acc' | Some s'' \<Rightarrow> tokenize_loop cfg label s'' acc')))"
  by pat_completeness auto
termination
  by (relation "measure (\<lambda>(cfg, label, s, acc). length s)") (auto dest: split_shorter [OF sym])

declare tokenize_loop.simps [simp del]

definition generate_tokens_from_string ::
  "parser_state \<Rightarrow> string option \<Rightarrow> string \<Rightarrow> config \<Rightarrow> (parser_state \<times> nat) option" where
  "generate_tokens_from_string state s label cfg =
     (case s of
        None \<Rightarrow> Some (state, 0)
      | Some t \<Rightarrow>
          (case tokenize_loop cfg label t (state, [], 0, 0) of
             None \<Rightarrow> None
           | Some (state', tmpbuf, i, n) \<Rightarrow> Some (state', n)))"

section \<open>The loop as a fold over the words\<close>

fun token_rounds :: "config \<Rightarrow> string \<Rightarrow> string list \<Rightarrow> tok_state \<Rightarrow> tok_state option" where
  "token_rounds cfg label [] acc = Some acc"
| "token_rounds cfg label (v # vs) acc =
     (case token_round cfg label v acc of None \<Rightarrow> None | Some acc' \<Rightarrow> token_rounds cfg label vs acc')"

lemma tokenize_loop_rounds:
  "tokenize_loop cfg label s acc = token_rounds cfg label (split_all 511 SPACE s) acc"
proof (induction s arbitrary: acc rule: length_induct)
  case (1 s)
  obtain s' v r where sp: "split (Some s) SPACE 511 = (s', v, r)" by (metis prod_cases3)
  show ?case
  proof (cases s')
    case None
    with sp show ?thesis
      by (subst tokenize_loop.simps, subst split_all.simps) (auto split: option.splits)
  next
    case (Some s'')
    with sp have "length s'' < length s" by (simp add: split_shorter)
    with 1 sp Some show ?thesis
      by (subst tokenize_loop.simps, subst split_all.simps) (auto split: option.splits)
  qed
qed

lemma token_round_None_iff: "token_round cfg label v acc = None \<longleftrightarrow> v = []"
  by (cases acc) (simp add: token_round_def Let_def case_prod_beta)

lemma token_rounds_None_iff: "token_rounds cfg label vs acc = None \<longleftrightarrow> [] \<in> set vs"
proof (induction vs arbitrary: acc)
  case (Cons v vs)
  then show ?case
    using token_round_None_iff [of cfg label v acc] by (cases "token_round cfg label v acc") auto
qed simp

lemma generate_tokens_None_iff:
  "generate_tokens_from_string state (Some s) label cfg \<noteq> None \<longleftrightarrow> [] \<notin> set (cut_at SPACE s)"
proof -
  have "[] \<in> set (split_all 511 SPACE s) \<longleftrightarrow> [] \<in> set (cut_at SPACE s)"
    by (auto simp: split_all_cut_at)
  moreover have "generate_tokens_from_string state (Some s) label cfg = None \<longleftrightarrow>
      token_rounds cfg label (split_all 511 SPACE s) (state, [], 0, 0) = None"
    by (auto simp: generate_tokens_from_string_def tokenize_loop_rounds split: option.splits)
  ultimately show ?thesis by (simp add: token_rounds_None_iff)
qed

text \<open>
  C12: tokenizing a text is free of out-of-bounds accesses exactly when cutting it at spaces leaves
  no empty field; an empty text, a leading, a trailing or a double space makes the code read
  \<open>v[-1]\<close>.
\<close>

theorem tokenizer_safe_iff:
  "generate_tokens_from_string state (Some s) label cfg \<noteq> None \<longleftrightarrow> [] \<notin> set (cut_at SPACE s)"
  by (rule generate_tokens_None_iff)

section \<open>The tokens of a text\<close>

definition chop_word :: "string \<Rightarrow> string" where
  "chop_word v = (if chopped_char (last v) then butlast v else v)"

definition url_skip :: "string \<Rightarrow> nat" where
  "url_skip w = (if strncasecmp_eq w ''http://'' 7 then 7
     else if strncasecmp_eq w ''https://'' 8 then 8 else 0)"

definition url_part :: "string \<Rightarrow> string" where
  "url_part v = drop (url_skip (chop_word v)) (chop_word v)"

definition url_tokens :: "string \<Rightarrow> string list" where
  "url_tokens v = (if url_skip (chop_word v) > 0 then [snd (extract_url_token (url_part v) 512)] else [])"

definition word_text :: "string \<Rightarrow> string" where
  "word_text v = (if url_skip (chop_word v) > 0 then fst (extract_url_token (url_part v) 512)
     else chop_word v)"

definition accepted :: "config \<Rightarrow> string \<Rightarrow> string \<Rightarrow> bool" where
  "accepted cfg label v \<longleftrightarrow>
     size_t (cfg_min_word_len cfg) \<le> length (chop_word v) \<and>
     (length (chop_word v) \<le> size_t (cfg_max_word_len cfg) \<or> label = ''SUBJ*'' \<or>
      strncmp_eq (word_text v) ''att*'' 4)"

definition labelled :: "string \<Rightarrow> string \<Rightarrow> string" where
  "labelled label v = snprintf_s 511 (label @ word_text v)"

definition pair_token :: "string \<Rightarrow> string \<Rightarrow> string \<Rightarrow> string" where
  "pair_token label p v = snprintf_s 511 (p @ ''+'' @ label @ word_text v)"

definition single_tokens :: "string \<Rightarrow> string \<Rightarrow> string list" where
  "single_tokens label v = (if length (chop_word v) > 2 then [labelled label v] else [])"

abbreviation add_tokens :: "string list \<Rightarrow> hashtab \<Rightarrow> hashtab" where
  "add_tokens ts h \<equiv> fold (\<lambda>t h. add_default h t) ts h"

lemma token_round_Some:
  "v \<noteq> [] \<Longrightarrow> token_round cfg label v (st, tmp, i, n) =
     (let h0 = add_tokens (url_tokens v) (ps_token_hash st);
          ps = (if i > 0 then [pair_token label tmp v] else []) @ single_tokens label v;
          u = int (length (url_tokens v))
      in Some (if accepted cfg label v
          then (st\<lparr>ps_token_hash := add_tokens ps h0, ps_n_token := ps_n_token st + u\<rparr>,
                labelled label v, Suc i, n + length ps)
          else (st\<lparr>ps_token_hash := h0, ps_n_token := ps_n_token st + u\<rparr>, tmp, i, n)))"
  by (simp add: token_round_def Let_def case_prod_beta chop_word_def [symmetric]
      url_skip_def [symmetric] url_part_def [symmetric] url_tokens_def word_text_def accepted_def
      labelled_def pair_token_def single_tokens_def not_less not_le)

text \<open>All tokens in the order they are added, with the previous accepted word as a parameter.\<close>

fun run_tokens :: "config \<Rightarrow> string \<Rightarrow> string option \<Rightarrow> string list \<Rightarrow> string list" where
  "run_tokens cfg label prev [] = []"
| "run_tokens cfg label prev (v # vs) =
     url_tokens v @
     (if accepted cfg label v
      then (case prev of None \<Rightarrow> [] | Some p \<Rightarrow> [pair_token label p v]) @ single_tokens label v @
           run_tokens cfg label (Some (labelled label v)) vs
      else run_tokens cfg label prev vs)"

lemma token_rounds_run:
  "[] \<notin> set vs \<Longrightarrow>
   \<exists>tmp' i'. token_rounds cfg label vs (st, tmp, i, n) =
     Some (st\<lparr>ps_token_hash := add_tokens (run_tokens cfg label (if i > 0 then Some tmp else None) vs)
                                 (ps_token_hash st),
              ps_n_token := ps_n_token st + int (length (concat (map url_tokens vs)))\<rparr>, tmp', i',
           n + length (run_tokens cfg label (if i > 0 then Some tmp else None) vs) -
             length (concat (map url_tokens vs)))
     \<and> length (concat (map url_tokens vs)) \<le> length (run_tokens cfg label (if i > 0 then Some tmp else None) vs)"
proof (induction vs arbitrary: st tmp i n)
  case (Cons v vs)
  then have v: "v \<noteq> []" "[] \<notin> set vs" by auto
  show ?case
  proof (cases "accepted cfg label v")
    case True
    let ?ps = "(if i > 0 then [pair_token label tmp v] else []) @ single_tokens label v"
    let ?st = "st\<lparr>ps_token_hash := add_tokens ?ps (add_tokens (url_tokens v) (ps_token_hash st)),
        ps_n_token := ps_n_token st + int (length (url_tokens v))\<rparr>"
    show ?thesis
      using Cons.IH [OF v(2), of ?st "labelled label v" "Suc i" "n + length ?ps"] v True
      by (auto simp: token_round_Some Let_def)
  next
    case False
    let ?st = "st\<lparr>ps_token_hash := add_tokens (url_tokens v) (ps_token_hash st),
        ps_n_token := ps_n_token st + int (length (url_tokens v))\<rparr>"
    show ?thesis
      using Cons.IH [OF v(2), of ?st tmp i n] v False
      by (auto simp: token_round_Some Let_def)
  qed
qed simp

text \<open>Reference: URL tokens, pairs of neighbouring accepted words, and long enough words.\<close>

definition token_pairs :: "string \<Rightarrow> string list \<Rightarrow> string list" where
  "token_pairs label ws = map (\<lambda>(p, v). pair_token label (labelled label p) v) (zip ws (tl ws))"

definition token_singles :: "string \<Rightarrow> string list \<Rightarrow> string list" where
  "token_singles label ws = map (labelled label) (filter (\<lambda>v. length (chop_word v) > 2) ws)"

lemma token_singles_Cons: "token_singles label (v # ws) = single_tokens label v @ token_singles label ws"
  by (simp add: token_singles_def single_tokens_def)

lemma mset_run_tokens:
  "mset (run_tokens cfg label prev vs) =
     mset (concat (map url_tokens vs)) +
     mset (case (prev, filter (accepted cfg label) vs) of
             (Some p, v # ws) \<Rightarrow> [pair_token label p v] | _ \<Rightarrow> []) +
     mset (token_pairs label (filter (accepted cfg label) vs)) +
     mset (token_singles label (filter (accepted cfg label) vs))"
proof (induction vs arbitrary: prev)
  case (Cons v vs)
  show ?case
    by (cases "filter (accepted cfg label) vs"; cases prev)
      (auto simp: Cons token_singles_Cons token_pairs_def token_singles_def single_tokens_def)
qed (auto simp: token_pairs_def token_singles_def split: option.split)

lemma fold_add_default:
  "add_tokens ts h = fold (\<lambda>(s, v) t. addnode t s (fst v) (snd v))
     (map (\<lambda>t. (t, (Fin DEFAULT_SPAMICITY, Fin 0))) ts) h"
  by (simp add: fold_map comp_def)

lemma findkey_add_tokens:
  "wf_tab h \<Longrightarrow> findkey (add_tokens ts h) k =
     (case findkey h k of Some n \<Rightarrow> Some n
      | None \<Rightarrow> map_option (\<lambda>s. new_node s (Fin DEFAULT_SPAMICITY, Fin 0)) (List.find (\<lambda>s. xxh3_64 s = k) ts))"
proof -
  assume w: "wf_tab h"
  have "List.find (\<lambda>(s, v). xxh3_64 s = k) (map (\<lambda>t. (t, c)) ts) =
      map_option (\<lambda>t. (t, c)) (List.find (\<lambda>s. xxh3_64 s = k) ts)" for c :: "fp \<times> fp"
    by (induction ts) auto
  then show ?thesis
    unfolding fold_add_default tokens.lookup_inserts [OF w]
    by (simp add: option.map_comp comp_def split: option.split)
qed

lemma wf_add_tokens [intro]: "wf_tab h \<Longrightarrow> wf_tab (add_tokens ts h)"
  unfolding fold_add_default by (rule tokens.invar_inserts)

lemma findkey_add_tokens_None_iff:
  "wf_tab h \<Longrightarrow> findkey (add_tokens ts h) k = None \<longleftrightarrow> findkey h k = None \<and> k \<notin> xxh3_64 ` set ts"
  unfolding fold_add_default by (simp add: tokens.lookup_inserts_None_iff image_image)

lemma generate_tokens_run:
  assumes "[] \<notin> set (cut_at SPACE s)"
  defines "ws \<equiv> split_all 511 SPACE s"
  shows "generate_tokens_from_string st (Some s) label cfg =
     Some (st\<lparr>ps_token_hash := add_tokens (run_tokens cfg label None ws) (ps_token_hash st),
              ps_n_token := ps_n_token st + int (length (concat (map url_tokens ws)))\<rparr>,
           length (token_pairs label (filter (accepted cfg label) ws)) +
           length (token_singles label (filter (accepted cfg label) ws)))"
proof -
  have w: "[] \<notin> set ws" using assms by (auto simp: ws_def split_all_cut_at)
  have "length (run_tokens cfg label None ws) =
      length (concat (map url_tokens ws)) + length (token_pairs label (filter (accepted cfg label) ws)) +
      length (token_singles label (filter (accepted cfg label) ws))"
    using arg_cong [OF mset_run_tokens [of cfg label None ws], of size] by simp
  then show ?thesis
    using token_rounds_run [OF w, of cfg label st "[]" 0 0]
    by (auto simp: generate_tokens_from_string_def tokenize_loop_rounds ws_def)
qed

text \<open>
  C2: for a text without empty fields the tokenizer returns the number of pair and word tokens,
  adds every URL token to \<open>n_token\<close>, changes no other field of the parser state but the table,
  and afterwards the table holds a node for a key exactly when it did before or the key is that
  of a URL token, of a pair of neighbouring accepted words, or of an accepted word longer than two
  bytes; nodes that were there are unchanged.
\<close>

theorem tokenizer_tokens:
  assumes "[] \<notin> set (cut_at SPACE s)" and "wf_tab (ps_token_hash st)"
  shows "\<exists>h. let ws = split_all 511 SPACE s; acc = filter (accepted cfg label) ws in
     generate_tokens_from_string st (Some s) label cfg =
       Some (st\<lparr>ps_token_hash := h,
                ps_n_token := ps_n_token st + int (length (concat (map url_tokens ws)))\<rparr>,
             (length acc - 1) + length (filter (\<lambda>v. length (chop_word v) > 2) acc)) \<and>
     wf_tab h \<and>
     (\<forall>k n. findkey (ps_token_hash st) k = Some n \<longrightarrow> findkey h k = Some n) \<and>
     (\<forall>k. findkey h k \<noteq> None \<longleftrightarrow> findkey (ps_token_hash st) k \<noteq> None \<or>
        k \<in> xxh3_64 ` (set (concat (map url_tokens ws)) \<union> set (token_pairs label acc) \<union>
                        set (token_singles label acc)))"
proof -
  let ?ws = "split_all 511 SPACE s"
  let ?acc = "filter (accepted cfg label) ?ws"
  let ?h = "add_tokens (run_tokens cfg label None ?ws) (ps_token_hash st)"
  have set_run: "set (run_tokens cfg label None ?ws) =
      set (concat (map url_tokens ?ws)) \<union> set (token_pairs label ?acc) \<union> set (token_singles label ?acc)"
    using arg_cong [OF mset_run_tokens [of cfg label None ?ws], of set_mset] by simp
  have len: "length (token_pairs label ?acc) = length ?acc - 1"
    "length (token_singles label ?acc) = length (filter (\<lambda>v. length (chop_word v) > 2) ?acc)"
    by (simp_all add: token_pairs_def token_singles_def)
  have kept: "\<forall>k n. findkey (ps_token_hash st) k = Some n \<longrightarrow> findkey ?h k = Some n"
    unfolding findkey_add_tokens [OF assms(2)] by simp
  have added: "\<forall>k. findkey ?h k \<noteq> None \<longleftrightarrow> findkey (ps_token_hash st) k \<noteq> None \<or>
      k \<in> xxh3_64 ` (set (concat (map url_tokens ?ws)) \<union> set (token_pairs label ?acc) \<union>
                      set (token_singles label ?acc))"
    by (simp only: findkey_add_tokens_None_iff [OF assms(2)] set_run de_Morgan_conj not_not) simp
  show ?thesis
    unfolding Let_def
    by (intro exI [of _ ?h] conjI kept added wf_add_tokens [OF assms(2)])
      (simp only: generate_tokens_run [OF assms(1)] len)
qed

theorem tokenizer_tokens_witness:
  "\<exists>h. generate_tokens_from_string init_state (Some ''free money'') [] (default_config []) =
     Some (init_state\<lparr>ps_token_hash := h\<rparr>, 3) \<and>
     findkey h (xxh3_64 ''free+money'') \<noteq> None"
proof -
  have c: "cut_at SPACE ''free money'' = [''free'', ''money'']" by simp
  have w: "split_all 511 SPACE ''free money'' = [''free'', ''money'']"
    by (simp add: split_all_cut_at c)
  have v: "chop_word ''free'' = ''free''" "chop_word ''money'' = ''money''"
    by (simp_all add: chop_word_def chopped_char_def)
  have u: "url_skip ''free'' = 0" "url_skip ''money'' = 0"
    by (simp_all add: url_skip_def strncasecmp_eq_def tolower_def isupper_def)
  have z: "size_t 1 = 1" "size_t 25 = 25"
    by (simp_all add: size_t_def)
  have a: "filter (accepted (default_config []) []) [''free'', ''money''] = [''free'', ''money'']"
    "concat (map url_tokens [''free'', ''money'']) = []"
    "length (filter (\<lambda>v. length (chop_word v) > 2) [''free'', ''money'']) = 2"
    "token_pairs [] [''free'', ''money''] = [''free+money'']"
    by (simp_all add: accepted_def v u z url_tokens_def token_pairs_def pair_token_def labelled_def
        word_text_def snprintf_s_def)
  have "[] \<notin> set (cut_at SPACE ''free money'')" "wf_tab (ps_token_hash init_state)"
    by (simp_all add: c init_state_def)
  from tokenizer_tokens [OF this, of "default_config []" "[]"] show ?thesis
    unfolding w Let_def a by (auto simp: numeral_3_eq_3)
qed

end
