(* ===== verification/Token_Query.thy ===== *)
theory Token_Query
  imports Mysql Tokenizer
begin

text \<open>
  \<open>src/qqq.c\<close>: the counters of the tokens of a message are read from, and their dates updated in,
  the database, in one query that lists all keys.  The query is built in a block whose size is
  computed beforehand; a write behind its end, or a query without room for the terminator, is the
  result \<open>None\<close>.  \<open>malloc\<close> is the parameter that says whether a request is met.
\<close>

definition create_stmt :: string where
  "create_stmt = snprintf_s 511 (''CREATE TEMPORARY TABLE '' @ ''temp_token'' @ '' (token BIGINT UNSIGNED PRIMARY KEY)'')"

definition insert_head :: string where
  "insert_head = snprintf_s 511 (''INSERT INTO '' @ ''temp_token'' @ '' (token) VALUES (0)'')"

text \<open>\<open>snprintf (s, sizeof(s)-1, ",(%llu)", key)\<close>\<close>

definition key_item :: "64 word \<Rightarrow> string" where
  "key_item key = snprintf_s 511 ('',('' @ show_nat (unat key) @ '')'')"

text \<open>The copies into the block \<open>query\<close> of \<open>size\<close> bytes; \<open>buf\<close> holds the \<open>pos\<close> bytes written.\<close>

fun append_all :: "nat \<Rightarrow> string \<Rightarrow> string list \<Rightarrow> string option" where
  "append_all room buf [] = Some buf"
| "append_all room buf (s # ss) =
     (if length buf + length s \<le> room then append_all room (buf @ s) ss else None)"

text \<open>\<open>mysql_query\<close> reads up to the terminator, which \<open>memset\<close> left behind a shorter query.\<close>

definition build_query :: "nat \<Rightarrow> string list \<Rightarrow> string option" where
  "build_query room ss =
     (case append_all room [] ss of
        None \<Rightarrow> None
      | Some q \<Rightarrow> if length q < room then Some q else None)"

definition type_matches :: "int \<Rightarrow> node \<Rightarrow> bool" where
  "type_matches type q \<longleftrightarrow> type = -1 \<or> (type = 1 \<and> n_type q = 1) \<or> (type = 0 \<and> n_type q = 0)"

definition select_stmt :: string where
  "select_stmt = ''SELECT t.token, t.nham, t.nspam FROM token t JOIN temp_token lt ON t.token = lt.token''"

definition use_row :: "string list \<Rightarrow> hashtab \<Rightarrow> hashtab" where
  "use_row row h = fst (updatenode h (strtoull (row ! 0)) (strtod (row ! 1)) (strtod (row ! 2)) DEFAULT_SPAMICITY 0)"

text \<open>The part both functions share: a connection of their own with an empty table \<open>temp_token\<close>.\<close>

definition open_temp_table :: "'w mysql \<Rightarrow> config \<Rightarrow> 'w \<Rightarrow> nat option \<times> 'w" where
  "open_temp_table my cfg w =
     (case mysql_init my w of
        (None, w1) \<Rightarrow> (None, w1)
      | (Some conn, w1) \<Rightarrow>
          (case mysql_real_connect my conn cfg w1 of
             (False, w2) \<Rightarrow> (None, mysql_close my conn w2)
           | (True, w2) \<Rightarrow>
               (case mysql_query my conn create_stmt w2 of (r, w3) \<Rightarrow>
                  if r \<noteq> 0 then (None, mysql_close my conn w3) else (Some conn, w3))))"

text \<open>
  \<open>size_t len = SMALLBUFSIZE + n * item\<close> for an \<open>int\<close> \<open>n\<close>: the sum is an \<open>int\<close>, taken to wrap around at
  32 bits, which is then converted.
\<close>

definition query_len :: "int \<Rightarrow> int \<Rightarrow> nat" where
  "query_len n item = size_t (to_int32 (int SMALLBUFSIZE + n * item))"

definition get_tokens ::
  "'w mysql \<Rightarrow> (nat \<Rightarrow> bool) \<Rightarrow> parser_state \<Rightarrow> int \<Rightarrow> config \<Rightarrow> 'w \<Rightarrow> (int \<times> parser_state \<times> 'w) option" where
  "get_tokens my malloc state type cfg w =
     (case open_temp_table my cfg w of
        (None, w1) \<Rightarrow> Some (1, state, w1)
      | (Some conn, w1) \<Rightarrow>
          let len = query_len (ps_n_token state) 24
          in if \<not> malloc len then Some (1, state, mysql_close my conn w1)
             else
               (case build_query len (insert_head #
                       map (\<lambda>q. key_item (xxh3_64 (n_str q)))
                         (filter (type_matches type) (all_nodes (ps_token_hash state)))) of
                  None \<Rightarrow> None
                | Some query \<Rightarrow>
                    (case mysql_query my conn query w1 of (rc, w2) \<Rightarrow>
                       if rc \<noteq> 0 then Some (1, state, mysql_close my conn w2)
                       else
                         (case mysql_query my conn select_stmt w2 of (r, w3) \<Rightarrow>
                            if r \<noteq> 0 then Some (1, state, mysql_close my conn w3)
                            else
                              (case mysql_store_result my conn w3 of
                                 (None, w4) \<Rightarrow> Some (1, state, mysql_close my conn w4)
                               | (Some rows, w4) \<Rightarrow>
                                   Some (0, state\<lparr>ps_token_hash := fold use_row rows (ps_token_hash state)\<rparr>,
                                         mysql_close my conn w4))))))"

definition known_token :: "node \<Rightarrow> bool" where
  "known_token q \<longleftrightarrow> n_nham q + n_nspam q > 0"

definition update_dates_stmt :: string where
  "update_dates_stmt = snprintf_s 511 (''UPDATE '' @ ''token'' @ '' t JOIN '' @ ''temp_token'' @
     '' tt ON t.token = tt.token SET updated=NOW()'')"

definition update_token_dates ::
  "'w mysql \<Rightarrow> (nat \<Rightarrow> bool) \<Rightarrow> parser_state \<Rightarrow> config \<Rightarrow> 'w \<Rightarrow> (nat \<times> 'w) option" where
  "update_token_dates my malloc state cfg w =
     (case open_temp_table my cfg w of
        (None, w1) \<Rightarrow> Some (0, w1)
      | (Some conn, w1) \<Rightarrow>
          let count = to_int32 (int (count_existing_tokens_in_token_table (ps_token_hash state)));
              len = query_len count 24
          in if \<not> malloc len then Some (0, mysql_close my conn w1)
             else
               let ks = map (\<lambda>q. key_item (n_key q)) (filter known_token (all_nodes (ps_token_hash state)));
                   utokens = length ks
               in (case build_query len (insert_head # ks) of
                     None \<Rightarrow> None
                   | Some query \<Rightarrow>
                       (case mysql_query my conn query w1 of (rc, w2) \<Rightarrow>
                          if rc \<noteq> 0 then Some (utokens, mysql_close my conn w2)
                          else Some (utokens, mysql_close my conn (snd (mysql_query my conn update_dates_stmt w2))))))"

section \<open>The size of the query\<close>

lemma append_all_eq:
  "append_all room buf ss =
     (if ss = [] \<or> length buf + length (concat ss) \<le> room then Some (buf @ concat ss) else None)"
  by (induction ss arbitrary: buf) auto

lemma build_query_eq:
  "build_query room ss = (if length (concat ss) < room then Some (concat ss) else None)"
  by (cases ss) (auto simp: build_query_def append_all_eq)

lemma key_item_eq: "key_item k = '',('' @ show_nat (unat k) @ '')''"
  and length_key_item: "length (key_item k) \<le> 23"
proof -
  have "unat k < 2 ^ 64" using unsigned_less [of k] by simp
  then have "unat k < 10 ^ 20" by simp
  then have l: "length (show_nat (unat k)) \<le> 20" by (rule length_show_nat) simp
  then show "key_item k = '',('' @ show_nat (unat k) @ '')''"
    by (simp add: key_item_def snprintf_s_fits)
  with l show "length (key_item k) \<le> 23" by simp
qed

lemma length_key_items: "length (concat (map (\<lambda>q. key_item (f q)) qs)) \<le> 23 * length qs"
proof (induction qs)
  case (Cons q qs)
  then show ?case using length_key_item [of "f q"] by simp
qed simp

lemma length_insert_head [simp]: "length insert_head = 41"
  by (simp add: insert_head_def snprintf_s_def)

lemma count_known: "count_existing_tokens_in_token_table h = length (filter known_token (all_nodes h))"
  by (simp add: count_existing_tokens_in_token_table_def known_token_def [abs_def])

text \<open>The numbers of items up to which the size of their block does not overflow.\<close>

abbreviation MAX_KEYS :: int where "MAX_KEYS \<equiv> 89478463"
abbreviation MAX_NEW_TOKENS :: int where "MAX_NEW_TOKENS \<equiv> 76695826"

lemma query_len_keys: "0 \<le> n \<Longrightarrow> n \<le> MAX_KEYS \<Longrightarrow> query_len n 24 = 512 + 24 * nat n"
  and query_len_new_tokens: "0 \<le> n \<Longrightarrow> n \<le> MAX_NEW_TOKENS \<Longrightarrow> query_len n 28 = 512 + 28 * nat n"
  by (simp_all add: query_len_def to_int32_id size_t_def)

text \<open>One item more, and a negative \<open>int\<close> becomes a size no allocator grants; later sizes are small again.\<close>

lemma query_len_overflows:
  "query_len (MAX_KEYS + 1) 24 = 18446744071562067968" "query_len (MAX_NEW_TOKENS + 1) 28 = 18446744071562067988"
  "query_len 178956971 24 = 520"
  by (simp_all add: query_len_def to_int32_def size_t_def)

lemma update_token_dates_total:
  assumes "int (count_existing_tokens_in_token_table (ps_token_hash state)) \<le> MAX_KEYS"
  shows "update_token_dates my malloc state cfg w \<noteq> None"
proof -
  let ?h = "ps_token_hash state"
  have "to_int32 (int (count_existing_tokens_in_token_table ?h)) = int (count_existing_tokens_in_token_table ?h)"
    using assms by (intro to_int32_id) simp_all
  moreover have "length (concat (insert_head # map (\<lambda>q. key_item (n_key q)) (filter known_token (all_nodes ?h))))
      < query_len (int (count_existing_tokens_in_token_table ?h)) 24"
    using length_key_items [of n_key "filter known_token (all_nodes ?h)"] assms
    by (simp add: query_len_keys count_known)
  ultimately show ?thesis
    by (simp add: update_token_dates_def Let_def case_prod_beta build_query_eq split: option.split prod.split)
qed

text \<open>
  Updating the dates never writes behind the block of the query: it is sized by the number of tokens that
  are written, as long as that size is an \<open>int\<close>.
\<close>

theorem update_token_dates_in_bounds:
  "int (count_existing_tokens_in_token_table (ps_token_hash state)) \<le> MAX_KEYS \<Longrightarrow>
   update_token_dates my malloc state cfg w \<noteq> None"
  by (rule update_token_dates_total)

abbreviation selected :: "parser_state \<Rightarrow> int \<Rightarrow> node list" where
  "selected state type \<equiv> filter (type_matches type) (all_nodes (ps_token_hash state))"

abbreviation key_query :: "node list \<Rightarrow> string" where
  "key_query qs \<equiv> insert_head @ concat (map (\<lambda>q. key_item (xxh3_64 (n_str q))) qs)"

lemma get_tokens_None_iff:
  "get_tokens my malloc state type cfg w = None \<longleftrightarrow>
     fst (open_temp_table my cfg w) \<noteq> None \<and>
     malloc (query_len (ps_n_token state) 24) \<and>
     query_len (ps_n_token state) 24 \<le> length (key_query (selected state type))"
  by (auto simp: get_tokens_def build_query_eq Let_def split: option.splits prod.splits)

lemma length_key_item_ge: "4 \<le> length (key_item k)"
proof -
  have "1 \<le> length (show_nat (unat k))" by (simp add: Suc_le_eq)
  then show ?thesis by (simp add: key_item_eq)
qed

lemma length_key_items_ge: "4 * length qs \<le> length (concat (map (\<lambda>q. key_item (f q)) qs))"
proof (induction qs)
  case (Cons q qs)
  then show ?case using length_key_item_ge [of "f q"] by simp
qed simp

text \<open>
  Reading the counters is different: the block is sized by \<open>n_token\<close>, which the parser does
  not increment for every token it adds.  The copies stay in the block whenever \<open>n_token\<close> is at
  least the number of selected nodes and the size does not overflow; when there are so many nodes that four
  bytes each fill the block, the code writes behind it (or leaves no terminator).
\<close>

theorem get_tokens_bounds:
  "(int (length (selected state type)) \<le> ps_n_token state \<and> ps_n_token state \<le> MAX_KEYS \<longrightarrow>
      get_tokens my malloc state type cfg w \<noteq> None) \<and>
   (fst (open_temp_table my cfg w) \<noteq> None \<and> (\<forall>n. malloc n) \<and>
      query_len (ps_n_token state) 24 \<le> 41 + 4 * length (selected state type) \<longrightarrow>
      get_tokens my malloc state type cfg w = None)"
proof (intro conjI impI)
  assume "int (length (selected state type)) \<le> ps_n_token state \<and> ps_n_token state \<le> MAX_KEYS"
  then show "get_tokens my malloc state type cfg w \<noteq> None"
    using length_key_items [of "\<lambda>q. xxh3_64 (n_str q)" "selected state type"]
    by (auto simp: get_tokens_None_iff query_len_keys)
qed (use length_key_items_ge [of "selected state type" "\<lambda>q. xxh3_64 (n_str q)"] in
      \<open>auto simp: get_tokens_None_iff\<close>)

section \<open>What is read from the database\<close>

text \<open>
  The documented behaviour of the server for the statements \<open>get_tokens\<close> sends: after a
  connection and an empty temporary table, inserting distinct keys other than 0 succeeds, and the
  join returns one row for each inserted key that is in the token table \<open>tab\<close>, in any order.
\<close>

definition token_row :: "(64 word \<Rightarrow> (nat \<times> nat) option) \<Rightarrow> 64 word \<Rightarrow> string list" where
  "token_row tab k = [show_nat (unat k), show_nat (fst (the (tab k))), show_nat (snd (the (tab k)))]"

definition answers :: "'w mysql \<Rightarrow> config \<Rightarrow> (64 word \<Rightarrow> (nat \<times> nat) option) \<Rightarrow> 'w \<Rightarrow> bool" where
  "answers my cfg tab w \<longleftrightarrow>
     (\<forall>ks. distinct ks \<and> 0 \<notin> set ks \<longrightarrow>
       (\<exists>conn w1 w2 w3 w4 rows. open_temp_table my cfg w = (Some conn, w1) \<and>
          mysql_query my conn (insert_head @ concat (map key_item ks)) w1 = (0, w2) \<and>
          mysql_query my conn select_stmt w2 = (0, w3) \<and>
          mysql_store_result my conn w3 = (Some rows, w4) \<and>
          mset rows = mset (map (token_row tab) (filter (\<lambda>k. tab k \<noteq> None) (0 # ks)))))"

text \<open>A node after the row of its key, if any, has been added to its counters.\<close>

definition with_counts :: "(64 word \<Rightarrow> (nat \<times> nat) option) \<Rightarrow> node \<Rightarrow> node" where
  "with_counts tab q =
     (case tab (n_key q) of None \<Rightarrow> q
      | Some (a, b) \<Rightarrow> q\<lparr>n_nham := n_nham q + real a, n_nspam := n_nspam q + real b\<rparr>)"

lemma use_token_row:
  "findkey (use_row (token_row tab k) h) k' =
     (if k' = k then map_option (bump_node (real (fst (the (tab k)))) (real (snd (the (tab k)))) DEFAULT_SPAMICITY 0) (findkey h k')
      else findkey h k')"
  by (simp add: use_row_def token_row_def findkey_updatenode)

lemma findkey_n_key: "findkey h k = Some q \<Longrightarrow> n_key q = k"
  by (auto simp: findkey_def dest: chain_find_SomeD)

lemma use_token_rows:
  "distinct ks \<Longrightarrow> \<forall>k\<in>set ks. tab k \<noteq> None \<Longrightarrow>
   findkey (fold use_row (map (token_row tab) ks) h) k =
     (if k \<in> set ks then map_option (with_counts tab) (findkey h k) else findkey h k)"
proof (induction ks arbitrary: h)
  case (Cons x ks)
  have "bump_node (real (fst (the (tab x)))) (real (snd (the (tab x)))) DEFAULT_SPAMICITY 0 q = with_counts tab q"
    if "findkey h x = Some q" for q
    using Cons.prems findkey_n_key [OF that] by (auto simp: bump_node_def with_counts_def)
  then have "map_option (bump_node (real (fst (the (tab x)))) (real (snd (the (tab x)))) DEFAULT_SPAMICITY 0)
      (findkey h x) = map_option (with_counts tab) (findkey h x)"
    by (cases "findkey h x") simp_all
  with Cons show ?case by (auto simp: use_token_row)
qed simp

lemma rows_of_keys:
  assumes "mset rows = mset (map (token_row tab) xs)"
  obtains ks where "rows = map (token_row tab) ks" and "mset ks = mset xs"
proof
  let ?key = "\<lambda>r. strtoull (r ! 0)"
  have key: "?key (token_row tab k) = k" for k by (simp add: token_row_def)
  have "r \<in> token_row tab ` set xs" if "r \<in> set rows" for r
    using that mset_eq_setD [OF assms] by simp
  then have "token_row tab (?key r) = r" if "r \<in> set rows" for r
    using that key by fastforce
  then show "rows = map (token_row tab) (map ?key rows)" by (simp add: map_idI comp_def)
  have "mset (map ?key rows) = image_mset ?key (mset (map (token_row tab) xs))"
    using assms by simp
  then show "mset (map ?key rows) = mset xs" by (simp add: key comp_def multiset.map_comp)
qed

text \<open>The rows of the selected tokens, in any order, change exactly these.\<close>

lemma rows_of_selected:
  assumes "wf_tab h" and "findkey h 0 = None"
    and "mset rows = mset (map (token_row tab) (filter (\<lambda>k. tab k \<noteq> None) (0 # map n_key (filter P (all_nodes h)))))"
  shows "findkey (fold use_row rows h) k = map_option (\<lambda>q. if P q then with_counts tab q else q) (findkey h k)"
proof -
  let ?ks = "map n_key (filter P (all_nodes h))"
  have zero: "0 \<notin> set ?ks" using assms(2) member_all_nodes [OF assms(1)] by force
  obtain ks where ks: "rows = map (token_row tab) ks" "mset ks = mset (filter (\<lambda>k. tab k \<noteq> None) (0 # ?ks))"
    using rows_of_keys [OF assms(3)] .
  have dist: "distinct ks"
    using distinct_all_nodes [OF assms(1)] zero mset_eq_imp_distinct_iff [OF ks(2)] by (simp add: distinct_map_filter)
  have set_ks: "set ks = {k \<in> insert 0 (set ?ks). tab k \<noteq> None}"
    using mset_eq_setD [OF ks(2)] by auto
  show ?thesis
  proof (cases "findkey h k")
    case None
    then show ?thesis using use_token_rows [OF dist, of tab h k] set_ks ks(1) by simp
  next
    case (Some q)
    have q: "n_key q = k" "q \<in> set (all_nodes h)"
      using findkey_n_key [OF Some] Some member_all_nodes [OF assms(1), of q] by auto
    have "k \<in> set ?ks \<longleftrightarrow> P q"
    proof
      assume "k \<in> set ?ks"
      then obtain q' where q': "q' \<in> set (all_nodes h)" "P q'" "n_key q' = k" by auto
      then have "q' = q" using Some member_all_nodes [OF assms(1), of q'] by simp
      with q' show "P q" by simp
    qed (use q in force)
    moreover have "k \<noteq> 0" using Some assms(2) by auto
    moreover have u: "with_counts tab q = q" if "tab k = None" using that q by (simp add: with_counts_def)
    ultimately have "findkey (fold use_row rows h) k = (if P q \<and> tab k \<noteq> None then Some (with_counts tab q) else Some q)"
      using use_token_rows [OF dist, of tab h k] set_ks ks(1) Some by auto
    then show ?thesis using Some u by (cases "tab k") auto
  qed
qed

text \<open>
  C6: with a server that answers as documented, no token whose key is 0, and an \<open>n_token\<close> that counts the
  selected tokens and is small enough for the size of the query to be an \<open>int\<close>, \<open>get_tokens\<close> succeeds and adds to exactly the selected tokens the counters the database has for their keys; tokens of
  the other type and tokens the database does not know keep their counters, and nothing else in
  the parser state changes.
\<close>

theorem get_tokens_spec:
  assumes "answers my cfg tab w" and "wf_tab (ps_token_hash st)" and "findkey (ps_token_hash st) 0 = None"
    and "\<forall>n. malloc n" and "int (length (selected st type)) \<le> ps_n_token st" and "ps_n_token st \<le> MAX_KEYS"
  shows "\<exists>h w'. get_tokens my malloc st type cfg w = Some (0, st\<lparr>ps_token_hash := h\<rparr>, w') \<and>
     (\<forall>k. findkey h k = map_option (\<lambda>q. if type_matches type q then with_counts tab q else q)
        (findkey (ps_token_hash st) k))"
proof -
  let ?h = "ps_token_hash st"
  let ?ks = "map n_key (selected st type)"
  have str: "xxh3_64 (n_str q) = n_key q" if "q \<in> set (selected st type)" for q
    using that wf_tab_member [OF assms(2)] by (auto simp: set_all_nodes)
  then have items: "map (\<lambda>q. key_item (xxh3_64 (n_str q))) (selected st type) = map key_item ?ks" by simp
  have "distinct ?ks" using distinct_all_nodes [OF assms(2)] by (simp add: distinct_map_filter)
  moreover have "0 \<notin> set ?ks" using assms(3) member_all_nodes [OF assms(2)] by force
  ultimately obtain conn w1 w2 w3 w4 rows where srv:
    "open_temp_table my cfg w = (Some conn, w1)"
    "mysql_query my conn (insert_head @ concat (map key_item ?ks)) w1 = (0, w2)"
    "mysql_query my conn select_stmt w2 = (0, w3)"
    "mysql_store_result my conn w3 = (Some rows, w4)"
    "mset rows = mset (map (token_row tab) (filter (\<lambda>k. tab k \<noteq> None) (0 # ?ks)))"
    using assms(1) unfolding answers_def by blast
  have "length (key_query (selected st type)) < query_len (ps_n_token st) 24"
    using length_key_items [of "\<lambda>q. xxh3_64 (n_str q)" "selected st type"] assms(5,6)
    by (simp add: query_len_keys)
  then have "get_tokens my malloc st type cfg w = Some (0, st\<lparr>ps_token_hash := fold use_row rows ?h\<rparr>, mysql_close my conn w4)"
    using srv assms(4) by (simp add: get_tokens_def Let_def build_query_eq items)
  then show ?thesis using rows_of_selected [OF assms(2,3) srv(5)] by blast
qed

section \<open>Connections\<close>

text \<open>
  How the client library accounts for connections: \<open>mysql_init\<close> hands out one that is not open,
  \<open>mysql_close\<close> closes it, and nothing else opens or closes one.
\<close>

definition conn_laws :: "'w mysql \<Rightarrow> ('w \<Rightarrow> nat set) \<Rightarrow> bool" where
  "conn_laws my opens \<longleftrightarrow>
     (\<forall>w. case mysql_init my w of
            (None, w') \<Rightarrow> opens w' = opens w
          | (Some c, w') \<Rightarrow> c \<notin> opens w \<and> opens w' = insert c (opens w)) \<and>
     (\<forall>c cfg w. opens (snd (mysql_real_connect my c cfg w)) = opens w) \<and>
     (\<forall>c s w. opens (snd (mysql_query my c s w)) = opens w) \<and>
     (\<forall>c w. opens (snd (mysql_store_result my c w)) = opens w) \<and>
     (\<forall>c w. opens (mysql_close my c w) = opens w - {c})"

lemma conn_laws_init:
  assumes "conn_laws my opens"
  shows "mysql_init my w = (None, w') \<Longrightarrow> opens w' = opens w"
    and "mysql_init my w = (Some c, w') \<Longrightarrow> c \<notin> opens w \<and> opens w' = insert c (opens w)"
proof -
  have "case mysql_init my w of (None, w') \<Rightarrow> opens w' = opens w
      | (Some c, w') \<Rightarrow> c \<notin> opens w \<and> opens w' = insert c (opens w)"
    using assms unfolding conn_laws_def by (elim conjE) (erule spec)
  then show "mysql_init my w = (None, w') \<Longrightarrow> opens w' = opens w"
    "mysql_init my w = (Some c, w') \<Longrightarrow> c \<notin> opens w \<and> opens w' = insert c (opens w)" by auto
qed

lemma conn_laws_steps:
  assumes "conn_laws my opens"
  shows "opens (snd (mysql_real_connect my c cfg w)) = opens w"
    and "opens (snd (mysql_query my c s w)) = opens w"
    and "opens (snd (mysql_store_result my c w)) = opens w"
    and "opens (mysql_close my c w) = opens w - {c}"
proof -
  note laws = assms [unfolded conn_laws_def]
  show "opens (snd (mysql_real_connect my c cfg w)) = opens w" using laws by (elim conjE) simp
  show "opens (snd (mysql_query my c s w)) = opens w" using laws by (elim conjE) simp
  show "opens (snd (mysql_store_result my c w)) = opens w" using laws by (elim conjE) simp
  show "opens (mysql_close my c w) = opens w - {c}" using laws by (elim conjE) simp
qed

lemma open_temp_table_opens:
  assumes "conn_laws my opens"
  shows "case open_temp_table my (cfg :: config) w of (None, w') \<Rightarrow> opens w' = opens w
    | (Some c, w') \<Rightarrow> c \<notin> opens w \<and> opens w' = insert c (opens w)"
proof (cases "mysql_init my w")
  case (Pair oc w1)
  show ?thesis
  proof (cases oc)
    case None
    with Pair show ?thesis using conn_laws_init(1) [OF assms] by (simp add: open_temp_table_def)
  next
    case (Some c)
    with Pair have "c \<notin> opens w" "opens w1 = insert c (opens w)"
      using conn_laws_init(2) [OF assms] by auto
    with Pair Some show ?thesis
      using conn_laws_steps [OF assms]
      by (simp add: open_temp_table_def case_prod_beta split: bool.split)
  qed
qed

text \<open>
  \<open>get_tokens\<close> and \<open>update_token_dates\<close> close the connection they open on every path, the
  failures included: afterwards exactly the connections are open that were open before.
\<close>

theorem queries_close_their_connection:
  assumes "conn_laws my opens"
  shows "(case get_tokens my malloc st type cfg w of None \<Rightarrow> True | Some (r, st', w') \<Rightarrow> opens w' = opens w) \<and>
    (case update_token_dates my malloc st cfg w of None \<Rightarrow> True | Some (n, w') \<Rightarrow> opens w' = opens w)"
proof (cases "open_temp_table my cfg w")
  case (Pair oc w1)
  note o = open_temp_table_opens [OF assms, where cfg = cfg and w = w, unfolded Pair]
  note steps = conn_laws_steps [OF assms]
  show ?thesis
    using o by (cases oc)
      (simp_all add: get_tokens_def update_token_dates_def Pair Let_def case_prod_beta steps split: option.split)
qed

section \<open>A server for the examples\<close>

text \<open>The demonstration server keeps its connections, its token table and the inserted keys.\<close>

record demo =
  d_conns :: "nat list"
  d_tab :: "64 word \<Rightarrow> (nat \<times> nat) option"
  d_keys :: "64 word list"

function numbers_in :: "string \<Rightarrow> string list" where
  "numbers_in s = (case dropWhile (\<lambda>c. \<not> isdigit c) s of
     [] \<Rightarrow> [] | c # cs \<Rightarrow> (c # takeWhile isdigit cs) # numbers_in (dropWhile isdigit cs))"
  by pat_completeness auto
termination
proof (relation "measure length")
  fix s c cs assume "dropWhile (\<lambda>c. \<not> isdigit c) s = c # cs"
  then have "length (c # cs) \<le> length s" by (metis length_dropWhile_le)
  moreover have "length (dropWhile isdigit cs) \<le> length cs" by (rule length_dropWhile_le)
  ultimately show "(dropWhile isdigit cs, s) \<in> measure length" by simp
qed simp

declare numbers_in.simps [simp del]

definition demo_server :: "demo mysql" where
  "demo_server = \<lparr>
     mysql_init = \<lambda>w. (Some (Suc (sum_list (d_conns w))), w\<lparr>d_conns := Suc (sum_list (d_conns w)) # d_conns w\<rparr>),
     mysql_options = \<lambda>c s i w. w,
     mysql_real_connect = \<lambda>c cfg w. (True, w),
     mysql_close = \<lambda>c w. w\<lparr>d_conns := filter (\<lambda>d. d \<noteq> c) (d_conns w)\<rparr>,
     mysql_query = \<lambda>c s w. (0, if take 6 s = ''INSERT'' then w\<lparr>d_keys := map strtoull (numbers_in s)\<rparr> else w),
     mysql_select_db = \<lambda>c s w. (0, w),
     mysql_store_result = \<lambda>c w. (Some (map (token_row (d_tab w)) (filter (\<lambda>k. d_tab w k \<noteq> None) (d_keys w))), w),
     mysql_stmt_init = \<lambda>c w. (Some 0, w),
     mysql_stmt_prepare = \<lambda>st s w. (0, w),
     mysql_stmt_bind_param = \<lambda>st ps w. (0, w),
     mysql_stmt_execute = \<lambda>st w. (0, w),
     mysql_stmt_bind_result = \<lambda>st ts w. (0, w),
     mysql_stmt_store_result = \<lambda>st w. (0, w),
     mysql_stmt_fetch = \<lambda>st w. (None, w),
     mysql_stmt_free_result = \<lambda>st w. w,
     mysql_stmt_insert_id = \<lambda>st w. 0,
     mysql_stmt_affected_rows = \<lambda>st w. 0,
     mysql_stmt_close = \<lambda>st w. w\<rparr>"

definition demo_world :: "(64 word \<Rightarrow> (nat \<times> nat) option) \<Rightarrow> demo" where
  "demo_world tab = \<lparr>d_conns = [], d_tab = tab, d_keys = []\<rparr>"

lemma numbers_in_digits:
  "isdigit c \<Longrightarrow> numbers_in (c # cs) = (c # takeWhile isdigit cs) # numbers_in (dropWhile isdigit cs)"
  by (subst numbers_in.simps) simp

lemma numbers_in_skip: "\<not> isdigit c \<Longrightarrow> numbers_in (c # cs) = numbers_in cs"
  by (subst (1 2) numbers_in.simps) simp

lemma numbers_in_Nil [simp]: "numbers_in [] = []"
  by (simp add: numbers_in.simps)

lemma numbers_in_key_item: "numbers_in (key_item k @ s) = show_nat (unat k) # numbers_in s"
proof -
  obtain c cs where c: "show_nat (unat k) = c # cs" "isdigit c" "takeWhile isdigit cs = cs"
    by (rule show_nat_cases)
  have "\<forall>x\<in>set cs. isdigit x" using c(3) by (simp add: takeWhile_eq_all_conv)
  moreover have "\<not> isdigit (CHR '','')" "\<not> isdigit (CHR ''('')" "\<not> isdigit (CHR '')'')"
    by (simp_all add: isdigit_def)
  ultimately show ?thesis
    using c(2) by (simp add: key_item_eq c(1) numbers_in_skip numbers_in_digits
        takeWhile_append dropWhile_append)
qed

lemma numbers_in_keys:
  "numbers_in (concat (map key_item ks)) = map (\<lambda>k. show_nat (unat k)) ks"
  by (induction ks) (simp_all add: numbers_in_key_item)

lemma numbers_in_insert: "numbers_in (insert_head @ s) = ''0'' # numbers_in s"
  by (simp add: insert_head_def snprintf_s_def numbers_in_skip numbers_in_digits isdigit_def)

lemma take_insert_head [simp]: "take 6 (insert_head @ s) = ''INSERT''"
  by (simp add: insert_head_def snprintf_s_def)

lemma demo_open:
  "open_temp_table demo_server cfg w =
     (Some (Suc (sum_list (d_conns w))), w\<lparr>d_conns := Suc (sum_list (d_conns w)) # d_conns w\<rparr>)"
  by (simp add: open_temp_table_def demo_server_def create_stmt_def snprintf_s_def)

lemma strtoull_0: "strtoull ''0'' = 0"
  by (simp add: strtoull_def Let_def isspace_def isdigit_def digits_val_def digit_val_def)

lemma demo_answers: "answers demo_server cfg tab (demo_world tab)"
proof -
  have ks: "map strtoull (numbers_in (insert_head @ concat (map key_item ks))) = 0 # ks" for ks
    by (simp add: numbers_in_insert numbers_in_keys strtoull_0 comp_def)
  have q: "mysql_query demo_server c (insert_head @ s) w = (0, w\<lparr>d_keys := map strtoull (numbers_in (insert_head @ s))\<rparr>)"
    "mysql_query demo_server c select_stmt w = (0, w)" for c s w
    by (simp_all only: demo_server_def mysql.select_convs take_insert_head) (simp_all add: select_stmt_def)
  show ?thesis
    unfolding answers_def demo_open q ks by (simp add: demo_server_def demo_world_def)
qed

lemma demo_conn_laws: "conn_laws demo_server (\<lambda>w. set (d_conns w))"
proof -
  have "Suc (sum_list xs) \<notin> set xs" for xs :: "nat list"
    using member_le_sum_list [of "Suc (sum_list xs)" xs] by auto
  then show ?thesis by (auto simp: conn_laws_def demo_server_def)
qed

text \<open>A state with the single word token \<open>offer\<close>.\<close>

definition offer_state :: parser_state where
  "offer_state = init_state\<lparr>ps_token_hash := add_default inithash ''offer'', ps_n_token := 1\<rparr>"

lemma offer_hash: "ps_token_hash offer_state = add_default inithash ''offer''"
  and offer_n_token: "ps_n_token offer_state = 1"
  by (simp_all add: offer_state_def)

lemma all_nodes_offer: "all_nodes (ps_token_hash offer_state) = [new_node ''offer'' (Fin DEFAULT_SPAMICITY, Fin 0)]"
  unfolding offer_hash by (rule all_nodes_single)

lemma wf_offer [simp]: "wf_tab (ps_token_hash offer_state)"
  unfolding offer_hash by (rule wf_addnode) simp

theorem get_tokens_bounds_witness:
  "get_tokens demo_server (\<lambda>n. True) offer_state 0 (default_config []) (demo_world (\<lambda>k. None)) \<noteq> None"
proof -
  have "length (selected offer_state 0) \<le> 1" by (simp add: all_nodes_offer)
  moreover have "ps_n_token offer_state = 1" by (simp add: offer_state_def)
  ultimately show ?thesis
    using get_tokens_bounds [where state = offer_state and type = 0 and my = demo_server and malloc = "\<lambda>n. True"] by simp
qed

theorem get_tokens_spec_witness:
  "\<exists>h w' q. get_tokens demo_server (\<lambda>n. True) offer_state 0 (default_config [])
       (demo_world (\<lambda>k. if k = xxh3_64 ''offer'' then Some (3, 5) else None)) =
     Some (0, offer_state\<lparr>ps_token_hash := h\<rparr>, w') \<and>
     findkey h (xxh3_64 ''offer'') = Some q \<and> n_nham q = 3 \<and> n_nspam q = 5"
proof -
  let ?tab = "\<lambda>k. if k = xxh3_64 ''offer'' then Some (3, 5) else None :: (nat \<times> nat) option"
  let ?n = "new_node ''offer'' (Fin DEFAULT_SPAMICITY, Fin 0)"
  have k: "xxh3_64 ''offer'' \<noteq> 0" by code_simp
  have f: "findkey (ps_token_hash offer_state) k = (if k = xxh3_64 ''offer'' then Some ?n else None)" for k
    unfolding offer_hash findkey_addnode [OF wf_inithash] by simp
  have n: "n_type ?n = 0" by (simp add: new_node_def makenewnode_def)
  have sz: "length (selected offer_state 0) \<le> 1" by (simp add: all_nodes_offer)
  obtain h w' where g: "get_tokens demo_server (\<lambda>n. True) offer_state 0 (default_config []) (demo_world ?tab) =
      Some (0, offer_state\<lparr>ps_token_hash := h\<rparr>, w')"
    and h: "\<forall>k. findkey h k = map_option (\<lambda>q. if type_matches 0 q then with_counts ?tab q else q)
        (findkey (ps_token_hash offer_state) k)"
    using get_tokens_spec [OF demo_answers [of "default_config []" ?tab] wf_offer, of "\<lambda>n. True" 0] f [of 0] k sz
    unfolding offer_n_token by auto
  have "findkey h (xxh3_64 ''offer'') = Some (with_counts ?tab ?n)"
    using h f n by (simp add: type_matches_def)
  then show ?thesis using g by (auto simp: with_counts_def)
qed

theorem queries_close_their_connection_witness:
  "\<exists>n w'. update_token_dates demo_server (\<lambda>n. True) offer_state (default_config []) (demo_world (\<lambda>k. None)) = Some (n, w') \<and>
     d_conns w' = []"
proof -
  obtain n w' where u: "update_token_dates demo_server (\<lambda>n. True) offer_state (default_config []) (demo_world (\<lambda>k. None)) = Some (n, w')"
    using update_token_dates_total [of offer_state demo_server "\<lambda>n. True"] 
    by (force simp: count_known all_nodes_offer)
  have "set (d_conns w') = set (d_conns (demo_world (\<lambda>k. None)))"
    using queries_close_their_connection [OF demo_conn_laws, where malloc = "\<lambda>n. True" and st = offer_state
        and cfg = "default_config []" and w = "demo_world (\<lambda>k. None)"] u
    by (auto split: option.splits)
  then show ?thesis using u by (simp add: demo_world_def)
qed

end
