(* ===== verification/Spam_Score.thy ===== *)
theory Spam_Score
  imports Chi_Square Token_Query
begin

text \<open>
  \<open>src/spam.c\<close> and \<open>add_penalties\<close> of \<open>src/antispam.c\<close>: the counters from the database become the
  spaminess of every token, and the tokens are combined in two passes, first with the token pairs
  and special tokens, then with the single words as well.

  The result \<open>None\<close> is the overflow of the query block in \<open>get_tokens\<close>.  The time stamps of the
  session are left out.
\<close>

record session_data =
  sd_ttmpfile :: string
  sd_spaminessbuf :: string
  sd_status :: "32 word"
  sd_trapped_client :: int
  sd_tot_len :: int
  sd_statistically_whitelisted :: int
  sd_blackhole :: int
  sd_mynetwork :: int
  sd_spaminess :: real
  sd_nham :: real
  sd_nspam :: real

definition init_session_data :: session_data where
  "init_session_data = \<lparr>sd_ttmpfile = [], sd_spaminessbuf = [], sd_status = 0, sd_trapped_client = 0,
     sd_tot_len = 0, sd_statistically_whitelisted = 0, sd_blackhole = 0, sd_mynetwork = 0,
     sd_spaminess = DEFAULT_SPAMICITY, sd_nham = 0, sd_nspam = 0\<rparr>"

text \<open>The body of the loop of \<open>qry_spaminess\<close> for the node \<open>q\<close>.\<close>

definition clamp_spaminess :: "fp \<Rightarrow> fp" where
  "clamp_spaminess p =
     (let p1 = (if flt p (Fin REAL_HAM_TOKEN_PROBABILITY) then Fin REAL_HAM_TOKEN_PROBABILITY else p)
      in if flt (Fin REAL_SPAM_TOKEN_PROBABILITY) p1 then Fin REAL_SPAM_TOKEN_PROBABILITY else p1)"

definition qry_token :: "session_data \<Rightarrow> config \<Rightarrow> node \<Rightarrow> node" where
  "qry_token sdata cfg q =
     (if n_nham q \<ge> 0 \<and> n_nspam q \<ge> 0 \<and> n_nham q + n_nspam q > 0
      then
        let n = trunc (n_nham q + n_nspam q);
            sp = (if n > 0
                  then
                    let f = fdiv (Fin (n_nspam q * sd_nham sdata))
                              (Fin (n_nspam q * sd_nham sdata + n_nham q * sd_nspam sdata));
                        g = fdiv (fadd (Fin (cfg_rob_s cfg * cfg_rob_x cfg)) (fmul (Fin (of_int n)) f))
                              (Fin (cfg_rob_s cfg + of_int n))
                    in clamp_spaminess g
                  else Fin DEFAULT_SPAMICITY)
        in q\<lparr>n_spaminess := sp, n_deviation := DEVIATION sp\<rparr>
      else q)"

definition qry_spaminess ::
  "'w mysql \<Rightarrow> (nat \<Rightarrow> bool) \<Rightarrow> session_data \<Rightarrow> parser_state \<Rightarrow> int \<Rightarrow> config \<Rightarrow> 'w \<Rightarrow> (parser_state \<times> 'w) option" where
  "qry_spaminess my malloc sdata state type cfg w =
     (case get_tokens my malloc state type cfg w of
        None \<Rightarrow> None
      | Some (rc, st, w1) \<Rightarrow>
          Some (st\<lparr>ps_token_hash := map_nodes (qry_token sdata cfg) (ps_token_hash st)\<rparr>, w1))"

abbreviation add_penalty :: "string \<Rightarrow> parser_state \<Rightarrow> parser_state" where
  "add_penalty s state \<equiv> state\<lparr>ps_token_hash := addnode (ps_token_hash state) s
     (Fin REAL_SPAM_TOKEN_PROBABILITY) (DEVIATION (Fin REAL_SPAM_TOKEN_PROBABILITY))\<rparr>"

definition add_penalties :: "session_data \<Rightarrow> parser_state \<Rightarrow> config \<Rightarrow> parser_state" where
  "add_penalties sdata state cfg =
     (let s1 = (if cfg_penalize_octet_stream cfg = 1 \<and> ps_has_octet_stream_attachment state = 1
                then add_penalty ''OCTET_STREAM*'' state else state);
          s2 = (if cfg_penalize_images cfg = 1 \<and> ps_has_image_attachment s1 = 1
                then add_penalty ''IMAGE*'' s1 else s1);
          s3 = (if ps_n_subject_token s2 = 0 then add_penalty ''NO_SUBJECT*'' s2 else s2);
          s4 = (if sd_trapped_client sdata = 1 then add_penalty ''TRAPPED_CLIENT*'' s3 else s3)
      in if ps_tre s4 = CHR ''+'' then add_penalty ''ZOMBIE*'' s4 else s4)"

text \<open>The end of \<open>evaluate_tokens\<close>: \<open>fix spaminess value if we have to\<close>.\<close>

definition end_of_evaluation :: "real \<Rightarrow> real" where
  "end_of_evaluation spaminess =
     (let p1 = (if spaminess < 0 then REAL_HAM_TOKEN_PROBABILITY else spaminess)
      in if p1 > 1 then REAL_SPAM_TOKEN_PROBABILITY else p1)"

definition decided :: "config \<Rightarrow> real \<Rightarrow> bool" where
  "decided cfg p \<longleftrightarrow> p \<ge> cfg_spam_overall_limit cfg \<or> p \<le> cfg_max_ham_spamicity cfg"

definition evaluate_tokens ::
  "'w mysql \<Rightarrow> (nat \<Rightarrow> bool) \<Rightarrow> session_data \<Rightarrow> parser_state \<Rightarrow> config \<Rightarrow> 'w \<Rightarrow> (real \<times> parser_state \<times> 'w) option" where
  "evaluate_tokens my malloc sdata state cfg w = do {
     let st0 = (if cfg_penalize_embed_images cfg = 1 \<and> findnode (ps_token_hash state) ''src+cid'' \<noteq> None
                then add_penalty ''EMBED*'' state else state);
     (st1, w1) \<leftarrow> qry_spaminess my malloc sdata st0 1 cfg w;
     let st2 = add_penalties sdata st1 cfg;
     let (p, n) = get_spam_probability (ps_token_hash st2) cfg;
     let st3 = st2\<lparr>ps_n_deviating_token := int n\<rparr>;
     if ps_training_request st3 = 1 then Some (p, st3, w1)
     else if decided cfg p then Some (end_of_evaluation p, st3, w1)
     else do {
       (st4, w2) \<leftarrow> qry_spaminess my malloc sdata st3 0 cfg w1;
       let p2 = fst (get_spam_probability (ps_token_hash st4) cfg);
       if decided cfg p2 then Some (end_of_evaluation p2, st4, w2)
       else
         let p3 = fst (get_spam_probability (ps_token_hash st4) cfg)
         in Some (end_of_evaluation p3, st4, w2)
     }
   }"

definition counters_stmt :: string where
  "counters_stmt = snprintf_s 8191 (''SELECT nham, nspam FROM '' @ ''misc'')"

definition from_stmt :: "string \<Rightarrow> string" where
  "from_stmt from = snprintf_s 8191 (''SELECT nham, nspam FROM '' @ ''token'' @ '' WHERE token='' @
     show_nat (unat (xxh3_64 from)))"

definition run_statistical_check ::
  "'w mysql \<Rightarrow> (nat \<Rightarrow> bool) \<Rightarrow> session_data \<Rightarrow> parser_state \<Rightarrow> nat \<Rightarrow> config \<Rightarrow> 'w \<Rightarrow>
   (real \<times> session_data \<times> parser_state \<times> 'w) option" where
  "run_statistical_check my malloc sdata state conn cfg w =
     (let (te, w1) = get_ham_spam_counters my conn counters_stmt w;
          sd = sdata\<lparr>sd_nham := real (unat (te_nham te)), sd_nspam := real (unat (te_nspam te))\<rparr>
      in if sd_nham sd + sd_nspam sd = 0 then Some (DEFAULT_SPAMICITY, sd, state, w1)
         else
           let (whitelisted, w2) =
             (if ps_training_request state = 0
              then let (te2, w2) = get_ham_spam_counters my conn (from_stmt (ps_from state)) w1
                   in (real (unat (te_nham te2)) \<ge> 10 \<and> real (unat (te_nspam te2)) = 0, w2)
              else (False, w1))
           in if whitelisted
              then (case qry_spaminess my malloc sd state 1 cfg w2 of
                      None \<Rightarrow> None
                    | Some (st, w3) \<Rightarrow>
                        Some (REAL_HAM_TOKEN_PROBABILITY, sd\<lparr>sd_statistically_whitelisted := 1\<rparr>, st, w3))
              else (case evaluate_tokens my malloc sd state cfg w2 of
                      None \<Rightarrow> None
                    | Some (p, st, w3) \<Rightarrow> Some (p, sd, st, w3)))"

section \<open>What the passes over the tokens preserve\<close>

text \<open>
  Scoring is a composition of a few steps: looking the tokens up, scoring the nodes, adding penalties and
  reading counters.  A transitive relation on the state of the parser and the state of the world that each
  of the steps respects is respected by the whole check.
\<close>

locale scoring_relation =
  fixes my :: "'w mysql" and malloc :: "nat \<Rightarrow> bool"
    and rel :: "parser_state \<Rightarrow> 'w \<Rightarrow> parser_state \<Rightarrow> 'w \<Rightarrow> bool"
  assumes stays: "rel st w st w"
    and follows: "rel st w st1 w1 \<Longrightarrow> rel st1 w1 st2 w2 \<Longrightarrow> rel st w st2 w2"
    and looked_up: "get_tokens my malloc st type cfg w = Some (r, st', w') \<Longrightarrow> rel st w st' w'"
    and scored: "rel st w (st\<lparr>ps_token_hash := map_nodes (qry_token sd cfg) (ps_token_hash st)\<rparr>) w"
    and penalized: "rel st w (add_penalty s st) w"
    and deviated: "rel st w (st\<lparr>ps_n_deviating_token := n\<rparr>) w"
    and counted: "rel st w st (snd (get_ham_spam_counters my conn stmt w))"
begin

lemma qry_spaminess_rel: "qry_spaminess my malloc sd st type cfg w = Some (st', w') \<Longrightarrow> rel st w st' w'"
  by (auto simp: qry_spaminess_def split: option.splits dest!: looked_up intro: follows scored)

lemma penalty_rel: "rel st w st' w \<Longrightarrow> rel st w (if b then add_penalty s st' else st') w"
  by (simp only: split: if_split) (blast intro: follows penalized)

lemma add_penalties_rel: "rel st w (add_penalties sd st cfg) w"
  unfolding add_penalties_def Let_def by (intro penalty_rel stays)

lemma evaluate_tokens_rel:
  assumes "evaluate_tokens my malloc sd st cfg w = Some (p, st', w')"
  shows "rel st w st' w'"
proof -
  define st0 where "st0 = (if cfg_penalize_embed_images cfg = 1 \<and> findnode (ps_token_hash st) ''src+cid'' \<noteq> None
      then add_penalty ''EMBED*'' st else st)"
  obtain st1 w1 where q: "qry_spaminess my malloc sd st0 1 cfg w = Some (st1, w1)"
    using assms unfolding evaluate_tokens_def Let_def st0_def [symmetric] by (auto simp: bind_eq_Some_conv)
  define st3 where "st3 = (add_penalties sd st1 cfg)\<lparr>ps_n_deviating_token :=
      int (snd (get_spam_probability (ps_token_hash (add_penalties sd st1 cfg)) cfg))\<rparr>"
  have "(st', w') = (st3, w1) \<or> qry_spaminess my malloc sd st3 0 cfg w1 = Some (st', w')"
    using assms unfolding evaluate_tokens_def Let_def st0_def [symmetric] q bind.bind_lunit case_prod_conv
    by (auto simp: case_prod_beta st3_def [symmetric] bind_eq_Some_conv split: if_splits)
  then have "rel st3 w1 st' w'" by (auto intro: stays qry_spaminess_rel)
  moreover have "rel st w st0 w" unfolding st0_def by (rule penalty_rel [OF stays])
  moreover have "rel st1 w1 st3 w1" unfolding st3_def by (rule follows [OF add_penalties_rel deviated])
  ultimately show ?thesis using qry_spaminess_rel [OF q] follows by blast
qed

lemma run_statistical_check_rel:
  assumes "run_statistical_check my malloc sd st conn cfg w = Some (p, sd', st', w')"
  shows "rel st w st' w'"
proof -
  let ?w1 = "snd (get_ham_spam_counters my conn counters_stmt w)"
  let ?w2 = "if ps_training_request st = 0 then snd (get_ham_spam_counters my conn (from_stmt (ps_from st)) ?w1) else ?w1"
  have 1: "rel st w st ?w1" by (rule counted)
  moreover have "rel st ?w1 st ?w2" by (simp add: stays counted)
  ultimately have 2: "rel st w st ?w2" by (rule follows)
  have "(st', w') = (st, ?w1) \<or> (\<exists>sd1. qry_spaminess my malloc sd1 st 1 cfg ?w2 = Some (st', w')) \<or>
      (\<exists>sd1 q. evaluate_tokens my malloc sd1 st cfg ?w2 = Some (q, st', w'))"
    using assms unfolding run_statistical_check_def Let_def case_prod_beta
    by (auto split: if_splits option.splits)
  then show ?thesis using 1 2 by (auto intro: follows qry_spaminess_rel evaluate_tokens_rel)
qed

end

section \<open>The spaminess of one token\<close>

text \<open>Reference: Robinson's estimate from the relative frequencies of the token in spam and ham.\<close>

definition clamp :: "real \<Rightarrow> real" where
  "clamp p = max REAL_HAM_TOKEN_PROBABILITY (min REAL_SPAM_TOKEN_PROBABILITY p)"

definition robinson :: "real \<Rightarrow> real \<Rightarrow> real \<Rightarrow> real \<Rightarrow> real \<Rightarrow> real \<Rightarrow> real" where
  "robinson s x a b ham spam =
     (let n = a + b; f = (b / spam) / (b / spam + a / ham) in (s * x + n * f) / (s + n))"

lemma clamp_spaminess_Fin [simp]: "clamp_spaminess (Fin p) = Fin (clamp p)"
  by (simp add: clamp_spaminess_def clamp_def)

lemma clamp_spaminess_NaN [simp]: "clamp_spaminess NaN = NaN"
  by (simp add: clamp_spaminess_def)

lemma clamped_clamp [simp]: "clamped (clamp p)"
  by (simp add: clamped_def clamp_def)

lemma trunc_counts: "trunc (real a + real b) = int a + int b"
  using trunc_of_int [of "int a + int b"] by simp

lemma qry_token_counts:
  assumes "n_nham q = real a" and "n_nspam q = real b" and "0 < a + b"
    and "0 \<le> sd_nham sdata" and "0 \<le> sd_nspam sdata" and "0 \<le> cfg_rob_s cfg"
  shows "n_spaminess (qry_token sdata cfg q) =
     (if (b = 0 \<or> sd_nham sdata = 0) \<and> (a = 0 \<or> sd_nspam sdata = 0) then NaN
      else Fin (clamp ((cfg_rob_s cfg * cfg_rob_x cfg + (real a + real b) *
        (real b * sd_nham sdata / (real b * sd_nham sdata + real a * sd_nspam sdata))) /
        (cfg_rob_s cfg + (real a + real b)))))"
proof -
  have pos: "0 < real a + real b" using assms(3) by linarith
  have nz: "real b * sd_nham sdata + real a * sd_nspam sdata = 0 \<longleftrightarrow>
      (b = 0 \<or> sd_nham sdata = 0) \<and> (a = 0 \<or> sd_nspam sdata = 0)"
    using assms(4,5) by (auto simp: add_nonneg_eq_0_iff)
  have "cfg_rob_s cfg + (real a + real b) \<noteq> 0" using assms(6) pos by linarith
  then show ?thesis
    using pos by (simp add: qry_token_def Let_def assms(1,2) trunc_counts nz)
qed

text \<open>
  C11: for a token seen \<open>a\<close> times in ham and \<open>b\<close> times in spam, when messages of both kinds have
  been learnt, the spaminess is Robinson's estimate, the spam share of the relative frequencies
  weighed with the prior \<open>rob_x\<close> of strength \<open>rob_s\<close>, clamped to [0.0001, 0.9999].  While only ham or only
  spam has been learnt, a token seen in nothing but that kind gets \<open>0/0\<close>, not a number, which counts for
  nothing, and one seen in the other kind as well gets the share of that other kind, 1 for spam and 0 for
  ham.  Apart from the first of these cases the value is not a number only when nothing has been learnt.
\<close>

theorem qry_token_robinson:
  assumes "n_nham q = real a" and "n_nspam q = real b" and "0 < a + b"
    and "0 \<le> sd_nham sdata" and "0 \<le> sd_nspam sdata" and "0 \<le> cfg_rob_s cfg"
  shows "(0 < sd_nham sdata \<and> 0 < sd_nspam sdata \<longrightarrow>
      n_spaminess (qry_token sdata cfg q) =
        Fin (clamp (robinson (cfg_rob_s cfg) (cfg_rob_x cfg) (real a) (real b) (sd_nham sdata) (sd_nspam sdata)))) \<and>
    (sd_nham sdata = 0 \<and> a = 0 \<or> sd_nspam sdata = 0 \<and> b = 0 \<longrightarrow>
      n_spaminess (qry_token sdata cfg q) = NaN \<and> \<not> deviating cfg (qry_token sdata cfg q)) \<and>
    (sd_nham sdata = 0 \<and> 0 < sd_nspam sdata \<and> 0 < a \<longrightarrow>
      n_spaminess (qry_token sdata cfg q) = Fin (clamp (cfg_rob_s cfg * cfg_rob_x cfg / (cfg_rob_s cfg + real (a + b))))) \<and>
    (sd_nspam sdata = 0 \<and> 0 < sd_nham sdata \<and> 0 < b \<longrightarrow>
      n_spaminess (qry_token sdata cfg q) =
        Fin (clamp ((cfg_rob_s cfg * cfg_rob_x cfg + real (a + b)) / (cfg_rob_s cfg + real (a + b))))) \<and>
    (n_spaminess (qry_token sdata cfg q) = NaN \<longrightarrow>
      sd_nham sdata = 0 \<and> (a = 0 \<or> sd_nspam sdata = 0) \<or> sd_nspam sdata = 0 \<and> b = 0)"
proof -
  have both: "(real b / sd_nspam sdata) / (real b / sd_nspam sdata + real a / sd_nham sdata) =
      real b * sd_nham sdata / (real b * sd_nham sdata + real a * sd_nspam sdata)"
    if "0 < sd_nham sdata" "0 < sd_nspam sdata"
    using that assms(3) by (cases "b = 0") (auto simp: field_simps)
  note q = qry_token_counts [OF assms]
  have nan: "n_spaminess (qry_token sdata cfg q) = NaN \<longleftrightarrow>
      (b = 0 \<or> sd_nham sdata = 0) \<and> (a = 0 \<or> sd_nspam sdata = 0)" unfolding q by simp
  show ?thesis
    unfolding q nan deviating_def using both assms(3) by (auto simp: robinson_def Let_def)
qed

theorem qry_token_robinson_witness:
  "n_spaminess (qry_token (init_session_data\<lparr>sd_nham := 100, sd_nspam := 100\<rparr>) (default_config [])
     ((new_node ''offer'' (Fin 0.5, Fin 0))\<lparr>n_nham := 1, n_nspam := 3\<rparr>)) = Fin 0.704"
  using qry_token_robinson [of "(new_node ''offer'' (Fin 0.5, Fin 0))\<lparr>n_nham := 1, n_nspam := 3\<rparr>" 1 3
      "init_session_data\<lparr>sd_nham := 100, sd_nspam := 100\<rparr>" "default_config []"]
  by (simp add: robinson_def Let_def clamp_def)

section \<open>The evaluation yields a probability\<close>

text \<open>Every spaminess in the table is clamped or not a number; the evidence is then clamped.\<close>

definition good_node :: "node \<Rightarrow> bool" where
  "good_node q \<longleftrightarrow> (case n_spaminess q of NaN \<Rightarrow> True | Fin p \<Rightarrow> clamped p)"

definition good_tab :: "hashtab \<Rightarrow> bool" where
  "good_tab h \<longleftrightarrow> wf_tab h \<and> (\<forall>q\<in>set (all_nodes h). good_node q)"

lemma good_tab_wf: "good_tab h \<Longrightarrow> wf_tab h"
  by (simp add: good_tab_def)

lemma deviating_Fin: "deviating cfg q \<Longrightarrow> \<exists>p. n_spaminess q = Fin p"
  by (cases "n_spaminess q") (simp_all add: deviating_def)

lemma good_tab_evidence: "good_tab h \<Longrightarrow> \<forall>p\<in>set (ev cfg h). clamped p"
  by (fastforce simp: good_tab_def good_node_def evidence_def dest: deviating_Fin)

lemma good_inithash [intro]: "good_tab inithash"
  by (simp add: good_tab_def)

lemma good_addnode:
  assumes "good_tab h" and "clamped p"
  shows "good_tab (addnode h s (Fin p) d)"
proof -
  have "set (all_nodes (addnode h s (Fin p) d)) \<subseteq> insert (new_node s (Fin p, d)) (set (all_nodes h))"
    using arg_cong [OF mset_addnode, of set_mset h s "Fin p" d] by (auto split: if_splits)
  then show ?thesis
    using assms by (auto simp: good_tab_def good_node_def subset_iff)
qed

lemma clamped_penalty [simp]: "clamped (9999 / 10000)" "clamped (1 / 2)"
  by (simp_all add: clamped_def)

lemma set_map_nodes: "set (all_nodes (map_nodes f h)) = f ` set (all_nodes h)"
  by (auto simp: set_all_nodes map_nodes_def)

lemma qry_token_key [simp]:
  "n_key (qry_token sdata cfg q) = n_key q" "n_str (qry_token sdata cfg q) = n_str q"
  by (simp_all add: qry_token_def Let_def)

lemma good_qry_token: "good_node q \<Longrightarrow> good_node (qry_token sdata cfg q)"
proof -
  have "case clamp_spaminess g of NaN \<Rightarrow> True | Fin p \<Rightarrow> clamped p" for g
    by (cases g) simp_all
  then show "good_node q \<Longrightarrow> ?thesis"
    by (auto simp: good_node_def qry_token_def Let_def)
qed

lemma good_map_qry: "good_tab h \<Longrightarrow> good_tab (map_nodes (qry_token sdata cfg) h)"
  by (auto simp: good_tab_def set_map_nodes good_qry_token intro!: wf_map_nodes)

lemma good_use_row: "good_tab h \<Longrightarrow> good_tab (use_row row h)"
proof -
  assume g: "good_tab h"
  have "good_node q" if "q \<in> set (all_nodes (use_row row h))" for q
  proof -
    from that obtain i where i: "i < MAXHASH" "q \<in> set (use_row row h i)" by (auto simp: set_all_nodes)
    have "q \<in> set (h i) \<or> (\<exists>q'\<in>set (h i). q = bump_node (strtod (row ! 1)) (strtod (row ! 2)) DEFAULT_SPAMICITY 0 q')"
      using i(2) by (auto simp: use_row_def updatenode_def case_prod_beta Let_def split: if_splits
          dest!: chain_update_set)
    then have "\<exists>q'\<in>set (h i). n_spaminess q = n_spaminess q'" by (auto simp: bump_node_def)
    then show ?thesis using g i(1) by (auto simp: good_tab_def good_node_def set_all_nodes)
  qed
  moreover have "wf_tab (use_row row h)" using g by (auto simp: use_row_def good_tab_def)
  ultimately show ?thesis by (simp add: good_tab_def)
qed

lemma good_use_rows: "good_tab h \<Longrightarrow> good_tab (fold use_row rows h)"
  by (induction rows arbitrary: h) (auto intro: good_use_row)

text \<open>\<open>get_tokens\<close> changes nothing but the table.\<close>

lemma get_tokens_state:
  assumes "get_tokens my malloc st type cfg w = Some (r, st', w')"
  obtains rows where "st' = st\<lparr>ps_token_hash := fold use_row rows (ps_token_hash st)\<rparr>"
proof -
  have "st' = st \<or> (\<exists>rows. st' = st\<lparr>ps_token_hash := fold use_row rows (ps_token_hash st)\<rparr>)"
    using assms by (auto simp: get_tokens_def Let_def split: option.splits prod.splits if_splits)
  moreover have "st = st\<lparr>ps_token_hash := fold use_row [] (ps_token_hash st)\<rparr>" by simp
  ultimately show ?thesis using that by blast
qed

interpretation good: scoring_relation my malloc "\<lambda>st w st' w'. good_tab (ps_token_hash st) \<longrightarrow> good_tab (ps_token_hash st')"
  for my malloc
proof
  show "good_tab (ps_token_hash st) \<longrightarrow> good_tab (ps_token_hash st')"
    if "get_tokens my malloc st type cfg w = Some (r, st', w')" for st type cfg w r st' w'
    using that by (rule get_tokens_state) (simp add: good_use_rows)
qed (auto intro: good_map_qry simp: good_addnode)

lemma get_spam_probability_bounds:
  assumes "good_tab h" and "0 \<le> cfg_esf_h cfg" and "0 \<le> cfg_esf_s cfg"
  shows "0 \<le> fst (get_spam_probability h cfg)" and "fst (get_spam_probability h cfg) \<le> 1"
proof -
  note e = good_tab_evidence [OF assms(1), of cfg]
  have h: "0 \<le> 2 * (cfg_esf_h cfg * ham_evidence (ev cfg h))" "0 \<le> 2 * (cfg_esf_s cfg * spam_evidence (ev cfg h))"
    using evidence_nonneg [OF e] assms(2,3) by simp_all
  show "0 \<le> fst (get_spam_probability h cfg)" "fst (get_spam_probability h cfg) \<le> 1"
    using chi2inv_bounds [OF h(1) assms(2), of "length (ev cfg h)"]
      chi2inv_bounds [OF h(2) assms(3), of "length (ev cfg h)"]
    unfolding get_spam_probability_closed [OF e] by simp_all
qed

lemma end_of_evaluation_unit: "0 \<le> p \<Longrightarrow> p \<le> 1 \<Longrightarrow> end_of_evaluation p = p"
  by (simp add: end_of_evaluation_def)

lemma evaluate_tokens_unit:
  assumes "evaluate_tokens my malloc sd st cfg w = Some (p, st', w')"
    and "good_tab (ps_token_hash st)" and "0 \<le> cfg_esf_h cfg" and "0 \<le> cfg_esf_s cfg"
  shows "good_tab (ps_token_hash st') \<and> p = fst (get_spam_probability (ps_token_hash st') cfg) \<and> 0 \<le> p \<and> p \<le> 1"
proof -
  define st0 where "st0 = (if cfg_penalize_embed_images cfg = 1 \<and> findnode (ps_token_hash st) ''src+cid'' \<noteq> None
      then add_penalty ''EMBED*'' st else st)"
  have g0: "good_tab (ps_token_hash st0)" using assms(2) by (simp add: st0_def good_addnode)
  obtain st1 w1 where q1: "qry_spaminess my malloc sd st0 1 cfg w = Some (st1, w1)"
  proof (cases "qry_spaminess my malloc sd st0 1 cfg w")
    case None
    then have "evaluate_tokens my malloc sd st cfg w = None"
      by (simp only: evaluate_tokens_def Let_def st0_def [symmetric] Option.bind.bind_lzero)
    with assms(1) show ?thesis by simp
  next
    case (Some x)
    with that show ?thesis by (cases x) simp
  qed
  have g1: "good_tab (ps_token_hash st1)" using good.qry_spaminess_rel [OF q1] g0 by blast
  define st2 where "st2 = add_penalties sd st1 cfg"
  have g2: "good_tab (ps_token_hash st2)" using good.add_penalties_rel g1 unfolding st2_def by blast
  define p1 where "p1 = fst (get_spam_probability (ps_token_hash st2) cfg)"
  define st3 where "st3 = st2\<lparr>ps_n_deviating_token := int (snd (get_spam_probability (ps_token_hash st2) cfg))\<rparr>"
  have h3: "ps_token_hash st3 = ps_token_hash st2" by (simp add: st3_def)
  have b1: "0 \<le> p1" "p1 \<le> 1" using get_spam_probability_bounds [OF g2 assms(3,4)] by (simp_all add: p1_def)
  have ev: "evaluate_tokens my malloc sd st cfg w =
      (if ps_training_request st3 = 1 then Some (p1, st3, w1)
       else if decided cfg p1 then Some (end_of_evaluation p1, st3, w1)
       else Option.bind (qry_spaminess my malloc sd st3 0 cfg w1) (\<lambda>(st4, w2).
         let p2 = fst (get_spam_probability (ps_token_hash st4) cfg) in Some (end_of_evaluation p2, st4, w2)))"
    unfolding evaluate_tokens_def Let_def st0_def [symmetric] q1 bind.bind_lunit case_prod_conv st2_def [symmetric]
    by (simp add: case_prod_beta p1_def st3_def)
  show ?thesis
  proof (cases "ps_training_request st3 = 1 \<or> decided cfg p1")
    case True
    then have "p = p1" "st' = st3"
      using assms(1) b1 unfolding ev by (auto simp: end_of_evaluation_unit split: if_splits)
    with b1 g2 h3 show ?thesis by (simp add: p1_def)
  next
    case False
    then obtain st4 w2 where q: "qry_spaminess my malloc sd st3 0 cfg w1 = Some (st4, w2)"
      and p: "p = end_of_evaluation (fst (get_spam_probability (ps_token_hash st4) cfg))" "st' = st4"
      using assms(1) unfolding ev by (auto simp: bind_eq_Some_conv Let_def)
    have "good_tab (ps_token_hash st4)" using good.qry_spaminess_rel [OF q] g2 h3 by simp
    with p get_spam_probability_bounds [OF this assms(3,4)] show ?thesis by (simp add: end_of_evaluation_unit)
  qed
qed

lemma run_statistical_check_prob:
  assumes "run_statistical_check my malloc sd st conn cfg w = Some (p, sd', st', w')"
    and "good_tab (ps_token_hash st)" and "0 \<le> cfg_esf_h cfg" and "0 \<le> cfg_esf_s cfg"
  shows "0 \<le> p \<and> p \<le> 1 \<and> good_tab (ps_token_hash st') \<and>
    (sd_nham sd' + sd_nspam sd' = 0 \<longrightarrow> p = DEFAULT_SPAMICITY \<and> st' = st) \<and>
    (sd_statistically_whitelisted sd' = 1 \<and> sd_statistically_whitelisted sd = 0 \<longrightarrow> p = REAL_HAM_TOKEN_PROBABILITY)"
proof -
  obtain te w1 where te: "get_ham_spam_counters my conn counters_stmt w = (te, w1)" by (metis surj_pair)
  define sd1 where "sd1 = sd\<lparr>sd_nham := real (unat (te_nham te)), sd_nspam := real (unat (te_nspam te))\<rparr>"
  have wl: "sd_statistically_whitelisted sd1 = sd_statistically_whitelisted sd" by (simp add: sd1_def)
  show ?thesis
  proof (cases "sd_nham sd1 + sd_nspam sd1 = 0")
    case True
    then have "run_statistical_check my malloc sd st conn cfg w = Some (DEFAULT_SPAMICITY, sd1, st, w1)"
      by (simp only: run_statistical_check_def te sd1_def [symmetric] Let_def case_prod_conv simp_thms if_True)
    with True assms(1,2) wl show ?thesis by simp
  next
    case False
    obtain b w2 where b: "(if ps_training_request st = 0
        then let (te2, w2) = get_ham_spam_counters my conn (from_stmt (ps_from st)) w1
             in (real (unat (te_nham te2)) \<ge> 10 \<and> real (unat (te_nspam te2)) = 0, w2)
        else (False, w1)) = (b, w2)" by (rule prod.exhaust)
    have run: "run_statistical_check my malloc sd st conn cfg w =
        (if b then (case qry_spaminess my malloc sd1 st 1 cfg w2 of None \<Rightarrow> None
           | Some (st, w3) \<Rightarrow> Some (REAL_HAM_TOKEN_PROBABILITY, sd1\<lparr>sd_statistically_whitelisted := 1\<rparr>, st, w3))
         else (case evaluate_tokens my malloc sd1 st cfg w2 of None \<Rightarrow> None
           | Some (p, st, w3) \<Rightarrow> Some (p, sd1, st, w3)))"
      using False by (simp only: run_statistical_check_def te sd1_def [symmetric] Let_def case_prod_conv b [unfolded Let_def] if_False)
    show ?thesis
    proof (cases b)
      case True
      then obtain st1 where q: "qry_spaminess my malloc sd1 st 1 cfg w2 = Some (st1, w')"
        and "p = REAL_HAM_TOKEN_PROBABILITY" "st' = st1" "sd_nham sd' = sd_nham sd1" "sd_nspam sd' = sd_nspam sd1"
        using assms(1) unfolding run by (auto split: option.splits)
      moreover have "good_tab (ps_token_hash st1)" using good.qry_spaminess_rel [OF q] assms(2) by blast
      ultimately show ?thesis using False by simp
    next
      case b: False
      then have "evaluate_tokens my malloc sd1 st cfg w2 = Some (p, st', w')" "sd' = sd1"
        using assms(1) unfolding run by (auto split: option.splits)
      with evaluate_tokens_unit [OF this(1) assms(2-4)] False wl show ?thesis by simp
    qed
  qed
qed

text \<open>
  C3: the statistical check, whatever the database answers and whichever pass decides, returns a
  probability: the corrections at the end of \<open>evaluate_tokens\<close> never change it, the tables stay
  well formed with clamped spaminess values, and the result is 0.5 without learnt messages and
  0.0001 for a whitelisted sender.
\<close>

theorem run_statistical_check_unit:
  assumes "run_statistical_check my malloc sd st conn cfg w = Some (p, sd', st', w')"
    and "good_tab (ps_token_hash st)" and "0 \<le> cfg_esf_h cfg" and "0 \<le> cfg_esf_s cfg"
  shows "0 \<le> p \<and> p \<le> 1 \<and> good_tab (ps_token_hash st') \<and>
    (sd_nham sd' + sd_nspam sd' = 0 \<longrightarrow> p = DEFAULT_SPAMICITY \<and> st' = st) \<and>
    (sd_statistically_whitelisted sd' = 1 \<and> sd_statistically_whitelisted sd = 0 \<longrightarrow> p = REAL_HAM_TOKEN_PROBABILITY)"
  using assms by (rule run_statistical_check_prob)

lemma demo_no_counters:
  "get_ham_spam_counters demo_server conn counters_stmt (demo_world tab) =
     (\<lparr>te_nham = 0, te_nspam = 0\<rparr>, demo_world tab)"
  by (simp add: get_ham_spam_counters_def demo_server_def demo_world_def counters_stmt_def snprintf_s_def)

theorem run_statistical_check_unit_witness:
  "\<exists>sd' st' w'. run_statistical_check demo_server (\<lambda>n. True) init_session_data offer_state 0 (default_config [])
       (demo_world (\<lambda>k. None)) = Some (1 / 2, sd', st', w') \<and> good_tab (ps_token_hash st')"
proof -
  have r: "run_statistical_check demo_server (\<lambda>n. True) init_session_data offer_state 0 (default_config [])
       (demo_world (\<lambda>k. None)) = Some (DEFAULT_SPAMICITY,
         init_session_data\<lparr>sd_nham := 0, sd_nspam := 0\<rparr>, offer_state, demo_world (\<lambda>k. None))"
    by (simp add: run_statistical_check_def demo_no_counters)
  have "good_tab (ps_token_hash offer_state)"
    unfolding offer_hash by (rule good_addnode) (auto simp: clamped_def)
  from run_statistical_check_unit [OF r this] r show ?thesis by simp
qed

end
