(* ===== verification/Partition.thy ===== *)
theory Partition
  imports Spam_Score
begin

text \<open>
  \<open>src/partition.c\<close> and \<open>src/history.c\<close>: the table of handled messages, which is kept in one partition for
  each day, and the daily partitions that are added for tomorrow and dropped after a month.

  Times are seconds; the difference between local time and UTC at a time is the parameter \<open>gmtoff\<close>.
\<close>

section \<open>Dates\<close>

text \<open>\<open>gmtime\<close> and \<open>localtime\<close> of the C library, as far as the date is concerned.\<close>

record tm =
  tm_year :: int
  tm_mon :: nat
  tm_mday :: nat

definition leap :: "nat \<Rightarrow> bool" where
  "leap y \<longleftrightarrow> y mod 4 = 0 \<and> y mod 100 \<noteq> 0 \<or> y mod 400 = 0"

definition year_days :: "nat \<Rightarrow> nat" where
  "year_days y = (if leap y then 366 else 365)"

definition month_lengths :: "nat \<Rightarrow> nat list" where
  "month_lengths y = [31, if leap y then 29 else 28, 31, 30, 31, 30, 31, 31, 30, 31, 30, 31]"

lemma year_days_pos: "0 < year_days y"
  by (simp add: year_days_def)

function year_of_days :: "nat \<Rightarrow> nat \<Rightarrow> nat \<times> nat" where
  "year_of_days y d = (if d < year_days y then (y, d) else year_of_days (Suc y) (d - year_days y))"
  by pat_completeness auto
termination
  by (relation "measure snd") (use year_days_pos in \<open>auto simp: not_less intro: diff_less order.strict_trans2\<close>)

declare year_of_days.simps [simp del]

fun month_of_day :: "nat \<Rightarrow> nat list \<Rightarrow> nat \<Rightarrow> nat \<times> nat" where
  "month_of_day m [] d = (m, d)"
| "month_of_day m (l # ls) d = (if d < l then (m, d) else month_of_day (Suc m) ls (d - l))"

abbreviation day_secs :: int where
  "day_secs \<equiv> 86400"

text \<open>The calendar repeats after 400 years.\<close>

definition date_of_day :: "int \<Rightarrow> tm" where
  "date_of_day d =
     (let (y, yd) = year_of_days 1970 (nat (d mod 146097));
          (m, md) = month_of_day 0 (month_lengths y) yd
      in \<lparr>tm_year = int y + 400 * (d div 146097), tm_mon = m, tm_mday = md + 1\<rparr>)"

definition gmtime :: "int \<Rightarrow> tm" where
  "gmtime t = date_of_day (t div day_secs)"

definition localtime :: "(int \<Rightarrow> int) \<Rightarrow> int \<Rightarrow> tm" where
  "localtime gmtoff t = gmtime (t + gmtoff t)"

text \<open>\<open>%02d\<close>.\<close>

definition show_02 :: "nat \<Rightarrow> string" where
  "show_02 n = (if n < 10 then CHR ''0'' # show_nat n else show_nat n)"

definition partition_name :: "tm \<Rightarrow> string" where
  "partition_name t = snprintf_s (TINYBUFSIZE - 1)
     (''p'' @ show_int (tm_year t) @ show_02 (tm_mon t + 1) @ show_02 (tm_mday t))"

section \<open>partition.c\<close>

definition get_local_timezone_offset :: "(int \<Rightarrow> int) \<Rightarrow> int \<Rightarrow> int" where
  "get_local_timezone_offset gmtoff t = gmtoff t"

definition is_existing_partition ::
  "'w mysql \<Rightarrow> nat \<Rightarrow> string \<Rightarrow> config \<Rightarrow> 'w \<Rightarrow> int \<times> 'w" where
  "is_existing_partition my conn part cfg w =
     (case select_db my conn ''information_schema'' w of (r0, w0) \<Rightarrow>
        if r0 \<noteq> 0 then (0, w0)
        else
          let buf = snprintf_s (SMALLBUFSIZE - 1) (''SELECT COUNT(*) AS num FROM PARTITIONS WHERE TABLE_SCHEMA=? AND TABLE_NAME='' @
                [SQUOTE] @ ''history'' @ [SQUOTE] @ '' AND PARTITION_NAME=?'')
          in case prepare_sql_statement my conn buf w0 of (r, sql, w1) \<Rightarrow>
               if r = ERR then (0, w1)
               else
                 let sql1 = bind (SStr part) TYPE_STRING (bind (SStr (cfg_mysqldb cfg)) TYPE_STRING (p_bind_init sql))
                 in case p_exec_stmt my sql1 w1 of (r2, w2) \<Rightarrow>
                      if r2 = ERR then (0, close_prepared_statement my sql1 w2)
                      else
                        let sql2 = bind_len SNull TYPE_LONG 4 (p_bind_init sql1);
                            w3 = snd (p_store_results my sql2 w2)
                        in case p_fetch_results my sql2 w3 of ((r4, row), w4) \<Rightarrow>
                             (fetched_int 0 row,
                              close_prepared_statement my sql2 (p_free_results my sql2 w4)))"

text \<open>The limit of the partition that is added; \<open>%\<close> of a time after 1970 is \<open>mod\<close>.\<close>

definition partition_limit :: "int \<Rightarrow> int \<Rightarrow> int" where
  "partition_limit offset now = now + day_secs - now mod day_secs - offset + day_secs - 1"

definition add_partition_stmt :: "string \<Rightarrow> int \<Rightarrow> string" where
  "add_partition_stmt part tomorrow = snprintf_s (SMALLBUFSIZE - 1)
     (''ALTER TABLE '' @ ''history'' @ '' ADD PARTITION ( PARTITION '' @ part @ '' VALUES LESS THAN ('' @
      show_int tomorrow @ '') )'')"

definition drop_partition_stmt :: "string \<Rightarrow> string" where
  "drop_partition_stmt part = snprintf_s (SMALLBUFSIZE - 1)
     (''ALTER TABLE '' @ ''history'' @ '' DROP PARTITION '' @ part)"

text \<open>The clock is read twice, at \<open>t\<close> for the offset and at \<open>now\<close>.\<close>

definition create_partition ::
  "'w mysql \<Rightarrow> (int \<Rightarrow> int) \<Rightarrow> int \<Rightarrow> int \<Rightarrow> config \<Rightarrow> 'w \<Rightarrow> int \<times> 'w" where
  "create_partition my gmtoff t now cfg w =
     (let offset = get_local_timezone_offset gmtoff t;
          tomorrow = partition_limit offset now;
          part = partition_name (gmtime tomorrow);
          buf = add_partition_stmt part tomorrow
      in case open_database my cfg w of
           (None, w1) \<Rightarrow> (ERR, w1)
         | (Some conn, w1) \<Rightarrow>
             (case is_existing_partition my conn part cfg w1 of (n, w2) \<Rightarrow>
                if n > 0 then (ERR, w2)
                else (case select_db my conn (cfg_mysqldb cfg) w2 of (r, w3) \<Rightarrow>
                        if r \<noteq> 0 then (ERR, w3)
                        else (OK, close_database my conn (p_query my conn buf w3)))))"

definition drop_partition :: "'w mysql \<Rightarrow> (int \<Rightarrow> int) \<Rightarrow> int \<Rightarrow> config \<Rightarrow> 'w \<Rightarrow> int \<times> 'w" where
  "drop_partition my gmtoff time cfg w =
     (let now = time - 31 * day_secs;
          part = partition_name (localtime gmtoff now);
          buf = drop_partition_stmt part
      in case open_database my cfg w of
           (None, w1) \<Rightarrow> (ERR, w1)
         | (Some conn, w1) \<Rightarrow>
             (case is_existing_partition my conn part cfg w1 of (n, w2) \<Rightarrow>
                if n \<le> 0 then (ERR, w2)
                else (case select_db my conn (cfg_mysqldb cfg) w2 of (r, w3) \<Rightarrow>
                        if r \<noteq> 0 then (ERR, w3)
                        else (OK, close_database my conn (p_query my conn buf w3)))))"

text \<open>The two times of \<open>create_partition\<close> and the one of \<open>drop_partition\<close>.\<close>

definition manage_partitions ::
  "'w mysql \<Rightarrow> (int \<Rightarrow> int) \<Rightarrow> int \<times> int \<times> int \<Rightarrow> config \<Rightarrow> 'w \<Rightarrow> 'w" where
  "manage_partitions my gmtoff clock cfg w =
     (case clock of (t, now, t2) \<Rightarrow>
        snd (drop_partition my gmtoff t2 cfg (snd (create_partition my gmtoff t now cfg w))))"

section \<open>history.c\<close>

definition write_history_to_sql ::
  "'w mysql \<Rightarrow> nat \<Rightarrow> session_data \<Rightarrow> parser_state \<Rightarrow> int \<Rightarrow> 'w \<Rightarrow> 'w" where
  "write_history_to_sql my conn sdata state now w =
     (case prepare_sql_statement my conn
        ''INSERT INTO history (ts, kospam_id, spam, sender, subject, size) VALUES (?,?,?,?,?,?)'' w of
        (r, sql, w1) \<Rightarrow>
        if r = ERR then w1
        else
          let subject = snprintf_s (TINYBUFSIZE - 1) (ps_b_subject state);
              sql1 = bind (SInt (to_int32 now)) TYPE_LONG (p_bind_init sql);
              sql2 = bind (SStr (sd_ttmpfile sdata)) TYPE_STRING sql1;
              sql3 = bind (SInt (sint (sd_status sdata))) TYPE_LONG sql2;
              sql4 = bind (SStr (ps_envelope_from state)) TYPE_STRING sql3;
              sql5 = bind (SStr subject) TYPE_STRING sql4;
              sql6 = bind (SInt (sd_tot_len sdata)) TYPE_LONG sql5
          in close_prepared_statement my sql6 (snd (p_exec_stmt my sql6 w1)))"

section \<open>A day has one date and a date one day\<close>

lemma year_of_days_spec:
  "year_of_days y d = (y', r) \<Longrightarrow> y \<le> y' \<and> d = (\<Sum>i = y..<y'. year_days i) + r \<and> r < year_days y'"
proof (induction y d rule: year_of_days.induct)
  case (1 y d)
  show ?case
  proof (cases "d < year_days y")
    case True
    then show ?thesis using "1.prems" by (auto simp: year_of_days.simps [of y d])
  next
    case False
    then have p: "year_of_days (Suc y) (d - year_days y) = (y', r)"
      using "1.prems" by (subst (asm) year_of_days.simps) simp
    from "1.IH" [OF False p] False
    have le: "Suc y \<le> y'" and d: "d = year_days y + (\<Sum>i = Suc y..<y'. year_days i) + r" and r: "r < year_days y'"
      by auto
    have "(\<Sum>i = y..<y'. year_days i) = year_days y + (\<Sum>i = Suc y..<y'. year_days i)"
      using le by (simp add: sum.atLeast_Suc_lessThan)
    then show ?thesis using le d r by simp
  qed
qed

lemma month_of_day_spec:
  "month_of_day m ls d = (m', r) \<Longrightarrow> d < sum_list ls \<Longrightarrow>
   m \<le> m' \<and> m' < m + length ls \<and> d = sum_list (take (m' - m) ls) + r \<and> r < ls ! (m' - m)"
proof (induction m ls d rule: month_of_day.induct)
  case (2 m l ls d)
  show ?case
  proof (cases "d < l")
    case True
    then show ?thesis using "2.prems" by auto
  next
    case False
    then have "Suc m \<le> m' \<and> m' < Suc m + length ls \<and> d - l = sum_list (take (m' - Suc m) ls) + r \<and>
        r < ls ! (m' - Suc m)"
      using "2.IH" [OF False] "2.prems" by simp
    moreover from this have "m' - m = Suc (m' - Suc m)" by auto
    ultimately show ?thesis using False by (simp add: not_less) linarith
  qed
qed simp

lemma sum_month_lengths: "sum_list (month_lengths y) = year_days y"
  by (simp add: month_lengths_def year_days_def)

lemma month_lengths_le: "i < 12 \<Longrightarrow> month_lengths y ! i \<le> 31"
  by (auto simp: month_lengths_def numeral_eq_Suc less_Suc_eq)

lemma leap_cases:
  "year_days n + of_bool (n mod 100 = 0) = 365 + of_bool (n mod 4 = 0) + of_bool (n mod 400 = 0)"
proof -
  have "400 dvd n \<Longrightarrow> 100 dvd n" "100 dvd n \<Longrightarrow> 4 dvd n" by (auto elim: dvd_trans [rotated])
  then show ?thesis by (auto simp: year_days_def leap_def mod_eq_0_iff_dvd of_bool_def)
qed

lemma div_round_up: "0 < k \<Longrightarrow> (Suc n + (k - 1)) div k = (n + (k - 1)) div k + of_bool (n mod k = 0)" for k :: nat
proof -
  assume k: "0 < k"
  then have "Suc n + (k - 1) = Suc (n + (k - 1))" "Suc (n + (k - 1)) mod k = n mod k" by simp_all
  then show ?thesis by (simp only: div_Suc of_bool_def split: if_split) simp
qed

lemma sum_year_days:
  "(\<Sum>i = 0..<n. year_days i) + (n + 99) div 100 = 365 * n + (n + 3) div 4 + (n + 399) div 400"
proof (induction n)
  case (Suc n)
  have d: "(Suc n + 3) div 4 = (n + 3) div 4 + of_bool (n mod 4 = 0)"
    "(Suc n + 99) div 100 = (n + 99) div 100 + of_bool (n mod 100 = 0)"
    "(Suc n + 399) div 400 = (n + 399) div 400 + of_bool (n mod 400 = 0)"
    using div_round_up [of 4 n] div_round_up [of 100 n] div_round_up [of 400 n] by simp_all
  have s: "(\<Sum>i = 0..<Suc n. year_days i) = (\<Sum>i = 0..<n. year_days i) + year_days n" by simp
  define a b c A B C where abbr: "a = (n + 3) div 4" "b = (n + 99) div 100" "c = (n + 399) div 400"
    "A = (of_bool (n mod 4 = 0) :: nat)" "B = (of_bool (n mod 100 = 0) :: nat)" "C = (of_bool (n mod 400 = 0) :: nat)"
  show ?case using Suc.IH leap_cases [of n] unfolding d s mult_Suc_right abbr [symmetric] by simp
qed simp

lemma cycle_years: "(\<Sum>i = 1970..<2370. year_days i) = 146097"
proof -
  have "(\<Sum>i = 0..<1970. year_days i) + (\<Sum>i = 1970..<2370. year_days i) = (\<Sum>i = 0..<2370. year_days i)"
    by (rule sum.atLeastLessThan_concat) simp_all
  moreover have "(\<Sum>i = 0..<1970. year_days i) = 719528"
    using sum_year_days [of 1970] by (simp del: sum.op_ivl_Suc)
  moreover have "(\<Sum>i = 0..<2370. year_days i) = 865625"
    using sum_year_days [of 2370] by (simp del: sum.op_ivl_Suc)
  ultimately show ?thesis by linarith
qed

lemma cycle_year:
  assumes "year_of_days 1970 d = (y, r)" "d < 146097"
  shows "y < 2370"
proof (rule ccontr)
  assume "\<not> y < 2370"
  then have "(\<Sum>i = 1970..<2370. year_days i) \<le> (\<Sum>i = 1970..<y. year_days i)"
    by (intro sum_mono2) auto
  then show False using year_of_days_spec [OF assms(1)] assms(2) cycle_years by simp
qed

text \<open>The first day of a date, counted from 1970: the inverse of \<open>date_of_day\<close>.\<close>

definition day_of_date :: "tm \<Rightarrow> int" where
  "day_of_date t =
     (let c = (tm_year t - 1970) div 400; y = nat ((tm_year t - 1970) mod 400) + 1970
      in 146097 * c + int (\<Sum>i = 1970..<y. year_days i) + int (sum_list (take (tm_mon t) (month_lengths y))) +
         int (tm_mday t) - 1)"

lemma date_of_day_fields:
  "tm_mon (date_of_day d) < 12 \<and> 1 \<le> tm_mday (date_of_day d) \<and> tm_mday (date_of_day d) \<le> 31"
  "day_of_date (date_of_day d) = d"
proof -
  obtain y yd where y: "year_of_days 1970 (nat (d mod 146097)) = (y, yd)" by (rule prod.exhaust)
  obtain m md where m: "month_of_day 0 (month_lengths y) yd = (m, md)" by (rule prod.exhaust)
  have r: "0 \<le> d mod 146097" "d mod 146097 < 146097" by simp_all
  have ys: "1970 \<le> y" "nat (d mod 146097) = (\<Sum>i = 1970..<y. year_days i) + yd" "yd < year_days y"
    using year_of_days_spec [OF y] by auto
  have "y < 2370" using cycle_year [OF y] r by simp
  have l: "length (month_lengths y) = 12" by (simp add: month_lengths_def)
  have ms: "m < 12" "yd = sum_list (take m (month_lengths y)) + md" "md < month_lengths y ! m"
    using month_of_day_spec [OF m] ys(3) by (auto simp: sum_month_lengths l)
  have D: "date_of_day d = \<lparr>tm_year = int y + 400 * (d div 146097), tm_mon = m, tm_mday = md + 1\<rparr>"
    by (simp add: date_of_day_def y m)
  show "tm_mon (date_of_day d) < 12 \<and> 1 \<le> tm_mday (date_of_day d) \<and> tm_mday (date_of_day d) \<le> 31"
    using ms(1,3) month_lengths_le [OF ms(1), of y] by (simp add: D)
  have e: "int y + 400 * (d div 146097) - 1970 = (int y - 1970) + 400 * (d div 146097)" by simp
  have "(int y + 400 * (d div 146097) - 1970) div 400 = d div 146097"
    "(int y + 400 * (d div 146097) - 1970) mod 400 = int y - 1970"
    using ys(1) \<open>y < 2370\<close> unfolding e by simp_all
  moreover have n: "nat (int y - 1970) + 1970 = y" using ys(1) by simp
  moreover have day: "146097 * (d div 146097) + (int (\<Sum>i = 1970..<y. year_days i) + (int (sum_list (take m (month_lengths y))) + int md)) = d"
  proof -
    have "int (\<Sum>i = 1970..<y. year_days i) + (int (sum_list (take m (month_lengths y))) + int md) = d mod 146097"
      using ys(2) ms(2) r(1) by linarith
    then show ?thesis by (simp only: mult_div_mod_eq)
  qed
  ultimately show "day_of_date (date_of_day d) = d"
    using day by (simp add: D day_of_date_def n)
qed

text \<open>The name of a partition spells its date.\<close>

lemma show_nat_inject [simp]: "show_nat m = show_nat n \<longleftrightarrow> m = n"
  by (metis digits_val_show_nat)

lemma show_nat_no_sign: "show_nat n \<noteq> CHR ''-'' # s"
  using show_nat_digits [of n] by (auto simp: isdigit_def)

lemma show_int_inject [simp]: "show_int i = show_int j \<longleftrightarrow> i = j"
  by (auto simp: show_int_def show_nat_no_sign show_nat_no_sign [symmetric] split: if_splits)

lemma length_show_02: "n < 100 \<Longrightarrow> length (show_02 n) = 2"
  using less_mult_imp_div_less [of n 10 10] by (simp add: show_02_def show_nat.simps [of n] show_nat.simps [of "n div 10"])

lemma show_02_inject: "m < 100 \<Longrightarrow> n < 100 \<Longrightarrow> show_02 m = show_02 n \<longleftrightarrow> m = n"
proof -
  have "digits_val 10 (CHR ''0'' # s) = digits_val 10 s" for s
    by (simp add: digits_val_def digit_val_def isdigit_def)
  then have "digits_val 10 (show_02 n) = n" for n by (simp add: show_02_def)
  then show "m < 100 \<Longrightarrow> n < 100 \<Longrightarrow> show_02 m = show_02 n \<longleftrightarrow> m = n" by metis
qed

lemma year_bound: "\<bar>d\<bar> \<le> 10 ^ 15 \<Longrightarrow> \<bar>tm_year (date_of_day d)\<bar> < 10 ^ 15"
proof -
  assume d: "\<bar>d\<bar> \<le> 10 ^ 15"
  obtain y yd where y: "year_of_days 1970 (nat (d mod 146097)) = (y, yd)" by (rule prod.exhaust)
  have "y < 2370" using cycle_year [OF y] by simp
  moreover have "tm_year (date_of_day d) = int y + 400 * (d div 146097)"
    by (simp add: date_of_day_def y case_prod_beta Let_def)
  moreover have "d div 146097 \<le> 10 ^ 15 div 146097" "- (10 ^ 15) div 146097 \<le> d div 146097"
    using d by (intro zdiv_mono1; linarith)+
  ultimately show ?thesis by simp
qed

lemma length_show_int_bound: "\<bar>i\<bar> < 10 ^ k \<Longrightarrow> 0 < k \<Longrightarrow> length (show_int i) \<le> Suc k"
  using length_show_nat [of "nat (- i)" k] length_show_nat [of "nat i" k]
  by (auto simp: show_int_def nat_less_iff le_SucI)

lemma partition_name_eq:
  assumes "\<bar>d\<bar> \<le> 10 ^ 15"
  shows "partition_name (date_of_day d) = ''p'' @ show_int (tm_year (date_of_day d)) @
    show_02 (tm_mon (date_of_day d) + 1) @ show_02 (tm_mday (date_of_day d))"
  using length_show_int_bound [OF year_bound [OF assms]] date_of_day_fields(1) [of d]
  by (simp add: partition_name_def snprintf_s_def length_show_02)

lemma partition_name_inject:
  assumes "\<bar>d\<bar> \<le> 10 ^ 15" "\<bar>d'\<bar> \<le> 10 ^ 15" "partition_name (date_of_day d) = partition_name (date_of_day d')"
  shows "d = d'"
proof -
  let ?t = "date_of_day d" and ?u = "date_of_day d'"
  note f = date_of_day_fields(1) [of d] date_of_day_fields(1) [of d']
  have "(show_int (tm_year ?t) @ show_02 (tm_mon ?t + 1)) @ show_02 (tm_mday ?t) =
      (show_int (tm_year ?u) @ show_02 (tm_mon ?u + 1)) @ show_02 (tm_mday ?u)"
    using assms(3) unfolding partition_name_eq [OF assms(1)] partition_name_eq [OF assms(2)] by simp
  moreover have "length (show_02 (tm_mday ?t)) = length (show_02 (tm_mday ?u))"
    "length (show_02 (tm_mon ?t + 1)) = length (show_02 (tm_mon ?u + 1))" using f by (simp_all add: length_show_02)
  ultimately have "tm_year ?t = tm_year ?u" "show_02 (tm_mon ?t + 1) = show_02 (tm_mon ?u + 1)"
    "show_02 (tm_mday ?t) = show_02 (tm_mday ?u)" by (auto simp: append_eq_append_conv)
  then have "?t = ?u" using f by (simp add: show_02_inject)
  then show ?thesis using date_of_day_fields(2) by metis
qed

section \<open>What the partitions hold\<close>

lemma partition_limit_eq: "partition_limit off now = (now div day_secs + 2) * day_secs - off - 1"
  using mult_div_mod_eq [of day_secs now] by (simp add: partition_limit_def algebra_simps)

lemma partition_limit_day:
  assumes "- day_secs < off" "off < day_secs"
  shows "partition_limit off now div day_secs = now div day_secs + (if off < 0 then 2 else 1)"
proof -
  have "partition_limit off now = (if off < 0 then - off - 1 else day_secs - off - 1) +
      (now div day_secs + (if off < 0 then 2 else 1)) * day_secs"
    by (simp add: partition_limit_eq)
  moreover have "0 \<le> (if off < 0 then - off - 1 else day_secs - off - 1)"
    "(if off < 0 then - off - 1 else day_secs - off - 1) < day_secs" using assms by simp_all
  ultimately show ?thesis by (simp only: div_mult_self1 div_pos_pos_trivial)
qed



text \<open>
  The hour does get lost: in central Europe the partition that is added ten minutes after midnight UTC on the
  day of the spring change is named after the first of April, and can be dropped while it holds times that
  are almost an hour younger than thirty days.
\<close>

definition central_europe :: "int \<Rightarrow> int" where
  "central_europe t = (if t < 1711846800 then 3600 else 7200)"

lemma spring_change_drops_early:
  "partition_name (gmtime (partition_limit (get_local_timezone_offset central_europe 1711843800) 1711843800)) =
     partition_name (localtime central_europe (1714600800 - 31 * day_secs))"
  "1712012398 < partition_limit (get_local_timezone_offset central_europe 1711843800) 1711843800"
  "1714600800 < 1712012398 + 30 * day_secs - 3597"
  by (simp_all add: central_europe_def gmtime_def localtime_def partition_limit_def get_local_timezone_offset_def)

section \<open>Connections\<close>

text \<open>Statements neither open nor close connections.\<close>

definition stmt_laws :: "'w mysql \<Rightarrow> ('w \<Rightarrow> nat set) \<Rightarrow> bool" where
  "stmt_laws my opens \<longleftrightarrow>
     (\<forall>c s i w. opens (mysql_options my c s i w) = opens w) \<and>
     (\<forall>c s w. opens (snd (mysql_select_db my c s w)) = opens w) \<and>
     (\<forall>c w. opens (snd (mysql_stmt_init my c w)) = opens w) \<and>
     (\<forall>st s w. opens (snd (mysql_stmt_prepare my st s w)) = opens w) \<and>
     (\<forall>st ps w. opens (snd (mysql_stmt_bind_param my st ps w)) = opens w) \<and>
     (\<forall>st w. opens (snd (mysql_stmt_execute my st w)) = opens w) \<and>
     (\<forall>st ts w. opens (snd (mysql_stmt_bind_result my st ts w)) = opens w) \<and>
     (\<forall>st w. opens (snd (mysql_stmt_store_result my st w)) = opens w) \<and>
     (\<forall>st w. opens (snd (mysql_stmt_fetch my st w)) = opens w) \<and>
     (\<forall>st w. opens (mysql_stmt_free_result my st w) = opens w) \<and>
     (\<forall>st w. opens (mysql_stmt_close my st w) = opens w)"

lemma stmt_laws_steps:
  assumes "stmt_laws my opens"
  shows "opens (mysql_options my c s i w) = opens w"
    and "opens (snd (mysql_select_db my c s w)) = opens w"
    and "opens (snd (mysql_stmt_init my c w)) = opens w"
    and "opens (snd (mysql_stmt_prepare my st s w)) = opens w"
    and "opens (snd (mysql_stmt_bind_param my st ps w)) = opens w"
    and "opens (snd (mysql_stmt_execute my st w)) = opens w"
    and "opens (snd (mysql_stmt_bind_result my st ts w)) = opens w"
    and "opens (snd (mysql_stmt_store_result my st w)) = opens w"
    and "opens (snd (mysql_stmt_fetch my st w)) = opens w"
    and "opens (mysql_stmt_free_result my st w) = opens w"
    and "opens (mysql_stmt_close my st w) = opens w"
  by (simp_all add: assms [unfolded stmt_laws_def])

lemma query_opens:
  assumes "stmt_laws my opens"
  shows "opens (snd (snd (prepare_sql_statement my conn s w))) = opens w"
    and "opens (snd (p_exec_stmt my sql w)) = opens w"
    and "opens (snd (p_store_results my sql w)) = opens w"
    and "opens (snd (p_fetch_results my sql w)) = opens w"
    and "opens (p_free_results my sql w) = opens w"
    and "opens (close_prepared_statement my sql w) = opens w"
  by (simp_all add: prepare_sql_statement_def p_exec_stmt_def p_store_results_def p_fetch_results_def p_free_results_def
      close_prepared_statement_def case_prod_beta Let_def stmt_laws_steps [OF assms] split: option.split)

lemma is_existing_partition_opens:
  assumes "stmt_laws my opens"
  shows "opens (snd (is_existing_partition my conn part cfg w)) = opens w"
  by (simp add: is_existing_partition_def select_db_def case_prod_beta Let_def query_opens [OF assms] stmt_laws_steps [OF assms])

lemma open_database_opens:
  assumes "conn_laws my opens" "stmt_laws my opens" "fst (mysql_init my w) \<noteq> None" "open_database my cfg w = (oc, w')"
  shows "\<exists>c. c \<notin> opens w \<and> opens w' = insert c (opens w) \<and> (\<forall>d. oc = Some d \<longrightarrow> d = c)"
proof -
  obtain c w1 where i: "mysql_init my w = (Some c, w1)" using assms(3) by (cases "mysql_init my w") auto
  have "opens (mysql_options my c s i w) = opens w" for c s i w by (rule stmt_laws_steps [OF assms(2)])
  with i show ?thesis using assms(4) conn_laws_init(2) [OF assms(1) i] conn_laws_steps [OF assms(1)]
    by (auto simp: open_database_def Let_def case_prod_beta split: bool.splits if_splits prod.splits)
qed

text \<open>The common end of \<open>create_partition\<close> and \<open>drop_partition\<close>.\<close>

lemma run_partition_opens:
  assumes "conn_laws my opens" "stmt_laws my opens" "fst (mysql_init my w) \<noteq> None"
    and "(case open_database my cfg w of (None, w1) \<Rightarrow> (ERR, w1)
         | (Some conn, w1) \<Rightarrow>
             (case is_existing_partition my conn part cfg w1 of (n, w2) \<Rightarrow>
                if P n then (ERR, w2)
                else (case select_db my conn db w2 of (r, w3) \<Rightarrow>
                        if r \<noteq> 0 then (ERR, w3)
                        else (OK, close_database my conn (p_query my conn buf w3))))) = (rc, w')"
  shows "\<exists>c. c \<notin> opens w \<and> opens w' = (if rc = OK then opens w else insert c (opens w))"
proof -
  obtain oc w1 where o: "open_database my cfg w = (oc, w1)" by (rule prod.exhaust)
  obtain c where c: "c \<notin> opens w" "opens w1 = insert c (opens w)" "\<forall>d. oc = Some d \<longrightarrow> d = c"
    using open_database_opens [OF assms(1-3) o] by blast
  have e: "opens (snd (is_existing_partition my d part cfg v)) = opens v" for d v
    by (rule is_existing_partition_opens [OF assms(2)])
  have s: "opens (snd (mysql_select_db my d n v)) = opens v" for d n v by (rule stmt_laws_steps [OF assms(2)])
  note k = conn_laws_steps [OF assms(1)]
  show ?thesis
  proof (cases oc)
    case None
    then show ?thesis using assms(4) c by (auto simp: o)
  next
    case (Some d)
    obtain n w2 where n: "is_existing_partition my d part cfg w1 = (n, w2)" by (rule prod.exhaust)
    obtain r w3 where r: "mysql_select_db my d db w2 = (r, w3)" by (rule prod.exhaust)
    have o23: "opens w2 = opens w1" "opens w3 = opens w1" using e [of d w1] s [of d db w2] n r by simp_all
    have sel: "select_db my d db w2 = (r, w3)" by (simp add: select_db_def r)
    have "(rc, w') = (if P n then (ERR, w2) else if r \<noteq> 0 then (ERR, w3)
        else (OK, mysql_close my d (snd (mysql_query my d buf w3))))"
      using assms(4) [symmetric] unfolding o Some prod.case option.case n sel close_database_def p_query_def .
    then show ?thesis using c Some o23 k(2,4) by (intro exI [of _ c]) (simp split: if_splits)
  qed
qed

text \<open>
  C39: \<open>create_partition\<close> and \<open>drop_partition\<close> close their connection only when they have run their
  statement: each return in between (the partition is already there, or is not there to be dropped)
  leaves one more connection open, for the life of the daemon that calls them every hour.
\<close>

theorem manage_partitions_connections:
  assumes "conn_laws my opens" "stmt_laws my opens" "\<forall>w. fst (mysql_init my w) \<noteq> None" "finite (opens w)"
    and "create_partition my gmtoff t now cfg w = (rc1, w1)" "drop_partition my gmtoff t2 cfg w1 = (rc2, w2)"
  shows "manage_partitions my gmtoff (t, now, t2) cfg w = w2 \<and>
    card (opens w2) = card (opens w) + (if rc1 = OK then 0 else 1) + (if rc2 = OK then 0 else 1)"
proof -
  obtain c where "c \<notin> opens w" "opens w1 = (if rc1 = OK then opens w else insert c (opens w))"
    using run_partition_opens [OF assms(1,2) spec [OF assms(3)] assms(5) [unfolded create_partition_def Let_def]] by blast
  moreover obtain d where "d \<notin> opens w1" "opens w2 = (if rc2 = OK then opens w1 else insert d (opens w1))"
    using run_partition_opens [OF assms(1,2) spec [OF assms(3)] assms(6) [unfolded drop_partition_def Let_def]] by blast
  ultimately show ?thesis using assms(4-6) by (simp add: manage_partitions_def)
qed

lemma demo_stmt_laws: "stmt_laws demo_server (\<lambda>w. set (d_conns w))"
  by (simp add: stmt_laws_def demo_server_def)

text \<open>The partition to be dropped does not exist.\<close>

lemma manage_partitions_connections_witness:
  "\<exists>w'. manage_partitions demo_server (\<lambda>_. 0) (1700000000, 1700000000, 1700000000) (default_config []) (demo_world (\<lambda>k. None)) = w' \<and>
     card (set (d_conns w')) = 1"
proof -
  let ?c = "Suc 0" and ?w = "demo_world (\<lambda>k. None)"
  have o: "open_database demo_server (default_config []) ?w = (Some ?c, ?w\<lparr>d_conns := [?c]\<rparr>)"
    by (simp add: open_database_def demo_server_def demo_world_def Let_def)
  have e: "is_existing_partition demo_server c p cfg w = (0, w)" for c p cfg w
    by (simp add: is_existing_partition_def select_db_def prepare_sql_statement_def p_exec_stmt_def p_store_results_def
        p_fetch_results_def p_free_results_def close_prepared_statement_def p_bind_init_def bind_len_def
        demo_server_def fetched_int_def Let_def)
  have q: "mysql_query demo_server c (add_partition_stmt p l) w = (0, w)" for c p l w
    by (simp add: demo_server_def add_partition_stmt_def snprintf_s_def)
  have "create_partition demo_server (\<lambda>_. 0) 1700000000 1700000000 (default_config []) ?w = (OK, ?w)"
    unfolding create_partition_def Let_def o prod.case option.case e select_db_def close_database_def p_query_def q
    by (simp add: demo_server_def demo_world_def)
  moreover have "drop_partition demo_server (\<lambda>_. 0) 1700000000 (default_config []) ?w = (ERR, ?w\<lparr>d_conns := [?c]\<rparr>)"
    by (simp add: drop_partition_def Let_def o e)
  moreover have "\<forall>w. fst (mysql_init demo_server w) \<noteq> None" by (simp add: demo_server_def)
  ultimately show ?thesis
    using manage_partitions_connections [OF demo_conn_laws demo_stmt_laws] by (fastforce simp: demo_world_def)
qed

section \<open>The history\<close>

text \<open>The values that reach the library, in the order of the columns.\<close>

definition history_values :: "session_data \<Rightarrow> parser_state \<Rightarrow> int \<Rightarrow> (sql_type \<times> sql_val) list" where
  "history_values sdata state now =
     [(TYPE_LONG, SInt (to_int32 now)), (TYPE_STRING, SStr (sd_ttmpfile sdata)),
      (TYPE_LONG, SInt (sint (sd_status sdata))), (TYPE_STRING, SStr (ps_envelope_from state)),
      (TYPE_STRING, SStr (take 126 (ps_b_subject state))), (TYPE_LONG, SInt (sd_tot_len sdata))]"

lemma write_history_params:
  assumes "mysql_stmt_init my conn w = (Some st, w1)"
    and "mysql_stmt_prepare my st ''INSERT INTO history (ts, kospam_id, spam, sender, subject, size) VALUES (?,?,?,?,?,?)'' w1 = (0, w2)"
  shows "write_history_to_sql my conn sdata state now w =
    (case mysql_stmt_bind_param my st (history_values sdata state now) w2 of (r, w3) \<Rightarrow>
       mysql_stmt_close my st (if r \<noteq> 0 then w3 else snd (mysql_stmt_execute my st w3)))"
proof -
  let ?stmt = "''INSERT INTO history (ts, kospam_id, spam, sender, subject, size) VALUES (?,?,?,?,?,?)''"
  obtain sql where p: "prepare_sql_statement my conn ?stmt w = (OK, sql, w2)" "q_stmt sql = Some st"
    using assms by (simp add: prepare_sql_statement_def)
  define q where "q = fold (\<lambda>(t, v) q. bind v t q) (history_values sdata state now) (p_bind_init sql)"
  have st: "q_stmt q = Some st" using p(2) by (simp add: q_def history_values_def bind_len_def p_bind_init_def)
  have b: "bound_params q = history_values sdata state now"
    unfolding q_def by (rule bound_params_fold) (simp_all add: history_values_def)
  have "write_history_to_sql my conn sdata state now w = close_prepared_statement my q (snd (p_exec_stmt my q w2))"
    by (simp add: write_history_to_sql_def p(1) Let_def q_def history_values_def snprintf_s_def)
  then show ?thesis
    by (simp add: close_prepared_statement_def p_exec_stmt_def st b case_prod_beta split: option.split)
qed

end
