(* ===== verification/Message_File.thy ===== *)
theory Message_File
  imports Spam_Score
begin

text \<open>
  \<open>src/file.c\<close>: reading a message into a block, writing two buffers to a file, and the rewriting of the
  header of a message before it is sent on.  The file system is a map from names to contents; whether
  memory is granted, a file can be read or written, and how much room the disk has, are parameters.
\<close>

section \<open>Reading and writing files\<close>

type_synonym file_system = "string \<rightharpoonup> string"

text \<open>The block \<open>read_file\<close> returns holds the contents and a terminator.\<close>

definition read_file :: "(nat \<Rightarrow> bool) \<Rightarrow> bool \<Rightarrow> string option \<Rightarrow> buf option" where
  "read_file malloc readable file =
     (case file of
        None \<Rightarrow> None
      | Some s \<Rightarrow> if malloc (length s + 1) \<and> readable then Some (s @ [NUL]) else None)"

record disk =
  can_open :: bool
  room :: nat
  close_ok :: bool

definition write_buffers_to_file ::
  "disk \<Rightarrow> string \<Rightarrow> string \<Rightarrow> string option \<Rightarrow> file_system \<Rightarrow> int \<times> file_system" where
  "write_buffers_to_file d filename buffer1 buffer2 fs =
     (if \<not> can_open d then (-1, fs)
      else if length buffer1 > room d then (-1, fs(filename \<mapsto> take (room d) buffer1))
      else
        let out = buffer1 @ (case buffer2 of None \<Rightarrow> [] | Some s \<Rightarrow> s);
            fs' = fs(filename \<mapsto> take (room d) out)
        in if buffer2 \<noteq> None \<and> length out > room d then (-1, fs')
           else if \<not> close_ok d then (-1, fs') else (0, fs'))"

definition rename_file :: "string \<Rightarrow> string \<Rightarrow> file_system \<Rightarrow> file_system" where
  "rename_file old new fs = (case fs old of None \<Rightarrow> fs | Some s \<Rightarrow> (fs(old := None))(new \<mapsto> s))"

section \<open>Rewriting the header\<close>

abbreviation MAX_MAIL_HEADER_SIZE :: nat where
  "MAX_MAIL_HEADER_SIZE \<equiv> 128000"

text \<open>Where the headers end: at the first empty line.\<close>

definition find_headers_end :: "string \<Rightarrow> nat option" where
  "find_headers_end s =
     (case strstr s [CR, LF, CR, LF] of Some k \<Rightarrow> Some k | None \<Rightarrow> strstr s [LF, LF])"

text \<open>One line of the header; the state is \<open>my_header\<close> and what has been written to \<open>headerbuf\<close>.\<close>

definition header_line :: "string \<Rightarrow> string \<Rightarrow> bool \<times> string \<Rightarrow> bool \<times> string" where
  "header_line field v st =
     (case st of (my_header, headerbuf) \<Rightarrow>
        let folded = (v \<noteq> [] \<and> (hd v = SPACE \<or> hd v = TAB));
            mine = (if folded then my_header else strncmp_eq v field (length field));
            headerbuf' = (if length v + length headerbuf < MAX_MAIL_HEADER_SIZE \<and> \<not> mine
                          then headerbuf @ v @ [LF] else headerbuf)
        in (mine, headerbuf'))"

definition header_buffer :: "string \<Rightarrow> string \<Rightarrow> string" where
  "header_buffer field headers =
     snd (foldl (\<lambda>st v. header_line field v st) (False, [])
       (split_all (int SMALLBUFSIZE) LF headers))"

text \<open>
  The array \<open>headerbuf\<close> has room for \<open>MAX_MAIL_HEADER_SIZE + MAXBUFSIZE\<close> bytes; what would be written behind
  it is \<open>None\<close>.  The byte at the end of the headers becomes a line feed.
\<close>

definition fix_message_file ::
  "(nat \<Rightarrow> bool) \<Rightarrow> bool \<Rightarrow> disk \<Rightarrow> session_data \<Rightarrow> config \<Rightarrow> file_system \<Rightarrow> (int \<times> file_system) option" where
  "fix_message_file malloc readable d sdata cfg fs =
     (case read_file malloc readable (fs (sd_ttmpfile sdata)) of
        None \<Rightarrow> Some (1, fs)
      | Some buffer \<Rightarrow>
          let s = cstr buffer;
              headers_end = find_headers_end s;
              headers = (case headers_end of None \<Rightarrow> s | Some k \<Rightarrow> take k s);
              headerbuf = header_buffer (cfg_kospam_header_field cfg) headers @ sd_spaminessbuf sdata;
              body = map_option (\<lambda>k. LF # drop (Suc k) (butlast buffer)) headers_end;
              tmp = snprintf_s (SMALLBUFSIZE - 1) (sd_ttmpfile sdata @ ''.tmp'')
          in if length headerbuf > MAX_MAIL_HEADER_SIZE + MAXBUFSIZE then None
             else Some (0, rename_file tmp (sd_ttmpfile sdata)
                    (snd (write_buffers_to_file d tmp headerbuf body fs))))"

section \<open>The header that is written\<close>

lemma header_line_bound: "length (snd st) \<le> MAX_MAIL_HEADER_SIZE \<Longrightarrow> length (snd (header_line field v st)) \<le> MAX_MAIL_HEADER_SIZE"
  by (cases st) (auto simp: header_line_def Let_def)

lemma header_buffer_bound: "length (header_buffer field headers) \<le> MAX_MAIL_HEADER_SIZE"
proof -
  have "length (snd (foldl (\<lambda>st v. header_line field v st) st vs)) \<le> MAX_MAIL_HEADER_SIZE"
    if "length (snd st) \<le> MAX_MAIL_HEADER_SIZE" for st vs
    using that
  proof (induction vs arbitrary: st)
    case (Cons v vs)
    show ?case using Cons.IH [OF header_line_bound [OF Cons.prems]] by simp
  qed simp
  then show ?thesis by (simp add: header_buffer_def)
qed

text \<open>
  Reference: the lines of the header without the program's own header field and the lines that
  continue it.
\<close>

fun other_headers :: "string \<Rightarrow> bool \<Rightarrow> string list \<Rightarrow> string list" where
  "other_headers field mine [] = []"
| "other_headers field mine (v # vs) =
     (let m = (if v \<noteq> [] \<and> (hd v = SPACE \<or> hd v = TAB) then mine else prefix field v)
      in (if m then [] else [v]) @ other_headers field m vs)"

definition lines_text :: "string list \<Rightarrow> string" where
  "lines_text vs = concat (map (\<lambda>v. v @ [LF]) vs)"

lemma strncmp_field_prefix: "strncmp_eq v field (length field) \<longleftrightarrow> prefix field v"
  by (auto simp: strncmp_eq_def prefix_def) (metis append_take_drop_id)

lemma header_lines_other:
  "length out + length (lines_text (other_headers field mine vs)) \<le> MAX_MAIL_HEADER_SIZE \<Longrightarrow>
   snd (foldl (\<lambda>st v. header_line field v st) (mine, out) vs) = out @ lines_text (other_headers field mine vs)"
proof (induction vs arbitrary: mine out)
  case (Cons v vs)
  let ?m = "if v \<noteq> [] \<and> (hd v = SPACE \<or> hd v = TAB) then mine else prefix field v"
  have l: "header_line field v (mine, out) = (?m, out @ lines_text (if ?m then [] else [v]))"
    using Cons.prems by (auto simp: header_line_def Let_def strncmp_field_prefix lines_text_def)
  have "length (out @ lines_text (if ?m then [] else [v])) + length (lines_text (other_headers field ?m vs))
      \<le> MAX_MAIL_HEADER_SIZE"
    using Cons.prems by (auto simp: lines_text_def Let_def)
  from Cons.IH [OF this] show ?case by (simp add: l Let_def lines_text_def)
qed (simp add: lines_text_def)


text \<open>Whatever the disk has room for, the temporary file ends up in the place of the message.\<close>

lemma write_and_rename:
  assumes "can_open d" "tmp \<noteq> name"
  shows "rename_file tmp name (snd (write_buffers_to_file d tmp b1 b2 fs)) =
    (fs(tmp := None))(name \<mapsto> take (room d) (b1 @ (case b2 of None \<Rightarrow> [] | Some s \<Rightarrow> s)))"
  using assms by (auto simp: write_buffers_to_file_def rename_file_def Let_def fun_eq_iff)

lemma fix_message_file_result:
  assumes "fs (sd_ttmpfile sdata) = Some s" "malloc (length s + 1)" "can_open d" "length (sd_ttmpfile sdata) < 500"
    and "length (sd_spaminessbuf sdata) < MAXBUFSIZE" "find_headers_end (cstr (s @ [NUL])) = Some (length h)"
    and "prefix h (cstr (s @ [NUL]))" "\<forall>v\<in>set (cut_at LF h). length v < SMALLBUFSIZE"
    and "length (lines_text (other_headers (cfg_kospam_header_field cfg) False (cut_at LF h))) \<le> MAX_MAIL_HEADER_SIZE"
  shows "fix_message_file malloc True d sdata cfg fs =
    Some (0, (fs(sd_ttmpfile sdata @ ''.tmp'' := None))(sd_ttmpfile sdata \<mapsto>
      take (room d) (lines_text (other_headers (cfg_kospam_header_field cfg) False (cut_at LF h)) @
        sd_spaminessbuf sdata @ LF # drop (Suc (length h)) s)))"
proof -
  let ?field = "cfg_kospam_header_field cfg"
  have "map (take 511) (cut_at LF h) = cut_at LF h" using assms(8) by (intro map_idI) auto
  then have "split_all (int SMALLBUFSIZE) LF h = cut_at LF h" by (simp add: split_all_cut_at)
  then have b: "header_buffer ?field h = lines_text (other_headers ?field False (cut_at LF h))"
    using header_lines_other [of "[]" ?field False "cut_at LF h"] assms(9) by (simp add: header_buffer_def)
  have h: "take (length h) (cstr (s @ [NUL])) = h" using assms(7) by (auto simp: prefix_def)
  have t: "snprintf_s (SMALLBUFSIZE - 1) (sd_ttmpfile sdata @ ''.tmp'') = sd_ttmpfile sdata @ ''.tmp''"
    using assms(4) by (simp add: snprintf_s_fits)
  have fits: "\<not> length (header_buffer ?field h @ sd_spaminessbuf sdata) > MAX_MAIL_HEADER_SIZE + MAXBUFSIZE"
    using header_buffer_bound [of ?field h] assms(5) by simp
  have r: "read_file malloc True (fs (sd_ttmpfile sdata)) = Some (s @ [NUL])"
    using assms(1,2) by (simp add: read_file_def)
  have "sd_ttmpfile sdata @ ''.tmp'' \<noteq> sd_ttmpfile sdata" by simp
  note w = write_and_rename [OF assms(3) this]
  show ?thesis
    unfolding fix_message_file_def r option.case Let_def assms(6) h t w if_not_P [OF fits]
    by (simp add: b)
qed

lemma length_other_headers: "length (lines_text (other_headers field mine vs)) \<le> length (lines_text vs)"
proof (induction vs arbitrary: mine)
  case (Cons v vs)
  obtain m where "other_headers field mine (v # vs) = (if m then [] else [v]) @ other_headers field m vs"
    by (simp add: Let_def)
  then have "lines_text (other_headers field mine (v # vs)) =
      (if m then [] else v @ [LF]) @ lines_text (other_headers field m vs)"
    by (cases m) (simp_all add: lines_text_def)
  moreover have "lines_text (v # vs) = v @ LF # lines_text vs" by (simp add: lines_text_def)
  ultimately show ?case using Cons.IH [of m] by (cases m) (simp_all del: other_headers.simps)
qed (simp add: lines_text_def)

lemma length_lines_text_cut: "length (lines_text (cut_at LF h)) = Suc (length h)"
proof -
  have "vs \<noteq> [] \<Longrightarrow> length (lines_text vs) = Suc (length (join LF vs))" for vs
    by (induction vs) (auto simp: lines_text_def join_Cons)
  from this [of "cut_at LF h"] show ?thesis by simp
qed

lemma fix_message_file_headers:
  assumes "fs (sd_ttmpfile sdata) = Some (h @ eol @ eol @ body)" "malloc (length (h @ eol @ eol @ body) + 1)"
    and "eol = [LF] \<or> eol = [CR, LF]" "find_headers_end (cstr (h @ eol @ eol @ body @ [NUL])) = Some (length h)" "NUL \<notin> set h"
    and "can_open d" "length (h @ eol @ eol @ body) + MAXBUFSIZE < room d"
    and "length (sd_ttmpfile sdata) < 500" "length (sd_spaminessbuf sdata) < MAXBUFSIZE"
    and "\<forall>v\<in>set (cut_at LF h). length v < SMALLBUFSIZE" "length h < MAX_MAIL_HEADER_SIZE"
  shows "fix_message_file malloc True d sdata cfg fs =
    Some (0, (fs(sd_ttmpfile sdata @ ''.tmp'' := None))(sd_ttmpfile sdata \<mapsto>
      lines_text (other_headers (cfg_kospam_header_field cfg) False (cut_at LF h)) @
        sd_spaminessbuf sdata @ LF # tl (eol @ eol) @ body))"
proof -
  let ?l = "lines_text (other_headers (cfg_kospam_header_field cfg) False (cut_at LF h))"
  let ?s = "h @ eol @ eol @ body"
  have l: "length ?l \<le> Suc (length h)"
    using length_other_headers [of "cfg_kospam_header_field cfg" False "cut_at LF h"] by (simp add: length_lines_text_cut)
  have p: "prefix h (cstr (?s @ [NUL]))"
    using assms(5) by (auto simp: cstr_def takeWhile_append prefix_def)
  have e: "drop (Suc (length h)) ?s = tl (eol @ eol) @ body" using assms(3) by auto
  have f: "find_headers_end (cstr (?s @ [NUL])) = Some (length h)" using assms(4) by simp
  show ?thesis
    using fix_message_file_result [of fs sdata ?s malloc d h cfg, OF assms(1,2,6,8,9) f p assms(10)] l assms(7,9,11)
    unfolding e by simp
qed

text \<open>
  C26: Before a message is sent on, the lines of its header that belong to the program's own header field
  are removed, its result lines are put behind the remaining header, and the body is kept.  (The first
  byte of the empty line is replaced by a line feed: with line ends of two bytes the body gets one more
  empty line in front.)
\<close>

theorem fix_message_file_rewrites_header:
  assumes "fs (sd_ttmpfile sdata) = Some (h @ eol @ eol @ body)" "malloc (length (h @ eol @ eol @ body) + 1)"
    and "eol = [LF] \<or> eol = [CR, LF]" "find_headers_end (cstr (h @ eol @ eol @ body @ [NUL])) = Some (length h)" "NUL \<notin> set h"
    and "can_open d" "length (h @ eol @ eol @ body) + MAXBUFSIZE < room d"
    and "length (sd_ttmpfile sdata) < 500" "length (sd_spaminessbuf sdata) < MAXBUFSIZE"
    and "\<forall>v\<in>set (cut_at LF h). length v < SMALLBUFSIZE" "length h < MAX_MAIL_HEADER_SIZE"
  shows "fix_message_file malloc True d sdata cfg fs =
    Some (0, (fs(sd_ttmpfile sdata @ ''.tmp'' := None))(sd_ttmpfile sdata \<mapsto>
      lines_text (other_headers (cfg_kospam_header_field cfg) False (cut_at LF h)) @
        sd_spaminessbuf sdata @ LF # tl (eol @ eol) @ body))"
  by (rule fix_message_file_headers; fact assms)

lemma fix_message_file_rewrites_header_witness:
  "fix_message_file (\<lambda>_. True) True \<lparr>can_open = True, room = 10000, close_ok = True\<rparr>
     (init_session_data\<lparr>sd_ttmpfile := ''m'', sd_spaminessbuf := ''S: 0''\<rparr>) (default_config [])
     [''m'' \<mapsto> ''A: b'' @ [LF, LF] @ ''x''] =
   Some (0, [''m'' \<mapsto> ''A: b'' @ [LF] @ ''S: 0'' @ [LF, LF] @ ''x''])"
proof -
  let ?d = "\<lparr>can_open = True, room = 10000, close_ok = True\<rparr>"
  let ?sd = "init_session_data\<lparr>sd_ttmpfile := ''m'', sd_spaminessbuf := ''S: 0''\<rparr>"
  have f: "find_headers_end (cstr (''A: b'' @ [LF] @ [LF] @ ''x'' @ [NUL])) = Some (length ''A: b'')" by code_simp
  have "cut_at LF ''A: b'' = [''A: b'']" by (rule cut_at_no_occurrence) simp
  moreover have "lines_text (other_headers (cfg_kospam_header_field (default_config [])) False [''A: b'']) = ''A: b'' @ [LF]"
    by (simp add: lines_text_def default_config_def)
  ultimately show ?thesis
    using fix_message_file_rewrites_header [of "[''m'' \<mapsto> ''A: b'' @ [LF, LF] @ ''x'']" ?sd "''A: b''" "[LF]" "''x''"
        "\<lambda>_. True" ?d "default_config []"] f
    by (simp add: fun_upd_def fun_eq_iff)
qed

text \<open>
  C27: The result of writing is not looked at: when the disk has no room even for the header, the message
  is replaced by as much of the header as was written, its body is lost, and the caller is told that all
  went well.
\<close>

theorem fix_message_file_disk_full:
  assumes "fs (sd_ttmpfile sdata) = Some s" "malloc (length s + 1)" "can_open d" "length (sd_ttmpfile sdata) < 500"
    and "length (sd_spaminessbuf sdata) < MAXBUFSIZE" "find_headers_end (cstr (s @ [NUL])) = Some (length h)"
    and "prefix h (cstr (s @ [NUL]))" "\<forall>v\<in>set (cut_at LF h). length v < SMALLBUFSIZE"
    and "length (lines_text (other_headers (cfg_kospam_header_field cfg) False (cut_at LF h))) \<le> MAX_MAIL_HEADER_SIZE"
    and "room d < length (lines_text (other_headers (cfg_kospam_header_field cfg) False (cut_at LF h)))"
  shows "fix_message_file malloc True d sdata cfg fs =
    Some (0, (fs(sd_ttmpfile sdata @ ''.tmp'' := None))(sd_ttmpfile sdata \<mapsto>
      take (room d) (lines_text (other_headers (cfg_kospam_header_field cfg) False (cut_at LF h)))))"
  using fix_message_file_result [of fs sdata s malloc d h cfg, OF assms(1-9)] assms(10) by simp

lemma fix_message_file_disk_full_witness:
  "fix_message_file (\<lambda>_. True) True \<lparr>can_open = True, room = 3, close_ok = True\<rparr>
     (init_session_data\<lparr>sd_ttmpfile := ''m''\<rparr>) (default_config []) [''m'' \<mapsto> ''A: b'' @ [LF, LF] @ ''x''] =
   Some (0, [''m'' \<mapsto> ''A: ''])"
proof -
  let ?s = "''A: b'' @ [LF, LF] @ ''x''"
  let ?sd = "init_session_data\<lparr>sd_ttmpfile := ''m''\<rparr>"
  have f: "find_headers_end (cstr (?s @ [NUL])) = Some (length ''A: b'')" "prefix ''A: b'' (cstr (?s @ [NUL]))" by code_simp+
  have c: "cut_at LF ''A: b'' = [''A: b'']" by (rule cut_at_no_occurrence) simp
  show ?thesis
    using fix_message_file_disk_full [of "[''m'' \<mapsto> ?s]" ?sd ?s "\<lambda>_. True" "\<lparr>can_open = True, room = 3, close_ok = True\<rparr>"
        "''A: b''" "default_config []"] f
    by (simp add: c lines_text_def default_config_def init_session_data_def fun_upd_def fun_eq_iff)
qed

end
