(* ===== verification/Startup.thy ===== *)
theory Startup
  imports Process_Pool Partition Message_File
begin

text \<open>
  From the start of the daemon to its idle loop: \<open>src/dirs.c\<close>, \<open>drop_privileges\<close> and \<open>write_pid_file\<close> of
  \<open>src/misc.c\<close>, the loading of the regular expressions of \<open>src/zombie.c\<close>, and \<open>main\<close> of \<open>src/kospam.c\<close>.

  A directory exists when it is in a set of names; whether \<open>mkdir\<close> succeeds, what the password database
  holds and what \<open>setuid\<close>, \<open>setgid\<close> and \<open>daemon\<close> answer are parameters.
\<close>

section \<open>dirs.c\<close>

text \<open>\<open>createdir\<close> cuts a final slash off the array of its caller: the result has the new path.\<close>

definition createdir :: "(string set \<Rightarrow> string \<Rightarrow> bool) \<Rightarrow> string \<Rightarrow> string set \<Rightarrow> string \<times> string set" where
  "createdir mkdir path dirs =
     (if length path > 2
      then
        let p = (if last path = CHR ''/'' then butlast path else path)
        in (p, if p \<in> dirs then dirs else if mkdir dirs p then insert p dirs else dirs)
      else (path, dirs))"

text \<open>
  The directory above: the last slash becomes a terminator and then a slash again; when \<open>createdir\<close> has
  cut a slash in front of it, the terminator written there stays.
\<close>

definition createdir_above :: "(string set \<Rightarrow> string \<Rightarrow> bool) \<Rightarrow> string \<Rightarrow> string set \<Rightarrow> string \<times> string set" where
  "createdir_above mkdir path dirs =
     (case strrchr path (CHR ''/'') of
        None \<Rightarrow> (path, dirs)
      | Some k \<Rightarrow>
          (case createdir mkdir (take k path) dirs of (up, dirs') \<Rightarrow>
             (if length up < k then up else path, dirs')))"

definition worker_dir :: "string \<Rightarrow> nat \<Rightarrow> string" where
  "worker_dir workdir i = snprintf_s (SMALLBUFSIZE - 1) (workdir @ ''/'' @ show_nat i)"

definition check_and_create_directories ::
  "(string set \<Rightarrow> string \<Rightarrow> bool) \<Rightarrow> config \<Rightarrow> string set \<Rightarrow> config \<times> string set" where
  "check_and_create_directories mkdir cfg dirs =
     (let (w1, d1) = createdir_above mkdir (cfg_workdir cfg) dirs;
          (w2, d2) = createdir mkdir w1 d1;
          (q1, d3) = createdir_above mkdir (cfg_quarantinedir cfg) d2;
          (q2, d4) = createdir mkdir q1 d3;
          (p1, d5) = createdir_above mkdir (cfg_pidfile cfg) d4;
          d6 = foldl (\<lambda>d i. snd (createdir mkdir (worker_dir w2 i) d)) d5 [0..<nat (cfg_number_of_worker_processes cfg)]
      in (cfg\<lparr>cfg_workdir := w2, cfg_quarantinedir := q2, cfg_pidfile := p1\<rparr>, d6))"

section \<open>misc.c\<close>

text \<open>The user and group of the process; \<open>-1\<close> is an error.\<close>

record ids =
  uid :: nat
  gid :: nat

definition drop_privileges :: "(nat \<Rightarrow> ids \<Rightarrow> bool) \<Rightarrow> (nat \<Rightarrow> ids \<Rightarrow> bool) \<Rightarrow> ids \<Rightarrow> ids \<Rightarrow> int \<times> ids" where
  "drop_privileges setgid setuid pw s =
     (if uid pw > 0 \<and> gid pw > 0
      then
        if gid s \<noteq> gid pw \<and> \<not> setgid (gid pw) s then (-1, s)
        else
          let s1 = s\<lparr>gid := gid pw\<rparr>
          in if uid s1 \<noteq> uid pw \<and> \<not> setuid (uid pw) s1 then (-1, s1) else (0, s1\<lparr>uid := uid pw\<rparr>)
      else (0, s))"

definition write_pid_file :: "bool \<Rightarrow> string \<Rightarrow> nat \<Rightarrow> (string \<rightharpoonup> string) \<Rightarrow> (string \<rightharpoonup> string)" where
  "write_pid_file writable pidfile pid fs = (if writable then fs(pidfile \<mapsto> show_nat pid) else fs)"

section \<open>zombie.c\<close>

abbreviation NUM_OF_REGEXES :: nat where
  "NUM_OF_REGEXES \<equiv> 30"

text \<open>The array of compiled expressions up to \<open>n_regex\<close> is a list; \<open>regcomp\<close> compiles a pattern.\<close>

definition zombie_comment :: "string \<Rightarrow> bool" where
  "zombie_comment buf \<longleftrightarrow> buf \<noteq> [] \<and> (hd buf = CHR '';'' \<or> hd buf = CHR ''#'' \<or> hd buf = CR \<or> hd buf = LF)"

fun zombie_lines :: "(string \<Rightarrow> 'r option) \<Rightarrow> string list \<Rightarrow> 'r list \<Rightarrow> 'r list" where
  "zombie_lines regcomp [] pregs = pregs"
| "zombie_lines regcomp (line # lines) pregs =
     (let buf = cstr line;
          pregs' = (if zombie_comment buf then pregs
                    else case regcomp (chop_string buf) of None \<Rightarrow> pregs | Some r \<Rightarrow> pregs @ [r])
      in if length pregs' = NUM_OF_REGEXES - 1 then pregs' else zombie_lines regcomp lines pregs')"

definition zombie_init :: "(string \<Rightarrow> 'r option) \<Rightarrow> string option \<Rightarrow> 'r list" where
  "zombie_init regcomp file =
     (case file of None \<Rightarrow> [] | Some s \<Rightarrow> zombie_lines regcomp (fgets_lines (SMALLBUFSIZE - 2) s) [])"

section \<open>main\<close>

text \<open>What the system answers while the daemon starts.\<close>

record 'w host =
  h_my :: "'w mysql"
  h_gmtoff :: "int \<Rightarrow> int"
  h_clock :: "int \<times> int \<times> int"
  h_datadir :: string
  h_passwd :: "string \<Rightarrow> ids option"
  h_setgid :: "nat \<Rightarrow> ids \<Rightarrow> bool"
  h_setuid :: "nat \<Rightarrow> ids \<Rightarrow> bool"
  h_mkdir :: "string set \<Rightarrow> string \<Rightarrow> bool"
  h_daemon :: bool
  h_pid :: nat
  h_can_open :: bool
  h_fork :: "pool \<Rightarrow> int"

record 'w daemon =
  dm_cfg :: config
  dm_ids :: ids
  dm_dirs :: "string set"
  dm_files :: "string \<rightharpoonup> string"
  dm_world :: 'w
  dm_pool :: pool

text \<open>A fatal error exits; without a user name the entry of the password database is a null pointer.\<close>

datatype 'd outcome = Fatal | Null_pointer | Running 'd

definition main_start ::
  "'w host \<Rightarrow> string option \<Rightarrow> ids \<Rightarrow> string set \<Rightarrow> (string \<rightharpoonup> string) \<Rightarrow> 'w \<Rightarrow> 'w daemon outcome" where
  "main_start h file s dirs files w =
     (case initialise_configuration (h_datadir h) (\<lambda>u. h_passwd h u \<noteq> None) (\<lambda>d. d \<in> dirs) file of
        None \<Rightarrow> Fatal
      | Some cfg \<Rightarrow>
          (case (if length (cfg_username cfg) > 1 then h_passwd h (cfg_username cfg) else None) of
             None \<Rightarrow> Null_pointer
           | Some pw \<Rightarrow>
               (case drop_privileges (h_setgid h) (h_setuid h) pw s of (r, s1) \<Rightarrow>
                  if r \<noteq> 0 then Fatal
                  else
                    let (cfg1, dirs1) = check_and_create_directories (h_mkdir h) cfg dirs;
                        files1 = (if files (cfg_pidfile cfg1) \<noteq> None then files(cfg_pidfile cfg1 := None) else files)
                    in if \<not> h_daemon h then Fatal
                       else Running \<lparr>dm_cfg = cfg1, dm_ids = s1, dm_dirs = dirs1,
                              dm_files = write_pid_file (h_can_open h) (cfg_pidfile cfg1) (h_pid h) files1,
                              dm_world = manage_partitions (h_my h) (h_gmtoff h) (h_clock h) cfg1 w,
                              dm_pool = child_pool_create (h_fork h) (nat (cfg_number_of_worker_processes cfg1)) fresh_pool\<rparr>)))"

text \<open>The idle loop: the times at which it wakes, and those at which it calls \<open>manage_partitions\<close>.\<close>

fun maintenance :: "int list \<Rightarrow> int \<Rightarrow> int list" where
  "maintenance [] last_run = []"
| "maintenance (now # wakes) last_run =
     (if now - last_run \<ge> 3600 then now # maintenance wakes now else maintenance wakes last_run)"

section \<open>The directories\<close>

lemma createdir_dirs: "dirs \<subseteq> snd (createdir mkdir p dirs)"
  by (auto simp: createdir_def Let_def)

lemma createdir_above_dirs: "dirs \<subseteq> snd (createdir_above mkdir p dirs)"
  using createdir_dirs by (fastforce simp: createdir_above_def case_prod_beta split: option.split)

lemma fold_createdir_dirs: "dirs \<subseteq> foldl (\<lambda>d i. snd (createdir mkdir (f i) d)) dirs is"
proof (induction "is" arbitrary: dirs)
  case (Cons i "is")
  show ?case using createdir_dirs [of dirs mkdir "f i"] Cons.IH [of "snd (createdir mkdir (f i) dirs)"] by simp
qed simp

lemma fold_createdir_in:
  "i \<in> set is \<Longrightarrow> (\<And>d. f i \<in> snd (createdir mkdir (f i) d)) \<Longrightarrow>
   f i \<in> foldl (\<lambda>d i. snd (createdir mkdir (f i) d)) dirs is"
proof (induction "is" arbitrary: dirs)
  case (Cons j "is")
  show ?case
  proof (cases "i = j")
    case True
    then show ?thesis using fold_createdir_dirs [of "snd (createdir mkdir (f j) dirs)" mkdir f "is"] Cons.prems(2) by auto
  next
    case False
    then show ?thesis using Cons by simp
  qed
qed simp

lemma worker_dir_eq:
  assumes "length d < 400" "i < 100"
  shows "worker_dir d i = d @ ''/'' @ show_nat i" "last (worker_dir d i) \<noteq> CHR ''/''" "length (worker_dir d i) \<ge> length d + 2"
proof -
  have l: "length (show_nat i) \<le> 2" using assms(2) by (intro length_show_nat) simp_all
  then show e: "worker_dir d i = d @ ''/'' @ show_nat i" using assms(1) by (simp add: worker_dir_def snprintf_s_def)
  have "last (show_nat i) \<in> set (show_nat i)" by (simp add: last_in_set)
  then have "isdigit (last (show_nat i))" using show_nat_digits by blast
  then show "last (worker_dir d i) \<noteq> CHR ''/''" unfolding e by (auto simp: isdigit_def)
  have "0 < length (show_nat i)" by (cases "show_nat i") simp_all
  then show "length (worker_dir d i) \<ge> length d + 2" unfolding e by (simp add: Suc_le_eq)
qed

lemma check_directories_run:
  assumes "check_and_create_directories mkdir cfg dirs = (cfg', dirs')" "cfg_number_of_worker_processes cfg \<le> 64"
    and "length (cfg_workdir cfg') < 400" "cfg_workdir cfg' \<noteq> []" "\<forall>ds i. mkdir ds (worker_dir (cfg_workdir cfg') i)"
  shows "dirs \<subseteq> dirs' \<and> (\<forall>i < nat (cfg_number_of_worker_processes cfg). worker_dir (cfg_workdir cfg') i \<in> dirs')"
proof -
  obtain w1 d1 where 1: "createdir_above mkdir (cfg_workdir cfg) dirs = (w1, d1)" by (rule prod.exhaust)
  obtain w2 d2 where 2: "createdir mkdir w1 d1 = (w2, d2)" by (rule prod.exhaust)
  obtain q1 d3 where 3: "createdir_above mkdir (cfg_quarantinedir cfg) d2 = (q1, d3)" by (rule prod.exhaust)
  obtain q2 d4 where 4: "createdir mkdir q1 d3 = (q2, d4)" by (rule prod.exhaust)
  obtain p1 d5 where 5: "createdir_above mkdir (cfg_pidfile cfg) d4 = (p1, d5)" by (rule prod.exhaust)
  let ?n = "nat (cfg_number_of_worker_processes cfg)"
  have r: "cfg_workdir cfg' = w2" "dirs' = foldl (\<lambda>d i. snd (createdir mkdir (worker_dir w2 i) d)) d5 [0..<?n]"
    using assms(1) by (auto simp: check_and_create_directories_def 1 2 3 4 5)
  have "dirs \<subseteq> d5"
    using createdir_above_dirs [of dirs mkdir "cfg_workdir cfg"] createdir_dirs [of d1 mkdir w1]
      createdir_above_dirs [of d2 mkdir "cfg_quarantinedir cfg"] createdir_dirs [of d3 mkdir q1]
      createdir_above_dirs [of d4 mkdir "cfg_pidfile cfg"] unfolding 1 2 3 4 5 by auto
  then have a: "dirs \<subseteq> dirs'" unfolding r using fold_createdir_dirs by blast
  have "worker_dir w2 i \<in> dirs'" if "i < ?n" for i
  proof -
    have i: "i < 100" using that assms(2) by simp
    have "length w2 \<ge> 1" using assms(4) r(1) by (cases w2) auto
    then have "worker_dir w2 i \<in> snd (createdir mkdir (worker_dir w2 i) d)" for d
      using worker_dir_eq(2,3) [of w2 i] assms(3,5) r(1) i by (simp add: createdir_def Let_def)
    then show ?thesis unfolding r(2) using that by (intro fold_createdir_in) auto
  qed
  then show ?thesis using a r(1) by blast
qed

text \<open>
  Two slashes in front of the name of the pid file (or of the last part of the working directory) cut the
  configured path: the terminator that takes the place of the first one is never undone, so the daemon
  goes on with the directory as its pid file.
\<close>

theorem double_slash_cuts_path:
  assumes "CHR ''/'' \<notin> set name" "2 \<le> length up"
  shows "fst (createdir_above mkdir (up @ ''//'' @ name) dirs) = up"
proof -
  have n: "strrchr name (CHR ''/'') = None" using assms(1) by (simp add: strrchr_None_iff)
  have "strrchr (up @ ''//'' @ name) (CHR ''/'') = Some (length up + 1)"
    by (induction up) (simp_all add: n)
  moreover have "take (length up + 1) (up @ ''//'' @ name) = up @ ''/''" by simp
  ultimately show ?thesis using assms(2) by (simp add: createdir_above_def createdir_def case_prod_beta Let_def)
qed

lemma double_slash_cuts_path_witness:
  "cfg_pidfile (fst (check_and_create_directories (\<lambda>_ _. True) (default_config []\<lparr>cfg_pidfile := ''/run//k.pid''\<rparr>) {})) = ''/run''"
proof -
  have "fst (createdir_above (\<lambda>_ _. True) (''/run'' @ ''//'' @ ''k.pid'') d) = ''/run''" for d
    by (rule double_slash_cuts_path) simp_all
  then show ?thesis by (simp add: check_and_create_directories_def Let_def case_prod_beta)
qed

section \<open>The regular expressions\<close>

lemma zombie_lines_eq:
  "length pregs < NUM_OF_REGEXES - 1 \<Longrightarrow>
   zombie_lines regcomp lines pregs = take (NUM_OF_REGEXES - 1) (pregs @
     List.map_filter (\<lambda>l. regcomp (chop_string l)) (filter (\<lambda>l. \<not> zombie_comment l) (map cstr lines)))"
proof (induction lines arbitrary: pregs)
  case (Cons line lines)
  define pregs' where "pregs' = (if zombie_comment (cstr line) then pregs
      else case regcomp (chop_string (cstr line)) of None \<Rightarrow> pregs | Some r \<Rightarrow> pregs @ [r])"
  have l: "zombie_lines regcomp (line # lines) pregs =
      (if length pregs' = NUM_OF_REGEXES - 1 then pregs' else zombie_lines regcomp lines pregs')"
    by (simp add: pregs'_def Let_def)
  have e: "pregs @ List.map_filter (\<lambda>l. regcomp (chop_string l)) (filter (\<lambda>l. \<not> zombie_comment l) (map cstr (line # lines))) =
      pregs' @ List.map_filter (\<lambda>l. regcomp (chop_string l)) (filter (\<lambda>l. \<not> zombie_comment l) (map cstr lines))"
    by (simp add: pregs'_def map_filter_simps split: option.split)
  have le: "length pregs' \<le> NUM_OF_REGEXES - 1"
    using Cons.prems by (auto simp: pregs'_def split: option.split)
  show ?case unfolding l e using Cons.IH [of pregs'] le by (auto simp: le_less)
qed (simp add: map_filter_simps)

definition pattern_line :: "string \<Rightarrow> bool" where
  "pattern_line l \<longleftrightarrow> l \<noteq> [] \<and> hd l \<notin> {CHR '';'', CHR ''#'', CR}"

text \<open>
  The daemon compiles the lines of the file that are neither empty nor comments, in order, without
  those that do not compile, and keeps the first 29 of them: one fewer than its array has room for.
\<close>

theorem zombie_init_loads:
  assumes "\<forall>l\<in>set ls. LF \<notin> set l \<and> NUL \<notin> set l \<and> length l < SMALLBUFSIZE - 2"
  shows "zombie_init regcomp (Some (lines_text ls)) =
      take 29 (List.map_filter (\<lambda>l. regcomp (rstrip_newlines l)) (filter pattern_line ls)) \<and>
    length (zombie_init regcomp file) < NUM_OF_REGEXES"
proof
  let ?p = "\<lambda>s. List.map_filter (\<lambda>l. regcomp (chop_string l)) (filter (\<lambda>l. \<not> zombie_comment l) (map cstr (fgets_lines (SMALLBUFSIZE - 2) s)))"
  have init: "zombie_init regcomp (Some s) = take 29 (?p s)" for s
    using zombie_lines_eq [of "[]" regcomp] by (simp add: zombie_init_def)
  have "?p (lines_text ls) = List.map_filter (\<lambda>l. regcomp (rstrip_newlines l)) (filter pattern_line ls)"
    using assms
  proof (induction ls)
    case Nil
    then show ?case by (simp add: lines_text_def map_filter_simps)
  next
    case (Cons l ls)
    have l: "LF \<notin> set l" "NUL \<notin> set l" "length l < SMALLBUFSIZE - 2" using Cons.prems by auto
    have f: "fgets_lines (SMALLBUFSIZE - 2) (lines_text (l # ls)) = (l @ [LF]) # fgets_lines (SMALLBUFSIZE - 2) (lines_text ls)"
      using fgets_lines_Cons [OF l(1,3)] by (simp add: lines_text_def)
    have c: "cstr (l @ [LF]) = l @ [LF]" using l(2) by (simp add: cstr_id)
    have "chop_string (l @ [LF]) = rstrip_newlines l"
      using l(2) by (simp add: chop_string_rstrip rstrip_newlines_def)
    moreover have "zombie_comment (l @ [LF]) \<longleftrightarrow> \<not> pattern_line l"
      using l(1) by (cases l) (auto simp: zombie_comment_def pattern_line_def)
    ultimately show ?case
      using Cons.IH Cons.prems unfolding f by (simp add: c map_filter_simps split: option.split)
  qed
  then show "zombie_init regcomp (Some (lines_text ls)) =
      take 29 (List.map_filter (\<lambda>l. regcomp (rstrip_newlines l)) (filter pattern_line ls))" by (simp add: init)
  show "length (zombie_init regcomp file) < NUM_OF_REGEXES"
    by (simp add: zombie_init_def zombie_lines_eq min_less_iff_disj split: option.split)
qed

lemma zombie_init_loads_witness:
  "zombie_init Some (Some (lines_text [''# dynamic'', ''^dsl-'', [], ''cable''])) = [''^dsl-'', ''cable'']"
  using zombie_init_loads [of "[''# dynamic'', ''^dsl-'', [], ''cable'']" Some None]
  by (simp add: pattern_line_def map_filter_simps rstrip_newlines_def)

section \<open>The idle loop\<close>

text \<open>
  When the daemon wakes at least every \<open>g\<close> seconds, two runs of the maintenance of the partitions are
  at least an hour and less than an hour and \<open>g\<close> seconds apart, and the last one is never an hour ago.
\<close>

theorem maintenance_hourly:
  assumes "successively (\<lambda>a b. a \<le> b \<and> b - a \<le> g) (start # wakes)"
  shows "successively (\<lambda>a b. 3600 \<le> b - a \<and> b - a < 3600 + g) (start # maintenance wakes start) \<and>
    last (start # wakes) - last (start # maintenance wakes start) < 3600"
proof -
  have "successively (\<lambda>a b. a \<le> b \<and> b - a \<le> g) (p # wakes) \<Longrightarrow> l \<le> p \<Longrightarrow> p - l < 3600 \<Longrightarrow>
      successively (\<lambda>a b. 3600 \<le> b - a \<and> b - a < 3600 + g) (l # maintenance wakes l) \<and>
      last (p # wakes) - last (l # maintenance wakes l) < 3600" for p l
  proof (induction wakes arbitrary: p l)
    case (Cons now wakes)
    have n: "p \<le> now" "now - p \<le> g" "successively (\<lambda>a b. a \<le> b \<and> b - a \<le> g) (now # wakes)"
      using Cons.prems(1) by simp_all
    show ?case
    proof (cases "now - l \<ge> 3600")
      case True
      then show ?thesis using Cons.IH [OF n(3), of now] n(1,2) Cons.prems(2,3) by simp
    next
      case False
      then show ?thesis using Cons.IH [OF n(3), of l] n(1,2) Cons.prems(2,3) by simp
    qed
  qed simp
  from this [OF assms, of start] show ?thesis by simp
qed

lemma maintenance_hourly_witness:
  "maintenance [1800, 3600, 5400, 7200] 0 = [3600, 7200] \<and>
   successively (\<lambda>a b. 3600 \<le> b - a \<and> b - a < 3600 + 1800) ((0 :: int) # maintenance [1800, 3600, 5400, 7200] 0)"
  using maintenance_hourly [of 1800 0 "[1800, 3600, 5400, 7200]"] by simp

section \<open>The start of the daemon\<close>

lemma check_directories_cfg:
  "check_and_create_directories mkdir cfg dirs = (cfg', dirs') \<Longrightarrow>
   cfg_number_of_worker_processes cfg' = cfg_number_of_worker_processes cfg \<and> cfg_username cfg' = cfg_username cfg"
  by (auto simp: check_and_create_directories_def Let_def case_prod_beta)

lemma drop_privileges_ok:
  "drop_privileges setgid setuid pw s = (0, s') \<Longrightarrow> 0 < uid pw \<Longrightarrow> 0 < gid pw \<Longrightarrow> s' = s\<lparr>uid := uid pw, gid := gid pw\<rparr>"
  by (cases s) (auto simp: drop_privileges_def Let_def split: if_splits)

lemma initialise_configuration_None_iff:
  "initialise_configuration (h_datadir h) (\<lambda>u. h_passwd h u \<noteq> None) (\<lambda>d. d \<in> dirs) file = None \<longleftrightarrow>
     file = None \<or> cfg_workdir (read_config (h_datadir h) file) \<notin> dirs \<or>
     length (cfg_username (read_config (h_datadir h) file)) > 1 \<and> h_passwd h (cfg_username (read_config (h_datadir h) file)) = None"
  by (auto simp: initialise_configuration_def Let_def)


definition demo_host :: "demo host" where
  "demo_host = \<lparr>h_my = demo_server, h_gmtoff = (\<lambda>_. 0), h_clock = (1700000000, 1700000000, 1700000000), h_datadir = ''/var'',
     h_passwd = (\<lambda>u. Some \<lparr>uid = 1000, gid = 1000\<rparr>), h_setgid = (\<lambda>_ _. True), h_setuid = (\<lambda>_ _. True),
     h_mkdir = (\<lambda>_ _. True), h_daemon = True, h_pid = 100, h_can_open = True, h_fork = next_pid\<rparr>"


end
