(* ===== verification/Antispam.thy ===== *)
theory Antispam
  imports Spam_Score
begin

text \<open>
  \<open>src/train.c\<close>, the sender check of \<open>src/zombie.c\<close>, and \<open>check_spam\<close> of \<open>src/antispam.c\<close>, the
  decision about one message.

  The regular expressions are compiled and matched by the C library: \<open>regexec\<close> is a parameter
  that says whether an expression of any type \<open>'r\<close> matches a host name.  Time stamps and log
  messages are left out; \<open>None\<close> is a write behind the block of a query.
\<close>

section \<open>train.c\<close>

definition new_token_item :: "nat \<Rightarrow> 64 word \<Rightarrow> string" where
  "new_token_item n key =
     (if n \<noteq> 0 then snprintf_s 511 ('',('' @ show_nat (unat key) @ '',0,0)'')
      else snprintf_s 511 (''('' @ show_nat (unat key) @ '',0,0)''))"

definition new_token :: "node \<Rightarrow> bool" where
  "new_token q \<longleftrightarrow> n_nham q + n_nspam q = 0"

definition introduce_head :: string where
  "introduce_head = snprintf_s 511 (''INSERT INTO '' @ ''token'' @ '' (token, nham, nspam) VALUES'')"

definition introduce_tokens ::
  "'w mysql \<Rightarrow> (nat \<Rightarrow> bool) \<Rightarrow> nat \<Rightarrow> parser_state \<Rightarrow> config \<Rightarrow> 'w \<Rightarrow> (int \<times> parser_state \<times> 'w) option" where
  "introduce_tokens my malloc conn state cfg w =
     (if ps_n_token state \<le> 0 then Some (1, state, w)
      else case get_tokens my malloc state (-1) cfg w of
             None \<Rightarrow> None
           | Some (rc, st, w1) \<Rightarrow>
               let len = query_len (ps_n_token st) 28
               in if \<not> malloc len then Some (1, st, mysql_close my conn w1)
                  else
                    let qs = filter new_token (all_nodes (ps_token_hash st));
                        items = map (\<lambda>(n, q). new_token_item n (n_key q)) (zip [0..<length qs] qs)
                    in (case append_all len [] (introduce_head # items) of
                          None \<Rightarrow> None
                        | Some query \<Rightarrow> Some (0, st, snd (mysql_query my conn query w1))))"

definition train_stmt :: "string \<Rightarrow> string" where
  "train_stmt column = snprintf_s 511 (''UPDATE '' @ ''token'' @ '' t JOIN '' @ ''temp_token'' @
     '' tt ON t.token = tt.token SET '' @ column @ ''='' @ column @ ''+1, updated=NOW()'')"

definition misc_stmt :: "string \<Rightarrow> string" where
  "misc_stmt column = snprintf_s 511 (''UPDATE '' @ ''misc'' @ '' SET '' @ column @ ''='' @ column @ ''+1'')"

definition train_message ::
  "'w mysql \<Rightarrow> (nat \<Rightarrow> bool) \<Rightarrow> parser_state \<Rightarrow> string \<Rightarrow> config \<Rightarrow> 'w \<Rightarrow> (int \<times> 'w) option" where
  "train_message my malloc state column cfg w =
     (if ps_n_token state \<le> 0 then Some (0, w)
      else
        (case open_temp_table my cfg w of
           (None, w1) \<Rightarrow> Some (1, w1)
         | (Some conn, w1) \<Rightarrow>
             let len = query_len (ps_n_token state) 24
             in if \<not> malloc len then Some (1, mysql_close my conn w1)
                else
                  (case build_query len (insert_head #
                          map (\<lambda>q. key_item (n_key q)) (all_nodes (ps_token_hash state))) of
                     None \<Rightarrow> None
                   | Some query \<Rightarrow>
                       (case mysql_query my conn query w1 of (rc, w2) \<Rightarrow>
                          if rc \<noteq> 0 then Some (1, mysql_close my conn w2)
                          else
                            (case mysql_query my conn (train_stmt column) w2 of (r, w3) \<Rightarrow>
                               if r \<noteq> 0 then Some (1, mysql_close my conn w3)
                               else Some (0, mysql_close my conn (p_query my conn (misc_stmt column) w3)))))))"

text \<open>The rounds of the loop with counter \<open>i\<close> that are left, for the kind \<open>is_spam\<close>.\<close>

abbreviation MAX_ITERATIVE_TRAIN_LOOPS :: nat where
  "MAX_ITERATIVE_TRAIN_LOOPS \<equiv> 5"

fun train_loop ::
  "'w mysql \<Rightarrow> (nat \<Rightarrow> bool) \<Rightarrow> nat \<Rightarrow> bool \<Rightarrow> session_data \<Rightarrow> parser_state \<Rightarrow> nat \<Rightarrow> config \<Rightarrow> 'w \<Rightarrow>
   (session_data \<times> parser_state \<times> 'w) option" where
  "train_loop my malloc 0 is_spam sdata state conn cfg w = Some (sdata, state, w)"
| "train_loop my malloc (Suc rounds) is_spam sdata state conn cfg w =
     (let st0 = state\<lparr>ps_token_hash := resetcounters (ps_token_hash state)\<rparr>
      in case run_statistical_check my malloc sdata st0 conn cfg w of
           None \<Rightarrow> None
         | Some (p, sd, st, w1) \<Rightarrow>
             let sd1 = sd\<lparr>sd_spaminess := p\<rparr>
             in if (is_spam \<and> p > 0.99) \<or> (\<not> is_spam \<and> p < 0.1) then Some (sd1, st, w1)
                else (case train_message my malloc st (if is_spam then ''nspam'' else ''nham'') cfg w1 of
                        None \<Rightarrow> None
                      | Some (rc, w2) \<Rightarrow> train_loop my malloc rounds is_spam sd1 st conn cfg w2))"

definition training_kind :: "string \<Rightarrow> bool" where
  "training_kind rcpt \<longleftrightarrow> strcasestr rcpt ''+spam@'' \<noteq> None \<or> strncmp_eq rcpt ''spam@'' 5"

text \<open>The training of a message whose watermark is in the history.\<close>

definition train_known ::
  "'w mysql \<Rightarrow> (nat \<Rightarrow> bool) \<Rightarrow> bool \<Rightarrow> session_data \<Rightarrow> parser_state \<Rightarrow> nat \<Rightarrow> config \<Rightarrow> query \<Rightarrow> 'w \<Rightarrow>
   (session_data \<times> parser_state \<times> 'w) option" where
  "train_known my malloc is_spam sdata state conn cfg sql w =
     (case introduce_tokens my malloc conn state cfg w of
        None \<Rightarrow> None
      | Some (rc, st, w1) \<Rightarrow>
          (case train_loop my malloc MAX_ITERATIVE_TRAIN_LOOPS is_spam sdata st conn cfg w1 of
             None \<Rightarrow> None
           | Some (sd, st2, w2) \<Rightarrow> Some (sd, st2, close_prepared_statement my sql w2)))"

definition training_id_stmt :: string where
  "training_id_stmt = ''SELECT spam FROM history WHERE kospam_id=?''"

definition do_training ::
  "'w mysql \<Rightarrow> (nat \<Rightarrow> bool) \<Rightarrow> session_data \<Rightarrow> parser_state \<Rightarrow> nat \<Rightarrow> config \<Rightarrow> 'w \<Rightarrow>
   (session_data \<times> parser_state \<times> 'w) option" where
  "do_training my malloc sdata state conn cfg w =
     (let is_spam = training_kind (ps_envelope_recipient state)
      in if ps_kospam_watermark state = [] then Some (sdata, state, w)
         else case prepare_sql_statement my conn training_id_stmt w of
                (r, sql, w1) \<Rightarrow>
                if r = ERR then Some (sdata, state, w1)
                else
                  let sql1 = bind (SStr (ps_kospam_watermark state)) TYPE_STRING (p_bind_init sql)
                  in case p_exec_stmt my sql1 w1 of (r2, w2) \<Rightarrow>
                       if r2 = ERR then Some (sdata, state, close_prepared_statement my sql1 w2)
                       else
                         let sql2 = bind_len SNull TYPE_LONG 4 (p_bind_init sql1);
                             w3 = snd (p_store_results my sql2 w2)
                         in case p_fetch_results my sql2 w3 of ((r4, row), w4) \<Rightarrow>
                              if r4 = ERR then Some (sdata, state, w4)
                              else
                                let w5 = p_free_results my sql2 w4
                                in train_known my malloc is_spam sdata state conn cfg sql2 w5)"

section \<open>zombie.c\<close>

text \<open>\<open>data->pregs\<close> up to \<open>data->n_regex\<close> is the list of compiled expressions.\<close>

fun check_zombie_loop :: "('r \<Rightarrow> string \<Rightarrow> bool) \<Rightarrow> 'r list \<Rightarrow> parser_state \<Rightarrow> parser_state" where
  "check_zombie_loop regexec [] state = state"
| "check_zombie_loop regexec (r # rs) state =
     (if ps_tre state \<noteq> CHR ''+''
      then check_zombie_loop regexec rs
             (if regexec r (ps_hostname state) then state\<lparr>ps_tre := CHR ''+''\<rparr> else state)
      else state)"

definition check_zombie_sender :: "('r \<Rightarrow> string \<Rightarrow> bool) \<Rightarrow> 'r list \<Rightarrow> parser_state \<Rightarrow> parser_state" where
  "check_zombie_sender regexec pregs state = check_zombie_loop regexec pregs state"

section \<open>antispam.c\<close>

abbreviation (input) MESSAGE_OK :: int where "MESSAGE_OK \<equiv> 0"
abbreviation (input) MESSAGE_DISCARD :: int where "MESSAGE_DISCARD \<equiv> 1"

definition watermark_line :: "session_data \<Rightarrow> string" where
  "watermark_line sdata = snprintf_s 8191 (''X-Kospam-Watermark: '' @ sd_ttmpfile sdata @ [CR, LF])"

definition spaminess_lines :: "session_data \<Rightarrow> config \<Rightarrow> string" where
  "spaminess_lines sdata cfg =
     snprintf_s 511
       (if sd_spaminess sdata \<ge> cfg_spam_overall_limit cfg
        then sd_spaminessbuf sdata @ cfg_kospam_header_field cfg @ show_fixed4 (sd_spaminess sdata) @ [CR, LF] @
             cfg_kospam_spam_header_field cfg
        else sd_spaminessbuf sdata @ cfg_kospam_header_field cfg @ show_fixed4 (sd_spaminess sdata) @ [CR, LF])"

text \<open>From the statistical check to the end of \<open>check_spam\<close>.\<close>

definition check_spam_content ::
  "'w mysql \<Rightarrow> (nat \<Rightarrow> bool) \<Rightarrow> session_data \<Rightarrow> nat \<Rightarrow> parser_state \<Rightarrow> config \<Rightarrow> 'w \<Rightarrow>
   (session_data \<times> parser_state \<times> 'w) option" where
  "check_spam_content my malloc sdata conn state cfg w = do {
     (sd, st, w1) \<leftarrow>
       (if cfg_max_message_size_to_filter cfg = 0 \<or> sd_tot_len sdata < cfg_max_message_size_to_filter cfg
        then do {
          (p, sd1, st1, w1) \<leftarrow> run_statistical_check my malloc sdata state conn cfg w;
          let sd2 = sd1\<lparr>sd_spaminess := p\<rparr>;
          w2 \<leftarrow> (if sd_blackhole sd2 = 1 \<and> sd_spaminess sd2 < 0.99
                 then map_option snd (train_message my malloc st1 ''nspam'' cfg w1) else Some w1);
          Some (sd2\<lparr>sd_spaminessbuf := snprintf_s 8191 (spaminess_lines sd2 cfg)\<rparr>, st1, w2)
        }
        else Some (sdata, state, w));
     w3 \<leftarrow> (if cfg_update_tokens cfg = 1 \<and> ps_n_token st > 3
            then map_option snd (update_token_dates my malloc st cfg w1) else Some w1);
     Some (sd\<lparr>sd_spaminessbuf := rstrip_newlines (sd_spaminessbuf sd)\<rparr>, st, w3)
   }"

definition check_spam ::
  "'w mysql \<Rightarrow> (nat \<Rightarrow> bool) \<Rightarrow> ('r \<Rightarrow> string \<Rightarrow> bool) \<Rightarrow> session_data \<Rightarrow> nat \<Rightarrow> parser_state \<Rightarrow> 'r list \<Rightarrow> config \<Rightarrow> 'w \<Rightarrow>
   (int \<times> session_data \<times> parser_state \<times> 'w) option" where
  "check_spam my malloc regexec sdata conn state pregs cfg w =
     (let sd = sdata\<lparr>sd_spaminess := DEFAULT_SPAMICITY, sd_spaminessbuf := watermark_line sdata\<rparr>
      in if ps_training_request state = 1
         then (case do_training my malloc sd state conn cfg w of
                 None \<Rightarrow> None | Some (sd1, st, w1) \<Rightarrow> Some (MESSAGE_DISCARD, sd1, st, w1))
         else if sd_mynetwork sd = 1 then Some (MESSAGE_OK, sd, state, w)
         else
           let (white, w1) = check_email_against_list my conn ''whitelist'' (ps_envelope_from state) w
           in if white \<noteq> 0 then Some (MESSAGE_OK, sd\<lparr>sd_spaminess := 0.01\<rparr>, state, w1)
              else
                let (black, w2) = check_email_against_list my conn ''blacklist'' (ps_envelope_from state) w1
                in if black \<noteq> 0 then Some (MESSAGE_OK, sd\<lparr>sd_spaminess := 0.99\<rparr>, state, w2)
                   else
                     let (trapped, w3) = is_sender_on_minefield my conn (ps_ip state) w2;
                         sd1 = sd\<lparr>sd_trapped_client := (if trapped then 1 else 0)\<rparr>;
                         st1 = (if pregs \<noteq> [] then check_zombie_sender regexec pregs state else state);
                         zombie = (pregs \<noteq> [] \<and> ps_tre st1 = CHR ''+'' \<and> cfg_message_from_a_zombie cfg > 0);
                         sd2 = (if zombie then sd1\<lparr>sd_spaminess := 0.99\<rparr> else sd1)
                     in if zombie \<and> cfg_message_from_a_zombie cfg = 1 then Some (MESSAGE_OK, sd2, st1, w3)
                        else if zombie \<and> cfg_message_from_a_zombie cfg = 2 then Some (MESSAGE_DISCARD, sd2, st1, w3)
                        else if ps_need_signo_check st1 \<and> ps_found_our_signo st1 then Some (MESSAGE_OK, sd2, st1, w3)
                        else (case check_spam_content my malloc sd2 conn st1 cfg w3 of
                                None \<Rightarrow> None | Some (sd3, st2, w4) \<Rightarrow> Some (MESSAGE_OK, sd3, st2, w4)))"

section \<open>The blocks of the queries are large enough\<close>

text \<open>
  \<open>room K st\<close>: all keys of the table are in \<open>K\<close>, and \<open>n_token\<close> counts at least the keys of \<open>K\<close>.
  Every operation of the engine keeps it, when \<open>K\<close> contains the keys of the penalty tokens.
\<close>

definition room :: "64 word set \<Rightarrow> parser_state \<Rightarrow> bool" where
  "room K st \<longleftrightarrow> finite K \<and> int (card K) \<le> ps_n_token st \<and> ps_n_token st \<le> MAX_NEW_TOKENS \<and>
     wf_tab (ps_token_hash st) \<and> n_key ` set (all_nodes (ps_token_hash st)) \<subseteq> K"

lemma room_length: "room K st \<Longrightarrow> int (length (filter P (all_nodes (ps_token_hash st)))) \<le> ps_n_token st"
proof -
  assume r: "room K st"
  have "length (filter P (all_nodes (ps_token_hash st))) \<le> length (map n_key (all_nodes (ps_token_hash st)))"
    by simp
  also have "\<dots> = card (n_key ` set (all_nodes (ps_token_hash st)))"
    using r distinct_card [OF distinct_all_nodes, of "ps_token_hash st"] by (simp add: room_def)
  also have "\<dots> \<le> card K" using r by (auto simp: room_def intro: card_mono)
  finally show ?thesis using r by (simp add: room_def)
qed

lemma room_nonneg: "room K st \<Longrightarrow> 0 \<le> ps_n_token st \<and> ps_n_token st \<le> MAX_NEW_TOKENS"
  by (auto simp: room_def)

lemma room_update:
  "room K st \<Longrightarrow> wf_tab h \<Longrightarrow> n_key ` set (all_nodes h) \<subseteq> K \<Longrightarrow> room K (st\<lparr>ps_token_hash := h\<rparr>)"
  by (simp add: room_def)

lemma room_cong: "room K st \<Longrightarrow> ps_token_hash st' = ps_token_hash st \<Longrightarrow> ps_n_token st' = ps_n_token st \<Longrightarrow> room K st'"
  by (simp add: room_def)

lemma room_addnode:
  assumes "room K st" and "xxh3_64 s \<in> K"
  shows "room K (st\<lparr>ps_token_hash := addnode (ps_token_hash st) s p d\<rparr>)"
proof (rule room_update [OF assms(1)])
  show "wf_tab (addnode (ps_token_hash st) s p d)" using assms(1) by (auto simp: room_def)
  have "set (all_nodes (addnode (ps_token_hash st) s p d)) \<subseteq>
      insert (new_node s (p, d)) (set (all_nodes (ps_token_hash st)))"
    using arg_cong [OF mset_addnode, of set_mset "ps_token_hash st" s p d] by (auto split: if_splits)
  then show "n_key ` set (all_nodes (addnode (ps_token_hash st) s p d)) \<subseteq> K"
    using assms by (fastforce simp: room_def subset_iff)
qed

lemma room_map_nodes:
  "room K st \<Longrightarrow> (\<And>q. n_key (f q) = n_key q) \<Longrightarrow> (\<And>q. n_str (f q) = n_str q) \<Longrightarrow>
   room K (st\<lparr>ps_token_hash := map_nodes f (ps_token_hash st)\<rparr>)"
  by (auto simp: room_def set_map_nodes intro!: wf_map_nodes)

lemma keys_use_rows:
  "wf_tab h \<Longrightarrow> wf_tab (fold use_row rows h) \<and> n_key ` set (all_nodes (fold use_row rows h)) = n_key ` set (all_nodes h)"
proof (induction rows arbitrary: h)
  case (Cons row rows)
  have "map n_key (use_row row h i) = map n_key (h i)" for i
    by (simp add: use_row_def updatenode_def Let_def case_prod_beta chain_update_keys)
  then have "n_key ` set (use_row row h i) = n_key ` set (h i)" for i by (metis set_map)
  then have "n_key ` set (all_nodes (use_row row h)) = n_key ` set (all_nodes h)"
    by (simp add: set_all_nodes image_UN)
  moreover have "wf_tab (use_row row h)" using Cons.prems by (auto simp: use_row_def)
  ultimately show ?case using Cons.IH [of "use_row row h"] by simp
qed simp

lemma get_tokens_room:
  assumes "room K st"
  shows "\<exists>r st' w'. get_tokens my malloc st type cfg w = Some (r, st', w') \<and> room K st'"
proof -
  have "get_tokens my malloc st type cfg w \<noteq> None"
    using room_length [OF assms, of "type_matches type"] room_nonneg [OF assms]
      length_key_items [of "\<lambda>q. xxh3_64 (n_str q)" "selected st type"]
    by (auto simp: get_tokens_None_iff query_len_keys)
  then obtain r st' w' where g: "get_tokens my malloc st type cfg w = Some (r, st', w')" by auto
  obtain rows where "st' = st\<lparr>ps_token_hash := fold use_row rows (ps_token_hash st)\<rparr>"
    by (rule get_tokens_state [OF g])
  moreover have "room K (st\<lparr>ps_token_hash := fold use_row rows (ps_token_hash st)\<rparr>)"
    using assms keys_use_rows [of "ps_token_hash st" rows] by (intro room_update) (auto simp: room_def)
  ultimately show ?thesis using g by blast
qed

lemma qry_spaminess_room:
  assumes "room K st"
  shows "\<exists>st' w'. qry_spaminess my malloc sd st type cfg w = Some (st', w') \<and> room K st'"
proof -
  obtain r st1 w1 where g: "get_tokens my malloc st type cfg w = Some (r, st1, w1)" and "room K st1"
    using get_tokens_room [OF assms, of my malloc type cfg w] by blast
  then have "room K (st1\<lparr>ps_token_hash := map_nodes (qry_token sd cfg) (ps_token_hash st1)\<rparr>)"
    by (intro room_map_nodes) simp_all
  with g show ?thesis by (simp add: qry_spaminess_def)
qed

definition penalty_names :: "string list" where
  "penalty_names = [''EMBED*'', ''OCTET_STREAM*'', ''IMAGE*'', ''NO_SUBJECT*'', ''TRAPPED_CLIENT*'', ''ZOMBIE*'']"

definition penalty_keys :: "64 word set" where
  "penalty_keys = set (map xxh3_64 penalty_names)"

lemma penalty_keysI: "penalty_keys \<subseteq> K \<Longrightarrow> s \<in> set penalty_names \<Longrightarrow> xxh3_64 s \<in> K"
  by (auto simp: penalty_keys_def)

lemma card_penalty_keys: "card penalty_keys \<le> 6"
  unfolding penalty_keys_def using card_length [of "map xxh3_64 penalty_names"] by (simp add: penalty_names_def)

lemma room_penalty_if:
  "room K st \<Longrightarrow> xxh3_64 s \<in> K \<Longrightarrow> room K (if b then add_penalty s st else st)"
  by (simp add: room_addnode)

lemma add_penalties_room:
  assumes "room K st" and "penalty_keys \<subseteq> K"
  shows "room K (add_penalties sd st cfg)"
  unfolding add_penalties_def Let_def
  by (intro room_penalty_if assms(1) penalty_keysI [OF assms(2)]) (simp_all add: penalty_names_def)

lemma evaluate_tokens_room:
  assumes "room K st" and "penalty_keys \<subseteq> K"
  shows "\<exists>p st' w'. evaluate_tokens my malloc sd st cfg w = Some (p, st', w') \<and> room K st'"
proof -
  define st0 where "st0 = (if cfg_penalize_embed_images cfg = 1 \<and> findnode (ps_token_hash st) ''src+cid'' \<noteq> None
      then add_penalty ''EMBED*'' st else st)"
  have r0: "room K st0" unfolding st0_def
    by (intro room_penalty_if assms(1) penalty_keysI [OF assms(2)]) (simp add: penalty_names_def)
  obtain st1 w1 where q1: "qry_spaminess my malloc sd st0 1 cfg w = Some (st1, w1)" and r1: "room K st1"
    using qry_spaminess_room [OF r0, of my malloc sd 1 cfg w] by blast
  define st2 where "st2 = add_penalties sd st1 cfg"
  define st3 where "st3 = st2\<lparr>ps_n_deviating_token := int (snd (get_spam_probability (ps_token_hash st2) cfg))\<rparr>"
  have "room K st2" unfolding st2_def by (rule add_penalties_room [OF r1 assms(2)])
  then have r3: "room K st3" by (rule room_cong) (simp_all add: st3_def)
  have tr: "ps_training_request st3 = ps_training_request st2" by (simp add: st3_def)
  obtain st4 w2 where q4: "qry_spaminess my malloc sd st3 0 cfg w1 = Some (st4, w2)" and r4: "room K st4"
    using qry_spaminess_room [OF r3, of my malloc sd 0 cfg w1] by blast
  have "evaluate_tokens my malloc sd st cfg w =
      (let p1 = fst (get_spam_probability (ps_token_hash st2) cfg)
       in if ps_training_request st3 = 1 then Some (p1, st3, w1)
       else if decided cfg p1 then Some (end_of_evaluation p1, st3, w1)
       else let p2 = fst (get_spam_probability (ps_token_hash st4) cfg) in Some (end_of_evaluation p2, st4, w2))"
    unfolding evaluate_tokens_def Let_def st0_def [symmetric] q1 bind.bind_lunit case_prod_conv st2_def [symmetric]
    using tr by (simp add: case_prod_beta st3_def [symmetric] q4)
  with r3 r4 show ?thesis by (auto simp: Let_def)
qed

lemma run_statistical_check_room:
  assumes "room K st" and "penalty_keys \<subseteq> K"
  shows "case run_statistical_check my malloc sd st conn cfg w of None \<Rightarrow> False | Some (p, sd', st', w') \<Rightarrow> room K st'"
proof -
  have q: "\<exists>st' w'. qry_spaminess my malloc sd st 1 cfg w = Some (st', w') \<and> room K st'" for sd w
    by (rule qry_spaminess_room [OF assms(1)])
  have e: "\<exists>p st' w'. evaluate_tokens my malloc sd st cfg w = Some (p, st', w') \<and> room K st'" for sd w
    by (rule evaluate_tokens_room [OF assms])
  obtain te w1 where te: "get_ham_spam_counters my conn counters_stmt w = (te, w1)" by (metis surj_pair)
  define sd1 where "sd1 = sd\<lparr>sd_nham := real (unat (te_nham te)), sd_nspam := real (unat (te_nspam te))\<rparr>"
  obtain b w2 where b: "(if ps_training_request st = 0
        then let (te2, w2) = get_ham_spam_counters my conn (from_stmt (ps_from st)) w1
             in (real (unat (te_nham te2)) \<ge> 10 \<and> real (unat (te_nspam te2)) = 0, w2)
        else (False, w1)) = (b, w2)" by (rule prod.exhaust)
  have "run_statistical_check my malloc sd st conn cfg w =
        (if sd_nham sd1 + sd_nspam sd1 = 0 then Some (DEFAULT_SPAMICITY, sd1, st, w1)
         else if b then (case qry_spaminess my malloc sd1 st 1 cfg w2 of None \<Rightarrow> None
           | Some (st, w3) \<Rightarrow> Some (REAL_HAM_TOKEN_PROBABILITY, sd1\<lparr>sd_statistically_whitelisted := 1\<rparr>, st, w3))
         else (case evaluate_tokens my malloc sd1 st cfg w2 of None \<Rightarrow> None
           | Some (p, st, w3) \<Rightarrow> Some (p, sd1, st, w3)))"
    by (simp only: run_statistical_check_def te sd1_def [symmetric] Let_def case_prod_conv b [unfolded Let_def])
  then show ?thesis using assms(1) q [of sd1 w2] e [of sd1 w2] by auto
qed

lemma length_new_token_item: "length (new_token_item n k) \<le> 27"
proof -
  have "unat k < 2 ^ 64" using unsigned_less [of k] by simp
  then have "unat k < 10 ^ 20" by simp
  then have "length (show_nat (unat k)) \<le> 20" by (rule length_show_nat) simp
  then show ?thesis by (simp add: new_token_item_def snprintf_s_def)
qed

lemma length_new_token_items:
  "length (concat (map (\<lambda>(n, q). new_token_item n (n_key q)) nqs)) \<le> 27 * length nqs"
proof (induction nqs)
  case (Cons nq nqs)
  then show ?case using length_new_token_item [of "fst nq" "n_key (snd nq)"] by (simp add: case_prod_beta)
qed simp

lemma length_introduce_head: "length introduce_head = 45"
  by (simp add: introduce_head_def snprintf_s_def)

lemma introduce_tokens_room:
  assumes "room K st"
  shows "case introduce_tokens my malloc conn st cfg w of None \<Rightarrow> False | Some (r, st', w') \<Rightarrow> room K st'"
proof -
  obtain r st1 w1 where g: "get_tokens my malloc st (-1) cfg w = Some (r, st1, w1)" and r: "room K st1"
    using get_tokens_room [OF assms, of my malloc "-1" cfg w] by blast
  let ?qs = "filter new_token (all_nodes (ps_token_hash st1))"
  have "append_all (query_len (ps_n_token st1) 28) []
      (introduce_head # map (\<lambda>(n, q). new_token_item n (n_key q)) (zip [0..<length ?qs] ?qs)) =
      Some (introduce_head @ concat (map (\<lambda>(n, q). new_token_item n (n_key q)) (zip [0..<length ?qs] ?qs)))"
    using length_new_token_items [of "zip [0..<length ?qs] ?qs"] room_length [OF r, of new_token] room_nonneg [OF r]
    by (simp add: append_all_eq query_len_new_tokens length_introduce_head)
  then show ?thesis using g r assms
    by (simp add: introduce_tokens_def Let_def del: append_all.simps)
qed

lemma train_message_room:
  assumes "room K st"
  shows "train_message my malloc st column cfg w \<noteq> None"
proof -
  have "build_query (query_len (ps_n_token st) 24)
      (insert_head # map (\<lambda>q. key_item (n_key q)) (all_nodes (ps_token_hash st))) \<noteq> None"
    using length_key_items [of n_key "all_nodes (ps_token_hash st)"] room_length [OF assms, of "\<lambda>q. True"]
      room_nonneg [OF assms]
    by (simp add: build_query_eq query_len_keys)
  then show ?thesis by (auto simp: train_message_def Let_def split: option.split prod.split)
qed

lemma room_resetcounters: "room K st \<Longrightarrow> room K (st\<lparr>ps_token_hash := resetcounters (ps_token_hash st)\<rparr>)"
  unfolding resetcounters_def by (rule room_map_nodes) simp_all

lemma train_loop_room:
  assumes "penalty_keys \<subseteq> K" and "room K st"
  shows "case train_loop my malloc rounds is_spam sd st conn cfg w of None \<Rightarrow> False | Some (sd', st', w') \<Rightarrow> room K st'"
  using assms(2)
proof (induction rounds arbitrary: sd st w)
  case (Suc rounds)
  let ?st0 = "st\<lparr>ps_token_hash := resetcounters (ps_token_hash st)\<rparr>"
  obtain p sd1 st1 w1 where r: "run_statistical_check my malloc sd ?st0 conn cfg w = Some (p, sd1, st1, w1)" "room K st1"
    using run_statistical_check_room [OF room_resetcounters [OF Suc.prems] assms(1), of my malloc sd conn cfg w]
    by (auto split: option.splits)
  obtain rc w2 where t: "train_message my malloc st1 (if is_spam then ''nspam'' else ''nham'') cfg w1 = Some (rc, w2)"
    using train_message_room [OF r(2)] by (metis not_None_eq surj_pair)
  show ?case using Suc.IH [OF r(2), of "sd1\<lparr>sd_spaminess := p\<rparr>" w2] r t by (simp add: Let_def)
qed simp

lemma train_known_room:
  assumes "penalty_keys \<subseteq> K" and "room K st"
  shows "case train_known my malloc b sd st conn cfg sql w of None \<Rightarrow> False | Some (sd', st', w') \<Rightarrow> room K st'"
proof -
  obtain rc st' w1 where i: "introduce_tokens my malloc conn st cfg w = Some (rc, st', w1)" "room K st'"
    using introduce_tokens_room [OF assms(2), of my malloc conn cfg w] by (auto split: option.splits)
  show ?thesis
    using train_loop_room [OF assms(1) i(2), of my malloc 5 b sd conn cfg w1]
    by (simp add: train_known_def i(1) split: option.splits prod.splits)
qed

lemma do_training_cases:
  "(\<exists>w'. do_training my malloc sd st conn cfg w = Some (sd, st, w')) \<or>
   (\<exists>b sql w'. do_training my malloc sd st conn cfg w = train_known my malloc b sd st conn cfg sql w')"
  unfolding do_training_def Let_def by (auto split: prod.split)

lemma do_training_room:
  assumes "penalty_keys \<subseteq> K" and "room K st"
  shows "case do_training my malloc sd st conn cfg w of None \<Rightarrow> False | Some (sd', st', w') \<Rightarrow> room K st'"
proof (cases "\<exists>w'. do_training my malloc sd st conn cfg w = Some (sd, st, w')")
  case True
  then show ?thesis using assms(2) by auto
next
  case False
  then obtain b sql w' where "do_training my malloc sd st conn cfg w = train_known my malloc b sd st conn cfg sql w'"
    using do_training_cases [of my malloc sd st conn cfg w] by blast
  then show ?thesis using train_known_room [OF assms, of my malloc b sd conn cfg sql w'] by simp
qed

lemma check_spam_content_room:
  assumes "penalty_keys \<subseteq> K" and "room K st"
  shows "check_spam_content my malloc sd conn st cfg w \<noteq> None"
proof -
  obtain p sd1 st1 w1 where r: "run_statistical_check my malloc sd st conn cfg w = Some (p, sd1, st1, w1)" "room K st1"
    using run_statistical_check_room [OF assms(2,1), of my malloc sd conn cfg w] by (auto split: option.splits)
  obtain rc w2 where t: "train_message my malloc st1 ''nspam'' cfg w1 = Some (rc, w2)"
    using train_message_room [OF r(2)] by (metis not_None_eq surj_pair)
  have u: "update_token_dates my malloc st' cfg w' \<noteq> None" if "room K st'" for st' w'
    using room_length [OF that, of known_token] room_nonneg [OF that]
    by (intro update_token_dates_total) (simp add: count_known)
  show ?thesis
    using t u [OF r(2)] u [OF assms(2)] by (simp add: check_spam_content_def r(1) Let_def bind_eq_None_conv
        case_prod_beta del: not_None_eq)
qed

lemma check_zombie_sender_eq:
  "check_zombie_sender regexec rs st =
     (if \<exists>r\<in>set rs. regexec r (ps_hostname st) then st\<lparr>ps_tre := CHR ''+''\<rparr> else st)"
  unfolding check_zombie_sender_def
proof (induction rs arbitrary: st)
  case (Cons r rs)
  have found: "check_zombie_loop regexec rs st' = st'" if "ps_tre st' = CHR ''+''" for st'
    using that by (cases rs) simp_all
  show ?case
  proof (cases "ps_tre st = CHR ''+''")
    case True
    then have "st\<lparr>ps_tre := CHR ''+''\<rparr> = st" by (cases st) simp
    with True show ?thesis by simp
  next
    case False
    then show ?thesis using Cons.IH [of st] found [of "st\<lparr>ps_tre := CHR ''+''\<rparr>"] by simp
  qed
qed simp

lemma room_zombie: "room K st \<Longrightarrow> room K (check_zombie_sender regexec rs st)"
  by (simp add: check_zombie_sender_eq room_def)

text \<open>
  C5: when \<open>n_token\<close> counts all tokens of the table, with six to spare for the penalty tokens the
  engine adds itself, and the sizes of the queries are still an \<open>int\<close>, no path through \<open>check_spam\<close>, training included, writes behind the block of
  a query, whatever the database and the allocator do.
\<close>

theorem check_spam_in_bounds:
  assumes "wf_tab (ps_token_hash st)" and "int (length (all_nodes (ps_token_hash st))) + 6 \<le> ps_n_token st"
    and "ps_n_token st \<le> MAX_NEW_TOKENS"
  shows "check_spam my malloc regexec sd conn st pregs cfg w \<noteq> None"
proof -
  let ?K = "n_key ` set (all_nodes (ps_token_hash st)) \<union> penalty_keys"
  have "card (n_key ` set (all_nodes (ps_token_hash st))) \<le> length (all_nodes (ps_token_hash st))"
    by (metis card_length image_set length_map)
  then have "card ?K \<le> length (all_nodes (ps_token_hash st)) + 6"
    using card_Un_le [of "n_key ` set (all_nodes (ps_token_hash st))" penalty_keys] card_penalty_keys by linarith
  then have r: "room ?K st" using assms by (auto simp: room_def penalty_keys_def)
  have K: "penalty_keys \<subseteq> ?K" by blast
  note rz = room_zombie [OF r, of regexec pregs]
  have tr: "do_training my malloc sd' st conn cfg w' \<noteq> None" for sd' w'
    using do_training_room [OF K r, of my malloc sd' conn cfg w'] by (auto split: option.splits)
  obtain white w1 where w: "check_email_against_list my conn ''whitelist'' (ps_envelope_from st) w = (white, w1)"
    by (rule prod.exhaust)
  obtain black w2 where b: "check_email_against_list my conn ''blacklist'' (ps_envelope_from st) w1 = (black, w2)"
    by (rule prod.exhaust)
  obtain t w3 where m: "is_sender_on_minefield my conn (ps_ip st) w2 = (t, w3)"
    by (rule prod.exhaust)
  define st1 where "st1 = (if pregs \<noteq> [] then check_zombie_sender regexec pregs st else st)"
  have c: "check_spam_content my malloc sd' conn st1 cfg w' \<noteq> None" for sd' w'
    by (cases "pregs = []")
      (simp_all only: st1_def simp_thms if_True if_False check_spam_content_room [OF K r] check_spam_content_room [OF K rz])
  show ?thesis
    unfolding check_spam_def Let_def w b m case_prod_conv st1_def [symmetric]
    by (simp add: option.case_eq_if tr c case_prod_beta del: not_None_eq)
qed

text \<open>Twenty counted tokens and one node leave room for the penalties.\<close>

theorem check_spam_in_bounds_witness:
  "check_spam demo_server (\<lambda>n. True) (\<lambda>(r :: string) h. r = h) init_session_data 0
     (offer_state\<lparr>ps_n_token := 20\<rparr>) [''dsl.example.com''] (default_config []) (demo_world (\<lambda>k. None)) \<noteq> None"
proof (rule check_spam_in_bounds)
  have h: "ps_token_hash (offer_state\<lparr>ps_n_token := 20\<rparr>) = ps_token_hash offer_state" by simp
  show "wf_tab (ps_token_hash (offer_state\<lparr>ps_n_token := 20\<rparr>))" unfolding h by (rule wf_offer)
  show "int (length (all_nodes (ps_token_hash (offer_state\<lparr>ps_n_token := 20\<rparr>)))) + 6 \<le>
      ps_n_token (offer_state\<lparr>ps_n_token := 20\<rparr>)"
    unfolding h all_nodes_offer by simp
qed simp

section \<open>The decision\<close>

lemma check_spam_content_session:
  assumes "check_spam_content my malloc sd conn st cfg w = Some (sd', st', w')"
    and "good_tab (ps_token_hash st)" and "0 \<le> cfg_esf_h cfg" and "0 \<le> cfg_esf_s cfg"
    and "0 \<le> sd_spaminess sd" and "sd_spaminess sd \<le> 1"
  shows "0 \<le> sd_spaminess sd' \<and> sd_spaminess sd' \<le> 1"
proof (cases "cfg_max_message_size_to_filter cfg = 0 \<or> sd_tot_len sd < cfg_max_message_size_to_filter cfg")
  case True
  then obtain p sd1 st1 w1 where r: "run_statistical_check my malloc sd st conn cfg w = Some (p, sd1, st1, w1)"
    and "sd_spaminess sd' = p"
    using assms(1) by (auto simp: check_spam_content_def Let_def bind_eq_Some_conv)
  with run_statistical_check_prob [OF r assms(2-4)] show ?thesis by simp
next
  case False
  then show ?thesis using assms(1,5,6) by (auto simp: check_spam_content_def bind_eq_Some_conv)
qed

text \<open>The host name of the client is that of a zombie.\<close>

definition is_zombie :: "('r \<Rightarrow> string \<Rightarrow> bool) \<Rightarrow> 'r list \<Rightarrow> parser_state \<Rightarrow> bool" where
  "is_zombie regexec pregs st \<longleftrightarrow> pregs \<noteq> [] \<and> (ps_tre st = CHR ''+'' \<or> (\<exists>r\<in>set pregs. regexec r (ps_hostname st)))"

text \<open>The session and the state after the checks of the client, with \<open>t\<close> the answer of the minefield.\<close>

definition checked_state :: "('r \<Rightarrow> string \<Rightarrow> bool) \<Rightarrow> 'r list \<Rightarrow> parser_state \<Rightarrow> parser_state" where
  "checked_state regexec pregs st = (if is_zombie regexec pregs st then st\<lparr>ps_tre := CHR ''+''\<rparr> else st)"

definition checked_session :: "session_data \<Rightarrow> bool \<Rightarrow> bool \<Rightarrow> session_data" where
  "checked_session sd t z = sd\<lparr>sd_spaminessbuf := watermark_line sd, sd_trapped_client := (if t then 1 else 0),
     sd_spaminess := (if z then 0.99 else 0.5)\<rparr>"

text \<open>The ways through \<open>check_spam\<close> for a message that does not ask for training.\<close>

lemma check_spam_cases:
  assumes "check_spam my malloc regexec sd conn st pregs cfg w = Some (code, sd', st', w')" "ps_training_request st \<noteq> 1"
    and "check_email_against_list my conn ''whitelist'' (ps_envelope_from st) w = (white, w1)"
    and "check_email_against_list my conn ''blacklist'' (ps_envelope_from st) w1 = (black, w2)"
    and "is_sender_on_minefield my conn (ps_ip st) w2 = (t, w3)"
  defines "S0 \<equiv> sd\<lparr>sd_spaminess := DEFAULT_SPAMICITY, sd_spaminessbuf := watermark_line sd\<rparr>"
    and "z \<equiv> is_zombie regexec pregs st \<and> cfg_message_from_a_zombie cfg > 0"
    and "st1 \<equiv> checked_state regexec pregs st"
  obtains (mynetwork) "sd_mynetwork sd = 1" "code = MESSAGE_OK" "sd' = S0" "st' = st" "w' = w"
  | (white) "sd_mynetwork sd \<noteq> 1" "white \<noteq> 0" "code = MESSAGE_OK" "sd' = S0\<lparr>sd_spaminess := 0.01\<rparr>" "st' = st" "w' = w1"
  | (black) "sd_mynetwork sd \<noteq> 1" "white = 0" "black \<noteq> 0" "code = MESSAGE_OK" "sd' = S0\<lparr>sd_spaminess := 0.99\<rparr>"
      "st' = st" "w' = w2"
  | (zombie) "sd_mynetwork sd \<noteq> 1" "white = 0" "black = 0" "z" "cfg_message_from_a_zombie cfg \<in> {1, 2}"
      "code = (if cfg_message_from_a_zombie cfg = 2 then MESSAGE_DISCARD else MESSAGE_OK)"
      "sd' = checked_session sd t z" "st' = st1" "w' = w3"
  | (bounce) "sd_mynetwork sd \<noteq> 1" "white = 0" "black = 0" "\<not> (z \<and> cfg_message_from_a_zombie cfg \<in> {1, 2})"
      "ps_need_signo_check st \<and> ps_found_our_signo st" "code = MESSAGE_OK" "sd' = checked_session sd t z" "st' = st1" "w' = w3"
  | (content) "sd_mynetwork sd \<noteq> 1" "white = 0" "black = 0" "\<not> (z \<and> cfg_message_from_a_zombie cfg \<in> {1, 2})"
      "\<not> (ps_need_signo_check st \<and> ps_found_our_signo st)" "code = MESSAGE_OK"
      "check_spam_content my malloc (checked_session sd t z) conn st1 cfg w3 = Some (sd', st', w')"
proof -
  have st1: "(if pregs \<noteq> [] then check_zombie_sender regexec pregs st else st) = st1"
    by (cases st) (auto simp: st1_def checked_state_def is_zombie_def check_zombie_sender_eq)
  have z: "(pregs \<noteq> [] \<and> ps_tre st1 = CHR ''+'' \<and> cfg_message_from_a_zombie cfg > 0) = z"
    by (auto simp: z_def st1_def checked_state_def is_zombie_def)
  have S2: "(if z then S0\<lparr>sd_trapped_client := (if t then 1 else 0)\<rparr>\<lparr>sd_spaminess := 0.99\<rparr>
      else S0\<lparr>sd_trapped_client := (if t then 1 else 0)\<rparr>) = checked_session sd t z"
    by (simp add: S0_def checked_session_def)
  have keep: "sd_mynetwork S0 = sd_mynetwork sd" "ps_need_signo_check st1 = ps_need_signo_check st"
    "ps_found_our_signo st1 = ps_found_our_signo st" by (simp_all add: S0_def st1_def checked_state_def)
  let ?a = "z \<and> cfg_message_from_a_zombie cfg = 1" and ?b = "z \<and> cfg_message_from_a_zombie cfg = 2"
  let ?s = "ps_need_signo_check st \<and> ps_found_our_signo st"
  have run: "Some (code, sd', st', w') =
      (if sd_mynetwork sd = 1 then Some (MESSAGE_OK, S0, st, w)
       else if white \<noteq> 0 then Some (MESSAGE_OK, S0\<lparr>sd_spaminess := 0.01\<rparr>, st, w1)
       else if black \<noteq> 0 then Some (MESSAGE_OK, S0\<lparr>sd_spaminess := 0.99\<rparr>, st, w2)
       else if ?a then Some (MESSAGE_OK, checked_session sd t z, st1, w3)
       else if ?b then Some (MESSAGE_DISCARD, checked_session sd t z, st1, w3)
       else if ?s then Some (MESSAGE_OK, checked_session sd t z, st1, w3)
       else (case check_spam_content my malloc (checked_session sd t z) conn st1 cfg w3 of
               None \<Rightarrow> None | Some (sd3, st2, w4) \<Rightarrow> Some (MESSAGE_OK, sd3, st2, w4)))"
    unfolding assms(1) [symmetric] check_spam_def Let_def assms(3-5) case_prod_conv S0_def [symmetric] st1 z S2
    using assms(2) keep by simp
  consider "sd_mynetwork sd = 1" | "sd_mynetwork sd \<noteq> 1" "white \<noteq> 0" | "sd_mynetwork sd \<noteq> 1" "white = 0" "black \<noteq> 0"
    | (a) "sd_mynetwork sd \<noteq> 1" "white = 0" "black = 0" "?a \<or> ?b"
    | (s) "sd_mynetwork sd \<noteq> 1" "white = 0" "black = 0" "\<not> ?a" "\<not> ?b" "?s"
    | (c) "sd_mynetwork sd \<noteq> 1" "white = 0" "black = 0" "\<not> ?a" "\<not> ?b" "\<not> ?s"
    by blast
  then show ?thesis
  proof cases
    case 1 then show ?thesis using run by (intro mynetwork) simp_all
  next
    case 2 then show ?thesis using run by (intro white) simp_all
  next
    case 3 then show ?thesis using run by (intro black) simp_all
  next
    case a then show ?thesis using run by (intro zombie) (auto split: if_splits)
  next
    case s then show ?thesis using run by (intro bounce) (auto split: if_splits)
  next
    case c
    then have "check_spam_content my malloc (checked_session sd t z) conn st1 cfg w3 = Some (sd', st', w')" "code = MESSAGE_OK"
      using run by (auto split: if_splits option.splits)
    then show ?thesis using c by (intro content) auto
  qed
qed

text \<open>What the check of the contents decides, from the session and the state it starts in.\<close>

lemma check_spam_content_score:
  assumes "check_spam_content my malloc sd conn st cfg w = Some (sd', st', w')"
  shows "if cfg_max_message_size_to_filter cfg = 0 \<or> sd_tot_len sd < cfg_max_message_size_to_filter cfg
     then \<exists>p sd1 st1 w1. run_statistical_check my malloc sd st conn cfg w = Some (p, sd1, st1, w1) \<and> st' = st1 \<and>
       sd' = sd1\<lparr>sd_spaminess := p,
         sd_spaminessbuf := rstrip_newlines (snprintf_s 8191 (spaminess_lines (sd1\<lparr>sd_spaminess := p\<rparr>) cfg))\<rparr>
     else sd' = sd\<lparr>sd_spaminessbuf := rstrip_newlines (sd_spaminessbuf sd)\<rparr> \<and> st' = st"
  using assms by (auto simp: check_spam_content_def Let_def bind_eq_Some_conv)


lemma demo_lists: "check_email_against_list demo_server c table email w = (0, w)"
  by (simp add: check_email_against_list_def prepare_sql_statement_def p_exec_stmt_def p_store_results_def
      p_fetch_results_def p_free_results_def close_prepared_statement_def p_bind_init_def bind_len_def
      demo_server_def fetched_int_def Let_def)

lemma demo_minefield: "is_sender_on_minefield demo_server c ip w = (False, w)"
  by (simp add: is_sender_on_minefield_def prepare_sql_statement_def p_exec_stmt_def p_store_results_def
      p_fetch_results_def p_free_results_def close_prepared_statement_def p_bind_init_def bind_len_def
      demo_server_def Let_def)


end
