(* ===== verification/Header.thy ===== *)
theory Header
  imports Kospam_Strings Base64 Quoted_Printable Utf8
begin

text \<open>
  \<open>src/header.c\<close>: the value of a header is found in the text of a message and unfolded, encoded words
  (RFC 2047) are decoded, and the parameters of a header line (\<open>charset\<close>, \<open>name\<close>) are extracted.
  \<open>extract_header_value\<close> works on the block that holds the message, with every access checked; the
  other functions work on copies in arrays that are cleared first and are modelled by the strings
  the arrays hold.
\<close>

section \<open>Encoded words\<close>

datatype word_kind = Plain | B64 | QP

text \<open>
  One round of the inner loop of \<open>fixup_encoded_header\<close> up to the decoding: behind the mark \<open>=?\<close> stand
  the name of the encoding and the flags \<open>b64\<close> and \<open>qp\<close>; then the text \<open>u\<close> is cut out, and \<open>p\<close> moves on.
\<close>

definition encoded_start :: "string \<Rightarrow> string \<times> word_kind \<times> string" where
  "encoded_start p =
     (case strchr p (CHR ''?'') of
        None \<Rightarrow> ([], Plain, p)
      | Some e \<Rightarrow>
          let encoding = snprintf_s (MAXBUFSIZE - 1) (take e p); q = drop e p
          in (case strcasestr q ''?B?'' of
                Some s \<Rightarrow> (encoding, B64, drop (s + 3) q)
              | None \<Rightarrow>
                  (case strcasestr q ''?Q?'' of
                     Some s \<Rightarrow> (encoding, QP, drop (s + 3) q)
                   | None \<Rightarrow> (encoding, Plain, p))))"

definition next_word :: "string \<Rightarrow> string \<times> string \<times> word_kind \<times> string option" where
  "next_word p =
     (case strstr p ''=?'' of
        None \<Rightarrow> (snprintf_s (MAXBUFSIZE - 1) p, [], Plain, None)
      | Some r \<Rightarrow>
          (case encoded_start (drop (r + 2) p) of
             (encoding, kind, q) \<Rightarrow>
               (case strstr q ''?='' of
                  None \<Rightarrow> (snprintf_s (MAXBUFSIZE - 1) q, encoding, kind, Some q)
                | Some end \<Rightarrow>
                    (snprintf_s (MAXBUFSIZE - 1) (take end q), encoding, kind, Some (drop (end + 2) q)))))"

text \<open>The decoders work in place on \<open>u\<close>, whatever they return.\<close>

definition decode_word :: "word_kind \<Rightarrow> string \<Rightarrow> string option" where
  "decode_word kind u =
     (case kind of
        Plain \<Rightarrow> Some u
      | B64 \<Rightarrow> map_option (\<lambda>(_, b). cstr b) (base64_decode (u @ [NUL]) 0)
      | QP \<Rightarrow> map_option cstr (decodeQP (u @ [NUL]) 0))"

definition convert_word :: "iconv \<Rightarrow> word_kind \<Rightarrow> string \<Rightarrow> string \<Rightarrow> string" where
  "convert_word iconv kind encoding u =
     (if kind \<noteq> Plain \<and> encoding \<noteq> [] \<and> \<not> strcasecmp_eq encoding ''utf-8''
      then (let (ret, tmpbuf) = utf8_encode iconv u (int (2 * MAXBUFSIZE)) encoding
            in if ret = 0 then cstr tmpbuf else u)
      else u)"

definition append_puf :: "string \<Rightarrow> string \<Rightarrow> string" where
  "append_puf puf s = (if length puf + length s < MAXBUFSIZE then puf @ s else puf)"

record fixup =
  fx_puf :: string
  fx_prev_encoded :: bool
  fx_n_tokens :: nat

definition fixup_round :: "iconv \<Rightarrow> string \<Rightarrow> fixup \<Rightarrow> (string option \<times> fixup) option" where
  "fixup_round iconv p st =
     (case next_word p of
        (u, encoding, kind, p') \<Rightarrow>
          if u = [] then Some (p', st)
          else do {
            d \<leftarrow> decode_word kind u;
            let puf = (if fx_prev_encoded st \<and> kind \<noteq> Plain then fx_puf st
                       else if fx_n_tokens st + 1 > 1 then append_puf (fx_puf st) [SPACE] else fx_puf st);
            Some (p', \<lparr>fx_puf = append_puf puf (convert_word iconv kind encoding d),
                        fx_prev_encoded = fx_prev_encoded st \<or> kind \<noteq> Plain,
                        fx_n_tokens = fx_n_tokens st + 1\<rparr>) })"

lemma encoded_start_suffix: "encoded_start p = (encoding, kind, q) \<Longrightarrow> suffix q p"
  by (auto simp: encoded_start_def Let_def suffix_drop split: option.splits)

lemma next_word_part:
  assumes "next_word p = (u, encoding, kind, p')"
  shows "\<exists>q n. suffix q p \<and> u = take n q \<and> (\<forall>r. p' = Some r \<longrightarrow> suffix r q \<and> length q < length p)"
proof (cases "strstr p ''=?''")
  case None
  then show ?thesis using assms by (auto simp: next_word_def snprintf_s_def)
next
  case (Some r)
  obtain enc k q where q: "encoded_start (drop (r + 2) p) = (enc, k, q)" by (metis prod_cases3)
  have "suffix q (drop (r + 2) p)" by (rule encoded_start_suffix [OF q])
  then have s: "suffix q p" "length q < length p"
    using strstr_length [OF Some] suffix_drop [of "r + 2" p] by (auto dest: suffix_length_le suffix_order.trans)
  show ?thesis
  proof (cases "strstr q ''?=''")
    case None
    then show ?thesis using assms Some q s by (auto simp: next_word_def snprintf_s_def)
  next
    case (Some e)
    then have "u = take 8190 (take e q)" "p' = Some (drop (e + 2) q)"
      using assms \<open>strstr p ''=?'' = Some r\<close> q by (auto simp: next_word_def snprintf_s_def)
    then show ?thesis using s suffix_drop [of "e + 2" q] by (auto simp: take_take)
  qed
qed

lemma next_word_shorter: "next_word p = (u, encoding, kind, Some p') \<Longrightarrow> length p' < length p"
  using next_word_part [of p u encoding kind "Some p'"] by (auto dest: suffix_length_le)

lemma fixup_round_shorter: "fixup_round iconv p st = Some (Some p', st') \<Longrightarrow> length p' < length p"
  by (cases "next_word p")
    (auto simp: fixup_round_def Let_def dest: next_word_shorter split: if_splits bind_splits)

text \<open>The inner loop, over one word of the header, and the outer loop, over the words.\<close>

function fixup_word :: "iconv \<Rightarrow> string \<Rightarrow> fixup \<Rightarrow> fixup option" where
  "fixup_word iconv p st =
     (case fixup_round iconv p st of
        None \<Rightarrow> None
      | Some (None, st') \<Rightarrow> Some st'
      | Some (Some p', st') \<Rightarrow> fixup_word iconv p' st')"
  by pat_completeness auto
termination
  by (relation "measure (\<lambda>(iconv, p, st). length p)") (auto dest: fixup_round_shorter)

declare fixup_word.simps [simp del]

fun fixup_words :: "iconv \<Rightarrow> string list \<Rightarrow> fixup \<Rightarrow> fixup option" where
  "fixup_words iconv [] st = Some st"
| "fixup_words iconv (v # vs) st =
     (case fixup_word iconv (chop_string v) st of None \<Rightarrow> None | Some st' \<Rightarrow> fixup_words iconv vs st')"

definition fixup_encoded_header :: "iconv \<Rightarrow> string \<Rightarrow> nat \<Rightarrow> string option" where
  "fixup_encoded_header iconv buf buflen =
     (if buflen < 5 then Some buf
      else map_option (\<lambda>st. snprintf_s buflen (fx_puf st))
             (fixup_words iconv (split_all (int MAXBUFSIZE) SPACE buf)
                \<lparr>fx_puf = [], fx_prev_encoded = False, fx_n_tokens = 0\<rparr>))"

section \<open>Header values\<close>

text \<open>The string at an offset; a NULL result of a search is the inner \<open>None\<close>.\<close>

definition str_at :: "buf \<Rightarrow> nat \<Rightarrow> string option" where
  "str_at b p = (if terminated b p then Some (cstr (drop p b)) else None)"

definition at_line_start :: "buf \<Rightarrow> nat \<Rightarrow> nat \<Rightarrow> bool option" where
  "at_line_start b buffer pos =
     (if pos = buffer then Some True
      else if pos = 0 then None
      else do {
        c \<leftarrow> rd b (pos - 1);
        if c = LF then Some True
        else if c = CR then (if pos < 2 then None else map_option (\<lambda>d. d = LF) (rd b (pos - 2)))
        else Some False })"

text \<open>
  The first loop of \<open>extract_header_value\<close>: the final \<open>buffer_start\<close> and \<open>header_pos\<close>.  (Names of
  headers are not empty; \<open>max 1\<close> only serves the termination of the definition.)
\<close>

function find_header :: "buf \<Rightarrow> nat \<Rightarrow> string \<Rightarrow> nat \<Rightarrow> (nat \<times> nat) option option" where
  "find_header b buffer name start =
     do { s \<leftarrow> str_at b start;
          case strcasestr s name of
            None \<Rightarrow> Some None
          | Some k \<Rightarrow>
              do { ok \<leftarrow> at_line_start b buffer (start + k);
                   if ok then Some (Some (start, start + k))
                   else find_header b buffer name (start + k + max 1 (length name)) } }"
  by pat_completeness auto
termination
proof (relation "measure (\<lambda>(b, buffer, name, start). length b - start)")
  fix b start s k fixed_buffer fixed_name
  assume "str_at b start = Some s" "strcasestr s fixed_name = Some k"
  then have "start < length b"
    by (auto simp: str_at_def terminated_def split: if_splits) (metis drop_all empty_iff empty_set leI)
  then show "((b, fixed_buffer, fixed_name, start + k + max 1 (length fixed_name)), b, fixed_buffer, fixed_name, start)
      \<in> measure (\<lambda>(b, buffer, name, start). length b - start)" by simp
qed simp

declare find_header.simps [simp del]

text \<open>The loop that looks for the end of the value.\<close>

definition next_newline :: "string \<Rightarrow> nat option" where
  "next_newline s = (case strstr s [CR, LF] of Some i \<Rightarrow> Some i | None \<Rightarrow> strstr s [LF])"

function find_value_end :: "buf \<Rightarrow> nat \<Rightarrow> nat \<Rightarrow> nat option" where
  "find_value_end b headers_end value_end =
     (if value_end < headers_end then
        do { s \<leftarrow> str_at b value_end;
             case next_newline s of
               None \<Rightarrow> Some headers_end
             | Some k \<Rightarrow>
                 (if value_end + k \<ge> headers_end then Some headers_end
                  else do {
                    c \<leftarrow> rd b (value_end + k);
                    let next_line = value_end + k + (if c = CR then 2 else 1);
                    d \<leftarrow> rd b next_line;
                    if d = SPACE \<or> d = TAB then find_value_end b headers_end next_line
                    else if next_line < 2 then None
                    else do { e \<leftarrow> rd b (next_line - 2);
                              Some (next_line - (if e = CR then 2 else 1)) } }) }
      else Some value_end)"
  by pat_completeness auto
termination
  by (relation "measure (\<lambda>(b, headers_end, value_end). headers_end - value_end)") auto

declare find_value_end.simps [simp del]

text \<open>
  The loop that copies \<open>n\<close> bytes from \<open>pos\<close> into the result of size \<open>lim\<close>, of which \<open>res\<close> is written; the
  flag is \<open>prev_was_newline\<close>.
\<close>

definition push :: "nat \<Rightarrow> string \<Rightarrow> string \<Rightarrow> string option" where
  "push lim res s = (if length res + length s \<le> lim then Some (res @ s) else None)"

definition value_chars :: "bool \<Rightarrow> string \<Rightarrow> char \<Rightarrow> string" where
  "value_chars nl res c =
     (if nl then (if c = SPACE \<or> c = TAB then (if res \<noteq> [] \<and> last res \<noteq> SPACE then [SPACE] else [])
                  else [SPACE, c])
      else [c])"

fun copy_value :: "nat \<Rightarrow> buf \<Rightarrow> nat \<Rightarrow> nat \<Rightarrow> string \<Rightarrow> bool \<Rightarrow> string option" where
  "copy_value lim b pos 0 res nl = Some res"
| "copy_value lim b pos (Suc n) res nl =
     (if length res > lim - 2 then Some res
      else do {
        c \<leftarrow> rd b pos;
        if c = CR then copy_value lim b (Suc pos) n res nl
        else if c = LF then copy_value lim b (Suc pos) n res True
        else do {
          res' \<leftarrow> push lim res (value_chars nl res c);
          copy_value lim b (Suc pos) n res' False } })"

abbreviation HEADER_SUBJECT :: string where "HEADER_SUBJECT \<equiv> ''Subject:''"
abbreviation HEADER_FROM :: string where "HEADER_FROM \<equiv> ''From:''"

text \<open>The result is \<open>None\<close> (inside \<open>Some\<close>) when the header is not found and the result array keeps its contents.\<close>

definition extract_header_value :: "iconv \<Rightarrow> buf \<Rightarrow> nat \<Rightarrow> nat \<Rightarrow> string \<Rightarrow> nat \<Rightarrow> string option option" where
  "extract_header_value iconv b buffer buffer_len header_name resultbuflen =
     do { found \<leftarrow> find_header b buffer header_name buffer;
          case found of
            None \<Rightarrow> Some None
          | Some (buffer_start, header_pos) \<Rightarrow>
              do { rest \<leftarrow> str_at b (header_pos + length header_name);
                   let value_start = header_pos + length header_name + length (takeWhile isspace rest);
                   value_end \<leftarrow> find_value_end b (buffer_start + buffer_len) value_start;
                   res \<leftarrow> copy_value resultbuflen b value_start (value_end - value_start) [] False;
                   if length res < resultbuflen
                   then (if header_name = HEADER_SUBJECT \<or> header_name = HEADER_FROM
                         then map_option Some (fixup_encoded_header iconv (cstr res) (length res + 1))
                         else Some (Some (cstr res)))
                   else None } }"

section \<open>Parameters of a header line\<close>

abbreviation HEADER_CONTENT_DISPOSITION :: string where "HEADER_CONTENT_DISPOSITION \<equiv> ''Content-Disposition:''"

text \<open>The value behind the equal sign: quoted, or up to a semicolon.\<close>

definition parameter_value :: "string \<Rightarrow> string" where
  "parameter_value p =
     (let p1 = dropWhile (\<lambda>c. c = SPACE \<or> c = TAB) p in
      if p1 \<noteq> [] \<and> hd p1 = DQUOTE
      then takeWhile (\<lambda>c. c \<noteq> DQUOTE) (tl p1) else takeWhile (\<lambda>c. c \<noteq> CHR '';'') p1)"

text \<open>The two quotes of the extended notation: the encoding and the text.\<close>

definition extended_value :: "string \<Rightarrow> string \<times> string" where
  "extended_value p =
     (case strchr p SQUOTE of
        None \<Rightarrow> (p, p)
      | Some i \<Rightarrow>
          (case strchr (drop (Suc i) p) SQUOTE of
             None \<Rightarrow> (take i p, drop (Suc i) p)
           | Some j \<Rightarrow> (take i p, drop (Suc j) (drop (Suc i) p))))"

definition extract_token_from_header_line :: "iconv \<Rightarrow> string \<Rightarrow> string \<Rightarrow> nat \<Rightarrow> string option" where
  "extract_token_from_header_line iconv buffer name resultbuflen =
     (let buf = snprintf_s (SMALLBUFSIZE - 1) buffer in
      case strstr buf name of
        None \<Rightarrow> Some []
      | Some i \<Rightarrow>
          let p = drop (i + length name) buf;
              extended = (p \<noteq> [] \<and> hd p = CHR ''*'')
          in case strchr p (CHR ''='') of
               None \<Rightarrow> Some []
             | Some k \<Rightarrow>
                 let v = parameter_value (drop (Suc k) p) in
                 if extended
                 then (let (encoding, u) = extended_value v in
                       if length encoding > 2 \<and> \<not> strcasecmp_eq encoding ''utf-8''
                       then Some (cstr (snd (utf8_encode iconv u (int resultbuflen - 1) encoding)))
                       else Some (snprintf_s (resultbuflen - 1) u))
                 else map_option (snprintf_s (resultbuflen - 1))
                        (fixup_encoded_header iconv (snprintf_s (SMALLBUFSIZE - 1) v) SMALLBUFSIZE))"

definition extract_name_from_headers :: "iconv \<Rightarrow> string \<Rightarrow> nat \<Rightarrow> string option" where
  "extract_name_from_headers iconv buf resultlen =
     (case strcasestr buf HEADER_CONTENT_DISPOSITION of
        Some p \<Rightarrow> extract_token_from_header_line iconv (drop p buf) ''name'' (resultlen - 1)
      | None \<Rightarrow> extract_token_from_header_line iconv buf ''name'' (resultlen - 1))"

section \<open>Decoding a word\<close>

text \<open>The text a decoder leaves in the array.\<close>

definition word_text :: "word_kind \<Rightarrow> string \<Rightarrow> string" where
  "word_text kind u =
     (case kind of
        Plain \<Rightarrow> u
      | B64 \<Rightarrow> cstr (let c = filter valid_base64_char u in if length c mod 4 = 0 then decode_spec c else c)
      | QP \<Rightarrow> cstr (qp_decode u))"

lemma terminated_string: "terminated (u @ [NUL]) 0"
  by (simp add: terminated_def)

lemma cstr_string: "NUL \<notin> set u \<Longrightarrow> cstr (u @ [NUL]) = u"
  by (simp add: cstr_append_NUL cstr_id)

lemma decode_word: "NUL \<notin> set u \<Longrightarrow> decode_word kind u = Some (word_text kind u)"
proof (cases kind)
  case B64
  assume u: "NUL \<notin> set u"
  let ?c = "filter valid_base64_char u"
  let ?out = "if length ?c mod 4 = 0 then decode_spec ?c else ?c"
  obtain n b where b: "base64_decode (u @ [NUL]) 0 = Some (n, b)" "holds_data 0 (u @ [NUL]) b ?out"
    using base64_decode_spec [OF terminated_string, of u] unfolding drop_0 cstr_string [OF u] by blast
  have "b = (?out @ [NUL]) @ drop (Suc (length ?out)) b"
    using b(2) unfolding holds_data_def by (metis append_take_drop_id append.left_neutral add_0 take_0)
  then have "cstr b = cstr ?out" by (metis append.assoc append_Cons append_Nil cstr_append_NUL)
  then show ?thesis using b(1) B64 by (simp add: decode_word_def word_text_def Let_def)
next
  case QP
  assume "NUL \<notin> set u"
  then show ?thesis
    using decodeQP_total [OF terminated_string, of u] QP
    by (auto simp: decode_word_def word_text_def cstr_string overwrites_def)
qed (simp add: decode_word_def word_text_def)

section \<open>Words of a header\<close>

text \<open>
  The words a mail program writes into a header: text, and encoded words with the name of a
  character set, one of the two encodings, and the encoded text.
\<close>

datatype hdr_word = Text string | Encoded string word_kind string

fun word_source :: "hdr_word \<Rightarrow> string" where
  "word_source (Text w) = w"
| "word_source (Encoded cs kind e) = ''=?'' @ cs @ (if kind = B64 then ''?B?'' else ''?Q?'') @ e @ ''?=''"

fun is_encoded :: "hdr_word \<Rightarrow> bool" where
  "is_encoded (Text w) = False"
| "is_encoded (Encoded cs kind e) = True"

fun shown :: "iconv \<Rightarrow> hdr_word \<Rightarrow> string" where
  "shown iconv (Text w) = w"
| "shown iconv (Encoded cs kind e) = convert_word iconv kind cs (word_text kind e)"

fun good_word :: "hdr_word \<Rightarrow> bool" where
  "good_word (Text w) \<longleftrightarrow> w \<noteq> [] \<and> \<not> sublist ''=?'' w \<and> NUL \<notin> set w \<and> SPACE \<notin> set w \<and>
     last w \<noteq> CR \<and> last w \<noteq> LF \<and> length w < 8000"
| "good_word (Encoded cs kind e) \<longleftrightarrow> kind \<noteq> Plain \<and> e \<noteq> [] \<and> CHR ''?'' \<notin> set (cs @ e) \<and> NUL \<notin> set (cs @ e) \<and>
     SPACE \<notin> set (cs @ e) \<and> length (cs @ e) < 8000 \<and> (kind = QP \<longrightarrow> map tolower e \<noteq> ''b'')"

text \<open>
  How RFC 2047 (6.2) wants the words displayed: with the space between two neighbours, unless both are
  encoded words.
\<close>

fun displayed :: "iconv \<Rightarrow> hdr_word list \<Rightarrow> string" where
  "displayed iconv [] = []"
| "displayed iconv [w] = shown iconv w"
| "displayed iconv (w # w' # ws) =
     shown iconv w @ (if is_encoded w \<and> is_encoded w' then [] else [SPACE]) @ displayed iconv (w' # ws)"

text \<open>
  How the code puts them together: with a space in front of each but the first, except in front of an
  encoded word when there was any encoded word before.
\<close>

fun display :: "iconv \<Rightarrow> bool \<Rightarrow> bool \<Rightarrow> hdr_word list \<Rightarrow> string" where
  "display iconv started seen [] = []"
| "display iconv started seen (w # ws) =
     (if started \<and> \<not> (seen \<and> is_encoded w) then [SPACE] else []) @ shown iconv w @
     display iconv True (seen \<or> is_encoded w) ws"

lemma tolower_eq_iff: "\<not> islower d \<Longrightarrow> tolower c = d \<longleftrightarrow> c = d \<and> \<not> isupper c"
proof -
  assume "\<not> islower d"
  then have "\<not> isupper c \<or> tolower c \<noteq> d"
    using byte_tolower [of c] by (auto simp: islower_def isupper_def)
  then show ?thesis by (auto simp: tolower_def)
qed

lemma tolower_question: "tolower c = CHR ''?'' \<longleftrightarrow> c = CHR ''?''"
  by (subst tolower_eq_iff) (auto simp: islower_def isupper_def)

lemma strstr_skip: "c \<notin> set x \<Longrightarrow> strstr (x @ y) (c # n) = map_option ((+) (length x)) (strstr y (c # n))"
  by (induction x; cases "strstr y (c # n)") auto

lemma lower_marks: "map tolower ''?B?'' = ''?b?''" "map tolower ''?Q?'' = ''?q?''" "map tolower ''?='' = ''?=''"
  by code_simp+

lemma no_b64_mark:
  assumes "CHR ''?'' \<notin> set e" "map tolower e \<noteq> ''b''"
  shows "strcasestr (''?Q?'' @ e @ ''?='') ''?B?'' = None"
proof -
  let ?x = "map tolower e"
  have x: "CHR ''?'' \<notin> set ?x"
    using assms(1) by (metis imageE set_map tolower_question)
  have "strstr (?x @ ''?='') ''?b?'' = None" by (simp add: strstr_skip [OF x])
  moreover have "\<not> prefix ''b?'' (?x @ ''?='')"
  proof (cases ?x)
    case (Cons c cs)
    with assms(2) x show ?thesis by (cases cs) auto
  qed simp
  ultimately show ?thesis
    unfolding strcasestr_def map_append lower_marks by simp
qed

lemma next_word_encoded:
  assumes "good_word (Encoded cs kind e)"
  shows "next_word (word_source (Encoded cs kind e)) = (e, cs, kind, Some [])"
proof -
  let ?m = "if kind = B64 then ''?B?'' else ''?Q?''"
  have q: "CHR ''?'' \<notin> set cs" "CHR ''?'' \<notin> set e" "kind \<noteq> Plain" "length (cs @ e) < 8000"
    using assms by auto
  have 1: "strchr (cs @ ?m @ e @ ''?='') (CHR ''?'') = Some (length cs)"
    using q(1) by (simp add: strchr_takeWhile takeWhile_neq_append_stop)
  have 2: "strstr (e @ ''?='') ''?='' = Some (length e)" by (simp add: strstr_skip [OF q(2)])
  have 3: "strcasestr (''?B?'' @ e @ ''?='') ''?B?'' = Some 0" "strcasestr (''?Q?'' @ e @ ''?='') ''?Q?'' = Some 0"
    by (simp_all add: strcasestr_def)
  have 4: "kind = QP \<Longrightarrow> strcasestr (''?Q?'' @ e @ ''?='') ''?B?'' = None"
    using no_b64_mark [OF q(2)] assms by simp
  have 5: "snprintf_s 8191 cs = cs" "snprintf_s 8191 e = e" using q(4) by (simp_all add: snprintf_s_fits)
  show ?thesis
  proof (cases kind)
    case B64
    then show ?thesis using 1 2 3 5 by (simp add: next_word_def encoded_start_def)
  next
    case QP
    then show ?thesis using 1 2 3 4 5 by (simp add: next_word_def encoded_start_def)
  qed (use q(3) in simp)
qed

lemma next_word_text:
  assumes "\<not> sublist ''=?'' w" "length w < 8191"
  shows "next_word w = (w, [], Plain, None)"
proof -
  have "strstr w ''=?'' = None" using assms(1) by (simp only: strstr_None_iff) simp
  then show ?thesis using assms(2) by (simp add: next_word_def snprintf_s_fits)
qed

section \<open>The words of a header put together\<close>

text \<open>The state after a word; the word itself need not fit.\<close>

definition add_word :: "iconv \<Rightarrow> hdr_word \<Rightarrow> fixup \<Rightarrow> fixup" where
  "add_word iconv w st =
     \<lparr>fx_puf = append_puf
        (if fx_n_tokens st > 0 \<and> \<not> (fx_prev_encoded st \<and> is_encoded w) then append_puf (fx_puf st) [SPACE]
         else fx_puf st) (shown iconv w),
      fx_prev_encoded = fx_prev_encoded st \<or> is_encoded w,
      fx_n_tokens = fx_n_tokens st + 1\<rparr>"

lemma next_word_Nil [simp]: "next_word [] = ([], [], Plain, None)"
  by (simp add: next_word_def snprintf_s_def)

lemma fixup_word_Nil [simp]: "fixup_word iconv [] st = Some st"
  by (subst fixup_word.simps) (simp add: fixup_round_def)

lemma fixup_word_good:
  assumes "good_word w"
  shows "fixup_word iconv (word_source w) st = Some (add_word iconv w st)"
proof (cases w)
  case (Text v)
  then have "next_word v = (v, [], Plain, None)" "v \<noteq> []" "NUL \<notin> set v"
    using assms by (auto intro: next_word_text)
  then show ?thesis using Text
    by (subst fixup_word.simps)
      (simp add: fixup_round_def decode_word word_text_def convert_word_def add_word_def)
next
  case (Encoded cs kind e)
  then have n: "next_word (word_source w) = (e, cs, kind, Some [])" and e: "e \<noteq> []" "NUL \<notin> set e" "kind \<noteq> Plain"
    using next_word_encoded assms by auto
  then have "fixup_round iconv (word_source w) st = Some (Some [], add_word iconv w st)"
    by (simp add: fixup_round_def decode_word add_word_def Encoded)
  then show ?thesis by (subst fixup_word.simps) simp
qed

lemma source_chopped: "good_word w \<Longrightarrow> chop_string (word_source w) = word_source w"
proof (cases w)
  case (Text v)
  assume "good_word w"
  then show ?thesis using Text
    by (cases v rule: rev_cases) (simp_all add: chop_string_rstrip rstrip_snoc)
next
  case (Encoded cs kind e)
  assume g: "good_word w"
  let ?v = "''=?'' @ cs @ (if kind = B64 then ''?B?'' else ''?Q?'') @ e @ ''?''"
  have v: "word_source w = ?v @ [CHR ''='']" by (simp add: Encoded)
  have n: "NUL \<notin> set (?v @ [CHR ''=''])" using g Encoded by auto
  show ?thesis unfolding v chop_string_rstrip [OF n] rstrip_snoc by simp
qed

lemma append_puf_sep:
  "length p + length ((if sp then [SPACE] else []) @ s) < MAXBUFSIZE \<Longrightarrow>
   append_puf (if sp then append_puf p [SPACE] else p) s = p @ (if sp then [SPACE] else []) @ s"
  by (cases sp) (simp_all add: append_puf_def)

lemma fixup_words_good:
  assumes "\<forall>w\<in>set ws. good_word w"
    and "length (fx_puf st) + length (display iconv (fx_n_tokens st > 0) (fx_prev_encoded st) ws) < MAXBUFSIZE"
  shows "\<exists>st'. fixup_words iconv (map word_source ws) st = Some st' \<and>
    fx_puf st' = fx_puf st @ display iconv (fx_n_tokens st > 0) (fx_prev_encoded st) ws"
  using assms
proof (induction ws arbitrary: st)
  case (Cons w ws)
  let ?sp = "if fx_n_tokens st > 0 \<and> \<not> (fx_prev_encoded st \<and> is_encoded w) then [SPACE] else []"
  let ?st = "add_word iconv w st"
  have fits: "length (fx_puf st) + length (?sp @ shown iconv w) < MAXBUFSIZE"
    and rest: "length (fx_puf st @ ?sp @ shown iconv w) +
        length (display iconv True (fx_prev_encoded st \<or> is_encoded w) ws) < MAXBUFSIZE"
    using Cons.prems(2) by simp_all
  have puf: "fx_puf ?st = fx_puf st @ ?sp @ shown iconv w"
    unfolding add_word_def fixup.simps using append_puf_sep [OF fits] .
  have "fx_n_tokens ?st > 0" "fx_prev_encoded ?st = (fx_prev_encoded st \<or> is_encoded w)"
    by (simp_all add: add_word_def)
  moreover from this obtain st' where "fixup_words iconv (map word_source ws) ?st = Some st'"
    "fx_puf st' = fx_puf ?st @ display iconv True (fx_prev_encoded st \<or> is_encoded w) ws"
    using Cons.IH [of ?st] Cons.prems(1) rest puf by auto
  ultimately show ?case
    using Cons.prems(1) by (simp add: source_chopped fixup_word_good puf)
qed simp

lemma source_no_space: "good_word w \<Longrightarrow> SPACE \<notin> set (word_source w) \<and> length (word_source w) < 8191"
  by (cases w) auto

text \<open>The spaces between a text and an encoded word that are lost because of an encoded word further in front.\<close>

fun lost_spaces :: "bool \<Rightarrow> hdr_word list \<Rightarrow> nat" where
  "lost_spaces seen [] = 0"
| "lost_spaces seen [w] = 0"
| "lost_spaces seen (w # w' # ws) =
     (if seen \<and> \<not> is_encoded w \<and> is_encoded w' then 1 else 0) + lost_spaces (seen \<or> is_encoded w) (w' # ws)"

lemma display_started:
  "display iconv True seen (w # ws) = (if seen \<and> is_encoded w then [] else [SPACE]) @ display iconv False seen (w # ws)"
  by simp

lemma length_displayed: "length (displayed iconv ws) = length (display iconv False seen ws) + lost_spaces seen ws"
proof (induction seen ws rule: lost_spaces.induct)
  case (3 seen w w' ws)
  have "display iconv False seen (w # w' # ws) =
      shown iconv w @ display iconv True (seen \<or> is_encoded w) (w' # ws)" by simp
  with 3 show ?case by (simp only: display_started displayed.simps lost_spaces.simps length_append) simp
qed simp_all

lemma displayed_eq: "lost_spaces seen ws = 0 \<Longrightarrow> displayed iconv ws = display iconv False seen ws"
proof (induction seen ws rule: lost_spaces.induct)
  case (3 seen w w' ws)
  have "display iconv False seen (w # w' # ws) =
      shown iconv w @ display iconv True (seen \<or> is_encoded w) (w' # ws)" by simp
  with 3 show ?case by (auto simp only: display_started displayed.simps lost_spaces.simps split: if_splits)
qed simp_all

lemma fixup_encoded_header_display:
  assumes "\<forall>w\<in>set ws. good_word w" "5 \<le> buflen"
    and "length (display iconv False False ws) < min MAXBUFSIZE buflen"
  shows "fixup_encoded_header iconv (join SPACE (map word_source ws)) buflen = Some (display iconv False False ws)"
proof (cases "ws = []")
  case False
  let ?vs = "map word_source ws"
  have "cut_at SPACE (join SPACE ?vs) = ?vs"
    using assms(1) False source_no_space by (intro cut_at_join) auto
  moreover have "map (take 8191) ?vs = ?vs"
    using assms(1) source_no_space by (intro map_idI) (auto simp: less_imp_le)
  ultimately have "split_all 8192 SPACE (join SPACE ?vs) = ?vs"
    by (simp add: split_all_cut_at)
  then show ?thesis
    using fixup_words_good [OF assms(1), of "\<lparr>fx_puf = [], fx_prev_encoded = False, fx_n_tokens = 0\<rparr>" iconv] assms(2,3)
    by (auto simp: fixup_encoded_header_def snprintf_s_fits)
next
  case True
  have "fixup_words iconv (split_all 8192 SPACE []) st = Some st" for st
    by (subst split_all.simps) (simp add: split_def chop_string_rstrip rstrip_newlines_def)
  then show ?thesis using True assms(2) by (simp add: fixup_encoded_header_def snprintf_s_def)
qed


lemma example_words: "word_text QP ''caf=65'' = ''cafe''" "word_text QP ''_bar'' = '' bar''"
  by code_simp+


text \<open>
  The flag is never reset: the space between a text and an encoded word is lost when there was an
  encoded word before the text.
\<close>

lemma fixup_loses_space:
  "display iconv False False [Encoded cs k e, Text w, Encoded cs' k' e'] =
     shown iconv (Encoded cs k e) @ [SPACE] @ w @ shown iconv (Encoded cs' k' e')"
  "displayed iconv [Encoded cs k e, Text w, Encoded cs' k' e'] =
     shown iconv (Encoded cs k e) @ [SPACE] @ w @ [SPACE] @ shown iconv (Encoded cs' k' e')"
  by simp_all

text \<open>An encoded word without its end is shown twice, the second time as it stands.\<close>

lemma fixup_repeats_unfinished:
  "fixup_encoded_header (\<lambda>_. None) ''=?utf-8?Q?a=3Db'' 100 = Some ''a=b a=3Db''"
proof -
  have q: "word_text QP ''a=3Db'' = ''a=b''" "strcasecmp_eq ''utf-8'' ''utf-8''"
    "strcasestr ''?Q?a=3Db'' ''?B?'' = None" "strcasestr ''?Q?a=3Db'' ''?Q?'' = Some 0"
    "\<not> sublist ''=?'' ''a=3Db''" by code_simp+
  have w: "next_word ''=?utf-8?Q?a=3Db'' = (''a=3Db'', ''utf-8'', QP, Some ''a=3Db'')"
    using q(3,4) by (simp add: next_word_def encoded_start_def snprintf_s_fits)
  let ?st = "\<lparr>fx_puf = [], fx_prev_encoded = False, fx_n_tokens = 0\<rparr>"
  let ?st1 = "\<lparr>fx_puf = ''a=b'', fx_prev_encoded = True, fx_n_tokens = 1\<rparr>"
  have "fixup_round iconv ''=?utf-8?Q?a=3Db'' ?st = Some (Some ''a=3Db'', ?st1)" for iconv
    unfolding fixup_round_def w by (simp add: decode_word q(1,2) convert_word_def append_puf_def)
  then have "fixup_word iconv ''=?utf-8?Q?a=3Db'' ?st = fixup_word iconv ''a=3Db'' ?st1" for iconv
    by (subst fixup_word.simps) (simp only: option.case prod.case)
  moreover have "good_word (Text ''a=3Db'')" using q(5) by simp
  ultimately have f: "fixup_word iconv ''=?utf-8?Q?a=3Db'' ?st =
      Some \<lparr>fx_puf = ''a=b a=3Db'', fx_prev_encoded = True, fx_n_tokens = 2\<rparr>" for iconv
    using fixup_word_good [of "Text ''a=3Db''" iconv ?st1] by (simp add: add_word_def append_puf_def)
  have c: "chop_string ''=?utf-8?Q?a=3Db'' = ''=?utf-8?Q?a=3Db''"
    by (simp add: chop_string_rstrip rstrip_newlines_def)
  have sp: "split_all (int MAXBUFSIZE) SPACE ''=?utf-8?Q?a=3Db'' = [''=?utf-8?Q?a=3Db'']"
    using cut_at_no_occurrence [of SPACE "''=?utf-8?Q?a=3Db''"] by (simp add: split_all_cut_at del: cut_at.simps)
  show ?thesis
    unfolding fixup_encoded_header_def sp fixup_words.simps c f by (simp add: snprintf_s_fits)
qed

section \<open>Unfolding the value of a header\<close>

text \<open>
  The value of a header: the rest of its line and the continuation lines, each with the blank or tab
  it starts with.  \<open>unfolded\<close> is what a reader of the header sees.
\<close>

definition conts :: "string \<Rightarrow> (char \<times> string) list \<Rightarrow> string" where
  "conts eol cs = concat (map (\<lambda>(w, t). eol @ w # t) cs)"

fun unfolded :: "string \<Rightarrow> (char \<times> string) list \<Rightarrow> string" where
  "unfolded v [] = v"
| "unfolded v ((w, t) # cs) = unfolded (v @ (if last v = SPACE then [] else [SPACE]) @ t) cs"

definition plain_line :: "string \<Rightarrow> bool" where
  "plain_line t \<longleftrightarrow> CR \<notin> set t \<and> LF \<notin> set t \<and> NUL \<notin> set t"

definition plain_conts :: "(char \<times> string) list \<Rightarrow> bool" where
  "plain_conts cs \<longleftrightarrow> (\<forall>(w, t)\<in>set cs. (w = SPACE \<or> w = TAB) \<and> plain_line t)"

lemma conts_simps [simp]: "conts eol [] = []" "conts eol ((w, t) # cs) = eol @ w # t @ conts eol cs"
  by (simp_all add: conts_def)

text \<open>The copying loop on a list.\<close>

fun unfold_from :: "string \<Rightarrow> bool \<Rightarrow> string \<Rightarrow> string" where
  "unfold_from res nl [] = res"
| "unfold_from res nl (c # xs) =
     (if c = CR then unfold_from res nl xs
      else if c = LF then unfold_from res True xs
      else unfold_from (res @ value_chars nl res c) False xs)"

lemma length_value_chars: "length (value_chars nl res c) \<le> 2"
  by (simp add: value_chars_def)

lemma unfold_from_prefix: "prefix res (unfold_from res nl xs)"
proof (induction xs arbitrary: res nl)
  case (Cons c xs)
  have "prefix res (unfold_from (res @ value_chars nl res c) False xs)"
    using Cons.IH by (rule append_prefixD)
  then show ?case using Cons.IH by simp
qed simp

lemma copy_value_unfold:
  "drop pos b = xs @ r \<Longrightarrow> length (unfold_from res nl xs) < lim \<Longrightarrow> 2 \<le> lim \<Longrightarrow>
   copy_value lim b pos (length xs) res nl = Some (unfold_from res nl xs)"
proof (induction xs arbitrary: pos res nl)
  case (Cons c xs)
  have d: "drop (Suc pos) b = xs @ r" "rd b pos = Some c"
    using Cons.prems(1) drop_eq_ConsD [of pos b c "xs @ r"] by (simp_all add: rd_drop)
  obtain z where z: "unfold_from res nl (c # xs) = res @ z"
    using unfold_from_prefix [of res nl "c # xs"] by (auto simp: prefix_def)
  show ?case
  proof (cases "length res > lim - 2")
    case True
    then have "z = []" using Cons.prems(2) unfolding z by (cases z) auto
    then show ?thesis using True unfolding z by simp
  next
    case False
    then have p: "push lim res (value_chars nl res c) = Some (res @ value_chars nl res c)"
      using length_value_chars [of nl res c] Cons.prems(2,3) unfolding z by (simp add: push_def)
    show ?thesis
      by (cases "c = CR"; cases "c = LF") (use False Cons.prems(2,3) d p Cons.IH [OF d(1)] in auto)
  qed
qed simp

lemma unfold_from_line: "CR \<notin> set t \<Longrightarrow> LF \<notin> set t \<Longrightarrow> unfold_from res False (t @ xs) = unfold_from (res @ t) False xs"
  by (induction t arbitrary: res) (auto simp: value_chars_def)

lemma unfold_from_conts:
  "plain_conts cs \<Longrightarrow> eol = [CR, LF] \<or> eol = [LF] \<Longrightarrow> res \<noteq> [] \<Longrightarrow> unfold_from res False (conts eol cs) = unfolded res cs"
proof (induction cs arbitrary: res)
  case (Cons c cs)
  obtain w t where c: "c = (w, t)" by (cases c)
  have "plain_conts cs" and t: "CR \<notin> set t" "LF \<notin> set t" and w: "w = SPACE \<or> w = TAB"
    using Cons.prems(1) by (auto simp: plain_conts_def plain_line_def c)
  let ?res = "res @ (if last res = SPACE then [] else [SPACE])"
  have "unfold_from res False (conts eol (c # cs)) = unfold_from ?res False (t @ conts eol cs)"
    using Cons.prems(2,3) w by (auto simp: c value_chars_def)
  also have "\<dots> = unfolded res (c # cs)"
    using Cons.IH [of "?res @ t"] \<open>plain_conts cs\<close> Cons.prems(2,3)
    by (simp add: unfold_from_line [OF t] c)
  finally show ?case .
qed simp

section \<open>The end of a value\<close>

lemma strstr_not_in: "c \<notin> set s \<Longrightarrow> strstr s (c # n) = None"
  by (induction s) auto

lemma next_newline_line:
  assumes "plain_line t"
  shows "next_newline t = None" "next_newline (t @ CR # LF # y) = Some (length t)"
    "CR \<notin> set y \<Longrightarrow> next_newline (t @ LF # y) = Some (length t)"
  using assms strstr_skip [of CR t "CR # LF # y" "[LF]"] strstr_skip [of LF t "LF # y" "[]"]
  by (auto simp: next_newline_def plain_line_def strstr_not_in)

lemma str_at_drop: "drop i b = s @ NUL # r \<Longrightarrow> NUL \<notin> set s \<Longrightarrow> str_at b i = Some s"
  by (simp add: str_at_def terminated_def cstr_append_NUL cstr_id)

text \<open>What may follow a value: nothing, or the end of the line and another header.\<close>

definition ends_value :: "string \<Rightarrow> string \<Rightarrow> bool" where
  "ends_value eol tail \<longleftrightarrow> tail = [] \<or> (\<exists>rest. tail = eol @ rest \<and> (rest = [] \<or> hd rest \<noteq> SPACE \<and> hd rest \<noteq> TAB))"

lemma find_value_end_step:
  assumes "str_at b pos = Some s" "next_newline s = Some k" "pos + k < he" "rd b (pos + k) = Some c"
    "(if c = CR then 2 else 1) = l" "rd b (pos + k + l) = Some d"
  shows "find_value_end b he pos =
    (if d = SPACE \<or> d = TAB then find_value_end b he (pos + k + l)
     else if pos + k + l < 2 then None
     else do { e \<leftarrow> rd b (pos + k + l - 2); Some (pos + k + l - (if e = CR then 2 else 1)) })"
  using assms(3) by (subst find_value_end.simps) (simp add: Let_def assms(1,2,4,5,6))

lemma find_value_end_value:
  assumes "eol = [CR, LF] \<or> eol = [LF] \<and> CR \<notin> set tail" "ends_value eol tail" "NUL \<notin> set tail"
  shows "drop pos b = v @ conts eol cs @ tail @ NUL # r \<Longrightarrow> v \<noteq> [] \<Longrightarrow> plain_line v \<Longrightarrow> plain_conts cs \<Longrightarrow>
    find_value_end b (pos + length (v @ conts eol cs @ tail)) pos = Some (pos + length (v @ conts eol cs))"
proof (induction cs arbitrary: pos v)
  case Nil
  have s: "str_at b pos = Some (v @ tail)"
    using Nil(1,3) assms(3) by (intro str_at_drop [where r = r]) (auto simp: plain_line_def)
  show ?case
  proof (cases "tail = []")
    case True
    then show ?thesis using Nil s by (subst find_value_end.simps) (simp add: next_newline_line)
  next
    case False
    then obtain rest where t: "tail = eol @ rest" "rest = [] \<or> hd rest \<noteq> SPACE \<and> hd rest \<noteq> TAB"
      using assms(2) by (auto simp: ends_value_def)
    have "drop pos b = (v @ eol @ rest @ [NUL]) @ r" using Nil(1) t by simp
    note at = rd_drop_nth [OF this]
    have "CR \<notin> set v" "last v \<noteq> CR"
      using Nil(2,3) last_in_set [OF Nil(2)] unfolding plain_line_def by metis+
    have nn: "next_newline (v @ tail) = Some (length v)"
      using assms(1) Nil(3) t(1) by (auto simp: next_newline_line)
    have c: "rd b (pos + length v) = Some (hd eol)"
      using at [of "length v"] assms(1) by (auto simp: nth_append)
    have n: "rd b (pos + length v + length eol) = Some (hd (rest @ [NUL]))"
      using at [of "length v + length eol"] by (cases rest) (simp_all add: nth_append add.assoc)
    have l: "(if hd eol = CR then 2 else 1) = length eol" using assms(1) by auto
    obtain m where m: "length v = Suc m" using Nil(2) by (cases v) auto
    have e: "\<exists>e. rd b (pos + length v + length eol - 2) = Some e \<and> (if e = CR then 2 else 1) = length eol"
    proof (cases "eol = [CR, LF]")
      case True
      then have "rd b (pos + length v + length eol - 2) = Some CR" using c by simp
      then show ?thesis using True by simp
    next
      case False
      then have "eol = [LF]" using assms(1) by simp
      then have "rd b (pos + length v + length eol - 2) = Some (last v)"
        using at [of m] Nil(2) m by (simp add: nth_append last_conv_nth)
      then show ?thesis using \<open>eol = [LF]\<close> \<open>last v \<noteq> CR\<close> by simp
    qed
    have h: "\<not> (hd (rest @ [NUL]) = SPACE \<or> hd (rest @ [NUL]) = TAB)" using t(2) by (cases rest) auto
    show ?thesis
      using find_value_end_step [OF s nn _ c l n, of "pos + length (v @ conts eol [] @ tail)"] e h m assms(1)
      by (auto simp: t(1))
  qed
next
  case (Cons c cs)
  obtain w t where wt: "c = (w, t)" by (cases c)
  have p: "plain_conts cs" "plain_line t" "w = SPACE \<or> w = TAB"
    using Cons.prems(4) by (auto simp: plain_conts_def wt)
  then have pl: "plain_line (w # t)" by (auto simp: plain_line_def)
  have eol: "NUL \<notin> set eol" using assms(1) by auto
  have nc: "NUL \<notin> set (conts eol cs)" if "plain_conts cs" for cs
    using that eol by (auto simp: conts_def plain_conts_def plain_line_def)
  have cc: "CR \<notin> set (conts [LF] cs)" if "plain_conts cs" for cs
    using that by (auto simp: conts_def plain_conts_def plain_line_def)
  let ?y = "w # t @ conts eol cs @ tail"
  have s: "str_at b pos = Some (v @ eol @ ?y)"
    using Cons.prems(1,3) assms(3) eol p pl nc by (intro str_at_drop [where r = r]) (auto simp: plain_line_def wt)
  have nn: "next_newline (v @ eol @ ?y) = Some (length v)"
    using assms(1) Cons.prems(3) p pl cc [OF p(1)] by (auto simp: next_newline_line plain_line_def)
  have "drop pos b = (v @ eol @ [w]) @ t @ conts eol cs @ tail @ NUL # r" using Cons.prems(1) by (simp add: wt)
  note at = rd_drop_nth [OF this]
  have c: "rd b (pos + length v) = Some (hd eol)" using at [of "length v"] assms(1) by (auto simp: nth_append)
  have n: "rd b (pos + length v + length eol) = Some w"
    using at [of "length v + length eol"] by (simp add: nth_append add.assoc)
  have l: "(if hd eol = CR then 2 else 1) = length eol" using assms(1) by auto
  have d: "drop (pos + length v + length eol) b = (w # t) @ conts eol cs @ tail @ NUL # r"
    using drop_eq_appendD [of pos b "v @ eol"] Cons.prems(1) by (simp add: wt add.assoc)
  have "find_value_end b (pos + length v + length eol + length ((w # t) @ conts eol cs @ tail)) (pos + length v + length eol) =
      Some (pos + length v + length eol + length ((w # t) @ conts eol cs))"
    using Cons.IH [OF d _ pl p(1)] by simp
  then show ?case
    using find_value_end_step [OF s nn _ c l n, of "pos + length (v @ conts eol ((w, t) # cs) @ tail)"] p(3)
    by (auto simp: wt add.assoc)
qed


section \<open>Finding and extracting a header\<close>

lemma unfolded_no_NUL: "NUL \<notin> set v \<Longrightarrow> plain_conts cs \<Longrightarrow> NUL \<notin> set (unfolded v cs)"
  by (induction v cs rule: unfolded.induct) (auto simp: plain_conts_def plain_line_def)

lemma at_line_start_text:
  assumes "drop p b = pre @ y" "pre = [] \<or> last pre = LF"
  shows "at_line_start b p (p + length pre) = Some True"
proof (cases pre rule: rev_cases)
  case (snoc q c)
  then have "rd b (p + length q) = Some LF" using assms rd_drop_nth [of p b pre y "length q"] by simp
  then show ?thesis using snoc by (simp add: at_line_start_def)
qed (simp add: at_line_start_def)

lemma find_header_first:
  assumes "drop p b = (pre @ y) @ NUL # r" "NUL \<notin> set (pre @ y)" "strcasestr (pre @ y) name = Some (length pre)"
    "pre = [] \<or> last pre = LF"
  shows "find_header b p name p = Some (Some (p, p + length pre))"
  using at_line_start_text [of p b pre "y @ NUL # r"] assms(1,4) str_at_drop [OF assms(1,2)] assms(3)
  by (subst find_header.simps) simp

lemma extract_header_value_value:
  assumes "drop p b = pre @ nm @ ws @ v @ conts eol cs @ tail @ NUL # r"
    and "NUL \<notin> set (pre @ nm @ ws @ v @ conts eol cs @ tail)"
    and "strcasestr (pre @ nm @ ws @ v @ conts eol cs @ tail) name = Some (length pre)" "length nm = length name"
    and "pre = [] \<or> last pre = LF" "\<forall>c\<in>set ws. isspace c"
    and "v \<noteq> []" "\<not> isspace (hd v)" "plain_line v" "plain_conts cs"
    and "eol = [CR, LF] \<or> eol = [LF] \<and> CR \<notin> set tail" "ends_value eol tail"
    and "length (unfolded v cs) < lim" "2 \<le> lim"
  shows "extract_header_value iconv b p (length (pre @ nm @ ws @ v @ conts eol cs @ tail)) name lim =
    (if name = HEADER_SUBJECT \<or> name = HEADER_FROM
     then map_option Some (fixup_encoded_header iconv (unfolded v cs) (length (unfolded v cs) + 1))
     else Some (Some (unfolded v cs)))"
proof -
  let ?s = "pre @ nm @ ws @ v @ conts eol cs @ tail" and ?t = "ws @ v @ conts eol cs @ tail"
  have d: "drop p b = ?s @ NUL # r" using assms(1) by simp
  have "find_header b p name p = Some (Some (p, p + length pre))"
    using d assms(2,3,5) by (intro find_header_first) simp_all
  moreover have dt: "drop (p + length pre + length name) b = ?t @ NUL # r"
    using drop_eq_appendD [of p b "pre @ nm"] assms(1,4) by (simp add: add.assoc)
  then have "str_at b (p + length pre + length name) = Some ?t" using assms(2) by (intro str_at_drop) auto
  moreover have "takeWhile isspace ?t = ws"
    using assms(6,7,8) by (cases v) (simp_all add: takeWhile_append2)
  moreover have dv: "drop (p + length pre + length name + length ws) b = v @ conts eol cs @ tail @ NUL # r"
    using drop_eq_appendD [OF dt [unfolded append_assoc]] by simp
  have "find_value_end b (p + length ?s) (p + length pre + length name + length ws) =
      Some (p + length pre + length name + length ws + length (v @ conts eol cs))"
    using find_value_end_value [OF assms(11,12) _ dv assms(7,9,10)] assms(2,4) by (simp add: add.assoc)
  moreover have u: "unfold_from [] False (v @ conts eol cs) = unfolded v cs"
    using assms(7,9,10,11) by (auto simp: plain_line_def unfold_from_line unfold_from_conts)
  have "copy_value lim b (p + length pre + length name + length ws) (length (v @ conts eol cs)) [] False =
      Some (unfolded v cs)"
    using copy_value_unfold [of _ b "v @ conts eol cs" _ "[]" False lim] dv assms(13,14) u by simp
  moreover have "cstr (unfolded v cs) = unfolded v cs"
    using assms(9,10) by (intro cstr_id unfolded_no_NUL) (auto simp: plain_line_def)
  ultimately show ?thesis
    using assms(13) by (simp add: extract_header_value_def Let_def)
qed

text \<open>
  C25: A header at the beginning of a line, whose name occurs nowhere before, is found, and its value is
  unfolded: without the white space in front of it, every line break and the blank that follows it
  replaced by one space.  The values of the subject and of the sender are decoded as well.
\<close>

theorem extract_header_value_unfolds:
  assumes "drop p b = pre @ nm @ ws @ v @ conts eol cs @ tail @ NUL # r"
    and "NUL \<notin> set (pre @ nm @ ws @ v @ conts eol cs @ tail)"
    and "strcasestr (pre @ nm @ ws @ v @ conts eol cs @ tail) name = Some (length pre)" "length nm = length name"
    and "pre = [] \<or> last pre = LF" "\<forall>c\<in>set ws. isspace c"
    and "v \<noteq> []" "\<not> isspace (hd v)" "plain_line v" "plain_conts cs"
    and "eol = [CR, LF] \<or> eol = [LF] \<and> CR \<notin> set tail" "ends_value eol tail"
    and "length (unfolded v cs) < lim" "2 \<le> lim"
  shows "extract_header_value iconv b p (length (pre @ nm @ ws @ v @ conts eol cs @ tail)) name lim =
    (if name = HEADER_SUBJECT \<or> name = HEADER_FROM
     then map_option Some (fixup_encoded_header iconv (unfolded v cs) (length (unfolded v cs) + 1))
     else Some (Some (unfolded v cs)))"
  by (rule extract_header_value_value [OF assms])

lemma extract_header_value_unfolds_witness:
  "extract_header_value (\<lambda>_. None) (''To: a'' @ [LF] @ ''x-id:  b'' @ [LF, TAB] @ ''c'' @ [LF] @ ''Y: d'' @ [NUL]) 0
     22 ''X-Id:'' 100 = Some (Some ''b c'')"
proof -
  let ?s = "(''To: a'' @ [LF]) @ ''x-id:'' @ ''  '' @ ''b'' @ conts [LF] [(TAB, ''c'')] @ [LF] @ ''Y: d''"
  have "strcasestr ?s ''X-Id:'' = Some 6" by code_simp
  then show ?thesis
    using extract_header_value_unfolds [of 0 "?s @ [NUL]" "''To: a'' @ [LF]" "''x-id:''" "''  ''" "''b''" "[LF]"
        "[(TAB, ''c'')]" "[LF] @ ''Y: d''" "[]" "''X-Id:''" 100 "\<lambda>_. None"]
    by (simp add: plain_line_def plain_conts_def isspace_def ends_value_def eval_nat_numeral(2,3))
qed

text \<open>The white space that is skipped may be the end of the line: an empty header has the next line as its value.\<close>

lemma extract_empty_header:
  "extract_header_value (\<lambda>_. None) (''X-Id:'' @ [LF] @ ''To: a'' @ [LF, NUL]) 0 12 ''X-Id:'' 100 = Some (Some ''To: a'')"
proof -
  let ?s = "[] @ ''X-Id:'' @ [LF] @ ''To: a'' @ conts [LF] [] @ [LF]"
  have "strcasestr ?s ''X-Id:'' = Some 0" by code_simp
  then show ?thesis
    using extract_header_value_value [of 0 "?s @ [NUL]" "[]" "''X-Id:''" "[LF]" "''To: a''" "[LF]"
        "[]" "[LF]" "[]" "''X-Id:''" 100 "\<lambda>_. None"]
    by (simp add: plain_line_def plain_conts_def isspace_def ends_value_def eval_nat_numeral(2,3))
qed

section \<open>Reading and writing outside\<close>

lemma copy_value_overread:
  "drop pos b = xs \<Longrightarrow> pos \<le> length b \<Longrightarrow> length xs < n \<Longrightarrow> length (unfold_from res nl xs) < lim - 1 \<Longrightarrow>
   copy_value lim b pos n res nl = None"
proof (induction xs arbitrary: pos n res nl)
  case Nil
  then show ?case by (cases n) (auto simp: rd_def)
next
  case (Cons c xs)
  obtain m where n: "n = Suc m" "length xs < m" using Cons.prems(3) by (cases n) auto
  have d: "drop (Suc pos) b = xs" "rd b pos = Some c" "Suc pos \<le> length b"
    using Cons.prems(1,2) drop_eq_ConsD [of pos b c xs] by (simp_all add: rd_drop)
  obtain z where z: "unfold_from res nl (c # xs) = res @ z"
    using unfold_from_prefix [of res nl "c # xs"] by (auto simp: prefix_def)
  have l: "\<not> length res > lim - 2" using Cons.prems(4) unfolding z by simp
  then have "push lim res (value_chars nl res c) = Some (res @ value_chars nl res c)"
    using length_value_chars [of nl res c] Cons.prems(4) unfolding z push_def by simp
  then show ?case
    by (cases "c = CR"; cases "c = LF") (use l Cons.prems(4) d n Cons.IH [OF d(1,3) n(2)] in auto)
qed

text \<open>
  The end of the headers is computed from the place where the search went on, not from the
  beginning: when the name also occurs inside an earlier line, and the header is the last line of the
  text, the value is read past the end of the block.
\<close>

theorem extract_header_value_overread:
  assumes "strcasestr (x @ nm @ y @ LF # nm @ v) name = Some (length x)" "strcasestr (y @ LF # nm @ v) name = Some (Suc (length y))"
    and "length nm = length name" "2 \<le> length name" "x \<noteq> []" "last x \<noteq> LF" "last x \<noteq> CR"
    and "NUL \<notin> set (x @ nm @ y @ LF # nm @ v)" "plain_line v" "v \<noteq> []" "\<not> isspace (hd v)" "length v + 2 < lim"
  shows "extract_header_value iconv (x @ nm @ y @ LF # nm @ v @ [NUL]) 0 (length (x @ nm @ y @ LF # nm @ v)) name lim = None"
proof -
  let ?s = "x @ nm @ y @ LF # nm @ v" and ?b = "x @ nm @ y @ LF # nm @ v @ [NUL]"
  let ?d = "length x + length name" and ?h = "length x + length name + Suc (length y)"
  let ?vs = "length x + length name + Suc (length y) + length name"
  have dd: "drop ?d ?b = (y @ LF # nm @ v) @ NUL # []" using assms(3) by simp
  have dv: "drop ?vs ?b = v @ NUL # []" using assms(3) by simp
  have "str_at ?b 0 = Some ?s" using assms(8) by (intro str_at_drop [where r = "[]"]) auto
  moreover have "at_line_start ?b 0 (length x) = Some False"
    using assms(5-7) by (simp add: at_line_start_def rd_def nth_append last_conv_nth)
  moreover have "str_at ?b ?d = Some (y @ LF # nm @ v)" using assms(8) by (intro str_at_drop [OF dd]) auto
  moreover have "at_line_start ?b 0 ?h = Some True"
    using rd_drop_nth [OF dd, of "length y"] by (simp add: at_line_start_def nth_append)
  ultimately have "find_header ?b 0 name 0 = Some (Some (?d, ?h))"
    using assms(1,2,4) by (simp add: find_header.simps [of ?b 0 name 0] find_header.simps [of ?b 0 name ?d] max_def)
  moreover have sv: "str_at ?b ?vs = Some v" using assms(8) by (intro str_at_drop [OF dv]) auto
  moreover have "takeWhile isspace v = []" using assms(10,11) by (cases v) auto
  moreover have "find_value_end ?b (?d + length ?s) ?vs = Some (?d + length ?s)"
    using assms(3,5) next_newline_line(1) [OF assms(9)] by (subst find_value_end.simps) (simp add: sv [simplified])
  moreover have "copy_value lim ?b ?vs (?d + length ?s - ?vs) [] False = None"
  proof (rule copy_value_overread [OF dv])
    have "unfold_from [] False (v @ [NUL]) = v @ [NUL]"
      using assms(9) by (auto simp: unfold_from_line plain_line_def value_chars_def)
    then show "length (unfold_from [] False (v @ [NUL])) < lim - 1" using assms(12) by simp
  qed (use assms(3,4,5) in \<open>auto simp: Suc_le_eq\<close>)
  ultimately show ?thesis by (simp add: extract_header_value_def Let_def)
qed

lemma extract_header_value_overread_witness:
  "extract_header_value (\<lambda>_. None) (''Old-From:a'' @ [LF] @ ''From:b'' @ [NUL]) 0 17 HEADER_FROM 512 = None"
proof -
  have "strcasestr (''Old-'' @ HEADER_FROM @ ''a'' @ LF # HEADER_FROM @ ''b'') HEADER_FROM = Some (length ''Old-'')"
    "strcasestr (''a'' @ LF # HEADER_FROM @ ''b'') HEADER_FROM = Some (Suc (length ''a''))" by code_simp+
  from extract_header_value_overread [OF this, of 512 "\<lambda>_. None"] show ?thesis
    by (simp add: plain_line_def isspace_def eval_nat_numeral(2,3))
qed

text \<open>
  A line break inside the value that no blank follows is replaced by a space in front of the next byte:
  two bytes are written after a check for one, and the terminator behind them falls outside the array.
\<close>

lemma copy_value_line:
  "plain_line v \<Longrightarrow> drop pos b = v @ r \<Longrightarrow> length res + length v < lim \<Longrightarrow>
   copy_value lim b pos (length v + n) res False = copy_value lim b (pos + length v) n (res @ v) False"
proof (induction v arbitrary: pos res)
  case (Cons c v)
  have d: "drop (Suc pos) b = v @ r" "rd b pos = Some c"
    using Cons.prems(2) drop_eq_ConsD [of pos b c "v @ r"] by (simp_all add: rd_drop)
  have "plain_line v" "c \<noteq> CR" "c \<noteq> LF" using Cons.prems(1) by (auto simp: plain_line_def)
  moreover have "\<not> length res > lim - 2" using Cons.prems(3) by simp
  ultimately show ?case
    using Cons.IH [OF _ d(1), of "res @ [c]"] Cons.prems(3) d(2) by (simp add: value_chars_def push_def)
qed simp

lemma copy_value_fills_array:
  assumes "plain_line v" "length v = lim - 2" "2 \<le> lim" "c \<noteq> CR" "c \<noteq> LF" "c \<noteq> SPACE" "c \<noteq> TAB"
    and "drop pos b = v @ LF # c # r"
  shows "copy_value lim b pos (length v + 2) [] False = Some (v @ [SPACE, c])" "length (v @ [SPACE, c]) = lim"
proof -
  have "drop (pos + length v) b = LF # c # r" using drop_eq_appendD [OF assms(8)] .
  then have "rd b (pos + length v) = Some LF" "rd b (Suc (pos + length v)) = Some c"
    using drop_eq_ConsD [of "pos + length v" b LF "c # r"] by (simp_all add: rd_drop)
  then show "copy_value lim b pos (length v + 2) [] False = Some (v @ [SPACE, c])"
    using copy_value_line [OF assms(1,8), of "[]" lim 2] assms(2-7)
    by (simp add: eval_nat_numeral(2) value_chars_def push_def)
  show "length (v @ [SPACE, c]) = lim" using assms(2,3) by simp
qed

section \<open>Parameters\<close>

lemma extract_token:
  assumes "strstr (pre @ name @ p) name = Some (length pre)" "length (pre @ name @ p) < SMALLBUFSIZE - 2"
  shows "extract_token_from_header_line iconv (pre @ name @ p) name n =
    (case strchr p (CHR ''='') of
       None \<Rightarrow> Some []
     | Some k \<Rightarrow>
         let v = parameter_value (drop (Suc k) p) in
         if p \<noteq> [] \<and> hd p = CHR ''*''
         then (let (encoding, u) = extended_value v in
               if length encoding > 2 \<and> \<not> strcasecmp_eq encoding ''utf-8''
               then Some (cstr (snd (utf8_encode iconv u (int n - 1) encoding)))
               else Some (snprintf_s (n - 1) u))
         else map_option (snprintf_s (n - 1))
                (fixup_encoded_header iconv (snprintf_s (SMALLBUFSIZE - 1) v) SMALLBUFSIZE))"
  using assms by (simp add: extract_token_from_header_line_def snprintf_s_fits Let_def)

text \<open>
  The parameter of a header line: the text between double quotes or up to a semicolon, with its
  encoded words decoded; in the extended notation, when the text is UTF-8, what follows the second quote.
\<close>

theorem extract_token_parameter:
  assumes "strstr (pre @ name @ p) name = Some (length pre)" "length (pre @ name @ p) < SMALLBUFSIZE - 2" "length v < 510"
    and "p = ''='' @ DQUOTE # v @ DQUOTE # rest \<and> DQUOTE \<notin> set v \<or>
      p = ''='' @ v @ CHR '';'' # rest \<and> CHR '';'' \<notin> set v \<and> v \<noteq> [] \<and> hd v \<notin> {SPACE, TAB, DQUOTE} \<or>
      p = ''*='' @ cs @ SQUOTE # lang @ SQUOTE # v \<and> cs \<in> {''utf-8'', ''UTF-8''} \<and> SQUOTE \<notin> set lang \<and> CHR '';'' \<notin> set (lang @ v)"
  shows "extract_token_from_header_line iconv (pre @ name @ p) name n =
    (if hd p = CHR ''*'' then Some (snprintf_s (n - 1) v)
     else map_option (snprintf_s (n - 1)) (fixup_encoded_header iconv v SMALLBUFSIZE))"
  using assms(4)
proof (elim disjE conjE)
  assume p: "p = ''='' @ DQUOTE # v @ DQUOTE # rest" "DQUOTE \<notin> set v"
  then have "parameter_value (drop 1 p) = v"
    by (simp add: parameter_value_def takeWhile_neq_append_stop)
  then show ?thesis unfolding extract_token [OF assms(1,2)] using assms(3) p(1) by (simp add: snprintf_s_fits)
next
  assume p: "p = ''='' @ v @ CHR '';'' # rest" "CHR '';'' \<notin> set v" "v \<noteq> []" "hd v \<notin> {SPACE, TAB, DQUOTE}"
  then have "parameter_value (drop 1 p) = v"
    by (cases v) (auto simp: parameter_value_def takeWhile_neq_append_stop)
  then show ?thesis unfolding extract_token [OF assms(1,2)] using assms(3) p(1) by (simp add: snprintf_s_fits)
next
  let ?v = "cs @ SQUOTE # lang @ SQUOTE # v"
  assume p: "p = ''*='' @ ?v" "cs \<in> {''utf-8'', ''UTF-8''}" "SQUOTE \<notin> set lang" "CHR '';'' \<notin> set (lang @ v)"
  have u: "strcasecmp_eq ''utf-8'' ''utf-8''" "strcasecmp_eq ''UTF-8'' ''utf-8''" by code_simp+
  have ev: "extended_value ?v = (cs, v)"
    using p(2,3) by (auto simp: extended_value_def strchr_takeWhile takeWhile_neq_append_stop)
  have "takeWhile (\<lambda>c. c \<noteq> CHR '';'') ?v = ?v" using p(2,4) by (auto simp: takeWhile_eq_all_conv)
  moreover have "?v \<noteq> []" "hd ?v = CHR ''u'' \<or> hd ?v = CHR ''U''" using p(2) by auto
  then have "dropWhile (\<lambda>c. c = SPACE \<or> c = TAB) ?v = ?v" "hd ?v \<noteq> DQUOTE" using p(2) by auto
  ultimately have "parameter_value ?v = ?v" unfolding parameter_value_def Let_def by (simp only: if_False simp_thms)
  moreover note ev
  moreover have "strcasecmp_eq cs ''utf-8''" using p(2) u by auto
  moreover have "strchr p (CHR ''='') = Some 1" "drop (Suc 1) p = ?v" "hd p = CHR ''*''" "p \<noteq> []"
    using p(1) by simp_all
  ultimately show ?thesis unfolding extract_token [OF assms(1,2)] by (simp only: option.case Let_def prod.case) simp
qed

lemma extract_token_parameter_witness:
  "extract_token_from_header_line (\<lambda>_. None) (''text/plain; name*=utf-8'' @ SQUOTE # ''en'' @ SQUOTE # ''a%20b'') ''name'' 100 =
     Some ''a%20b''"
proof -
  let ?pre = "''text/plain; ''" and ?p = "''*=utf-8'' @ SQUOTE # ''en'' @ SQUOTE # ''a%20b''"
  have "strstr (?pre @ ''name'' @ ?p) ''name'' = Some (length ?pre)" by code_simp
  from extract_token_parameter [OF this, of "''a%20b''" "[]" "''utf-8''" "''en''" "\<lambda>_. None" 100] show ?thesis
    by (simp add: snprintf_s_fits)
qed


section \<open>Every header is decoded\<close>

lemma set_snprintf_s: "set (snprintf_s n s) \<subseteq> set s"
  by (auto simp: snprintf_s_def dest: in_set_takeD)

lemma next_word_set:
  assumes "next_word p = (u, encoding, kind, p')"
  shows "set u \<subseteq> set p" "\<forall>q. p' = Some q \<longrightarrow> set q \<subseteq> set p"
proof -
  obtain q n where q: "suffix q p" "u = take n q" "\<forall>r. p' = Some r \<longrightarrow> suffix r q"
    using next_word_part [OF assms] by blast
  show "set u \<subseteq> set p" using q(1,2) set_take_subset [of n q] set_mono_suffix [of q p] by blast
  show "\<forall>q. p' = Some q \<longrightarrow> set q \<subseteq> set p" using q(1,3) set_mono_suffix by blast
qed

lemma word_text_no_NUL: "NUL \<notin> set u \<Longrightarrow> NUL \<notin> set (word_text kind u)"
  by (cases kind) (simp_all add: word_text_def)

lemma convert_word_no_NUL: "NUL \<notin> set u \<Longrightarrow> NUL \<notin> set (convert_word iconv kind encoding u)"
  by (simp add: convert_word_def case_prod_beta)

lemma append_puf_no_NUL: "NUL \<notin> set p \<Longrightarrow> NUL \<notin> set s \<Longrightarrow> NUL \<notin> set (append_puf p s)"
  by (simp add: append_puf_def)

lemma fixup_round_total:
  assumes "NUL \<notin> set p" "NUL \<notin> set (fx_puf st)"
  shows "\<exists>p' st'. fixup_round iconv p st = Some (p', st') \<and> NUL \<notin> set (fx_puf st') \<and> (\<forall>q. p' = Some q \<longrightarrow> NUL \<notin> set q)"
proof -
  obtain u encoding kind p' where n: "next_word p = (u, encoding, kind, p')" by (metis prod_cases4)
  have u: "NUL \<notin> set u" "\<forall>q. p' = Some q \<longrightarrow> NUL \<notin> set q" using next_word_set [OF n] assms(1) by auto
  have "NUL \<notin> set (append_puf (if b then fx_puf st else if c then append_puf (fx_puf st) [SPACE] else fx_puf st)
      (convert_word iconv kind encoding (word_text kind u)))" for b c
    using assms(2) u(1) by (simp add: append_puf_no_NUL convert_word_no_NUL word_text_no_NUL)
  then show ?thesis
    using u assms(2) unfolding fixup_round_def n prod.case decode_word [OF u(1)] by (simp add: Let_def)
qed

lemma fixup_word_total:
  "NUL \<notin> set p \<Longrightarrow> NUL \<notin> set (fx_puf st) \<Longrightarrow> \<exists>st'. fixup_word iconv p st = Some st' \<and> NUL \<notin> set (fx_puf st')"
proof (induction p arbitrary: st rule: length_induct)
  case (1 p)
  obtain p' st' where r: "fixup_round iconv p st = Some (p', st')" "NUL \<notin> set (fx_puf st')"
    "\<forall>q. p' = Some q \<longrightarrow> NUL \<notin> set q"
    using fixup_round_total [OF 1(2,3)] by blast
  show ?case
  proof (cases p')
    case None
    then show ?thesis using r by (subst fixup_word.simps) simp
  next
    case (Some q)
    then have "length q < length p" using r(1) fixup_round_shorter by blast
    then show ?thesis using 1(1) r Some by (subst fixup_word.simps) simp
  qed
qed

lemma set_rstrip: "set (rstrip_newlines s) \<subseteq> set s"
  by (auto simp: rstrip_newlines_def dest: set_dropWhileD)

lemma fixup_words_total:
  "\<forall>v\<in>set vs. NUL \<notin> set v \<Longrightarrow> NUL \<notin> set (fx_puf st) \<Longrightarrow>
   \<exists>st'. fixup_words iconv vs st = Some st' \<and> NUL \<notin> set (fx_puf st')"
proof (induction vs arbitrary: st)
  case (Cons v vs)
  then have "NUL \<notin> set (chop_string v)" using set_rstrip by (auto simp: chop_string_rstrip)
  then obtain st' where "fixup_word iconv (chop_string v) st = Some st'" "NUL \<notin> set (fx_puf st')"
    using fixup_word_total Cons.prems(2) by blast
  then show ?case using Cons by auto
qed simp

lemma set_join: "f \<in> set fs \<Longrightarrow> set f \<subseteq> set (join ch fs)"
  by (induction fs) (auto simp: join_Cons)

lemma fixup_encoded_header_total:
  assumes "NUL \<notin> set buf"
  shows "\<exists>r. fixup_encoded_header iconv buf n = Some r \<and> NUL \<notin> set r \<and> (5 \<le> n \<longrightarrow> length r < n)"
proof -
  have "NUL \<notin> set v" if v: "v \<in> set (split_all 8192 SPACE buf)" for v
  proof -
    have "split_all 8192 SPACE buf = map (take 8191) (cut_at SPACE buf)" by (simp add: split_all_cut_at)
    then obtain f where "f \<in> set (cut_at SPACE buf)" "v = take 8191 f" using v by auto
    then have "f \<in> set (cut_at SPACE buf)" "set v \<subseteq> set f" using set_take_subset [of 8191 f] by blast+
    then show ?thesis using set_join [of f "cut_at SPACE buf" SPACE] assms by auto
  qed
  then obtain st where "fixup_words iconv (split_all 8192 SPACE buf)
      \<lparr>fx_puf = [], fx_prev_encoded = False, fx_n_tokens = 0\<rparr> = Some st" "NUL \<notin> set (fx_puf st)"
    using fixup_words_total [of "split_all 8192 SPACE buf" "\<lparr>fx_puf = [], fx_prev_encoded = False, fx_n_tokens = 0\<rparr>" iconv]
    by auto
  then show ?thesis using assms set_snprintf_s [of n "fx_puf st"] by (auto simp: fixup_encoded_header_def snprintf_s_def)
qed

lemma set_takeWhile: "set (takeWhile P s) \<subseteq> set s"
  by (auto dest: set_takeWhileD)

lemma parameter_value_set: "set (parameter_value p) \<subseteq> set p"
proof -
  let ?q = "dropWhile (\<lambda>c. c = SPACE \<or> c = TAB) p"
  have q: "set ?q \<subseteq> set p" by (auto dest: set_dropWhileD)
  have t: "set (tl q) \<subseteq> set q" for q :: string by (cases q) auto
  show ?thesis
  proof (cases "?q \<noteq> [] \<and> hd ?q = DQUOTE")
    case True
    have "parameter_value p = takeWhile (\<lambda>c. c \<noteq> DQUOTE) (tl ?q)"
      unfolding parameter_value_def Let_def if_P [OF True] ..
    then show ?thesis using set_takeWhile [of "\<lambda>c. c \<noteq> DQUOTE" "tl ?q"] t [of ?q] q by simp
  next
    case False
    have "parameter_value p = takeWhile (\<lambda>c. c \<noteq> CHR '';'') ?q"
      unfolding parameter_value_def Let_def if_not_P [OF False] ..
    then show ?thesis using set_takeWhile [of "\<lambda>c. c \<noteq> CHR '';''" ?q] q by simp
  qed
qed

lemma extended_value_set: "extended_value p = (e, u) \<Longrightarrow> set u \<subseteq> set p"
  by (auto simp: extended_value_def split: option.splits dest: in_set_dropD)

lemma extract_token_total:
  assumes "NUL \<notin> set buffer"
  shows "\<exists>r. extract_token_from_header_line iconv buffer name n = Some r \<and> NUL \<notin> set r"
proof -
  let ?buf = "snprintf_s (SMALLBUFSIZE - 1) buffer"
  have b: "NUL \<notin> set ?buf" using assms set_snprintf_s by blast
  show ?thesis
  proof (cases "strstr ?buf name")
    case (Some i)
    let ?p = "drop (i + length name) ?buf"
    show ?thesis
    proof (cases "strchr ?p (CHR ''='')")
      case (Some k)
      let ?v = "parameter_value (drop (Suc k) ?p)"
      have v: "NUL \<notin> set ?v" using b parameter_value_set [of "drop (Suc k) ?p"] by (auto dest: in_set_dropD)
      obtain e u where eu: "extended_value ?v = (e, u)" by (cases "extended_value ?v")
      have "NUL \<notin> set u" using v extended_value_set [OF eu] by blast
      then have u: "NUL \<notin> set (snprintf_s m u)" for m using set_snprintf_s by blast
      have "NUL \<notin> set (snprintf_s (SMALLBUFSIZE - 1) ?v)" using v set_snprintf_s by blast
      from fixup_encoded_header_total [OF this, of iconv SMALLBUFSIZE]
      obtain r where r: "fixup_encoded_header iconv (snprintf_s (SMALLBUFSIZE - 1) ?v) SMALLBUFSIZE = Some r" "NUL \<notin> set r"
        by blast
      have rr: "NUL \<notin> set (snprintf_s m r)" for m using r(2) set_snprintf_s by blast
      have e: "extract_token_from_header_line iconv buffer name n =
        (if ?p \<noteq> [] \<and> hd ?p = CHR ''*''
         then (if length e > 2 \<and> \<not> strcasecmp_eq e ''utf-8''
               then Some (cstr (snd (utf8_encode iconv u (int n - 1) e))) else Some (snprintf_s (n - 1) u))
         else Some (snprintf_s (n - 1) r))"
        unfolding extract_token_from_header_line_def Let_def \<open>strstr ?buf name = Some i\<close> Some option.case eu prod.case r(1)
        by simp
      show ?thesis unfolding e using u rr by auto
    qed (use Some in \<open>simp add: extract_token_from_header_line_def Let_def\<close>)
  qed (simp add: extract_token_from_header_line_def Let_def)
qed

lemma extract_name_total:
  assumes "NUL \<notin> set buf"
  shows "\<exists>r. extract_name_from_headers iconv buf n = Some r \<and> NUL \<notin> set r"
proof -
  have "NUL \<notin> set (drop k buf)" for k using assms by (auto dest: in_set_dropD)
  then show ?thesis using extract_token_total [of _ iconv] assms
    by (simp add: extract_name_from_headers_def split: option.splits)
qed

end
