(* ===== verification/Parser.thy ===== *)
theory Parser
  imports Message_File Header Html Tokenizer
begin

text \<open>
  \<open>src/parser.c\<close> and \<open>src/digest.c\<close>: a message, in one block of memory, is taken apart in place into the
  parts of \<open>struct Message\<close>; the parser state for the scoring is filled from it.  A pointer into the
  message is an offset into the block.  The conversion library and the digests of OpenSSL are parameters.
\<close>

section \<open>struct Message\<close>

record attachment =
  at_size :: nat
  at_type :: string
  at_filename :: string
  at_digest :: string

text \<open>\<open>body.data\<close> up to \<open>body.pos\<close>, and the attachments up to \<open>n_attachments\<close>.\<close>

record message =
  m_envelope_from :: string
  m_envelope_recipient :: string
  m_xforward :: string
  m_received :: string
  m_from :: string
  m_subject :: string
  m_message_id :: string
  m_content_type :: string
  m_content_encoding :: string
  m_watermark :: string
  m_body :: string
  m_attachments :: "attachment list"
  m_need_signo_check :: bool
  m_found_our_signo :: bool
  m_has_image :: bool
  m_has_octet_stream :: bool

definition empty_message :: message where
  "empty_message = \<lparr>m_envelope_from = [], m_envelope_recipient = [], m_xforward = [], m_received = [],
     m_from = [], m_subject = [], m_message_id = [], m_content_type = [], m_content_encoding = [],
     m_watermark = [], m_body = [], m_attachments = [], m_need_signo_check = False,
     m_found_our_signo = False, m_has_image = False, m_has_octet_stream = False\<rparr>"

abbreviation MAX_ATTACHMENTS :: nat where
  "MAX_ATTACHMENTS \<equiv> 16"

record libraries =
  lib_iconv :: iconv
  lib_digest :: "string \<Rightarrow> (string \<Rightarrow> string) option"

text \<open>The macro \<open>APPENDTOBODY\<close>.\<close>

definition append_to_body :: "string \<Rightarrow> message \<Rightarrow> message" where
  "append_to_body p m =
     (if length p + length (m_body m) + 1 < BIGBUFSIZE then m\<lparr>m_body := m_body m @ p\<rparr> else m)"

text \<open>The macro \<open>CONVERT_WHITESPACE_TO_UNDERSCORE\<close>.\<close>

definition convert_whitespace :: "string \<Rightarrow> string" where
  "convert_whitespace p = map (\<lambda>c. if isspace c \<or> c = CHR ''('' \<or> c = CHR '')'' then CHR ''_'' else c) p"

definition hex_byte :: "char \<Rightarrow> string" where
  "hex_byte c = [''0123456789abcdef'' ! (byte c div 16), ''0123456789abcdef'' ! (byte c mod 16)]"

abbreviation DIGEST_LENGTH :: nat where
  "DIGEST_LENGTH \<equiv> 32"

text \<open>
  The bytes of a \<open>struct attachment\<close> from the array \<open>digest\<close> on: the array and seven bytes of padding, which
  align the struct to its \<open>size_t\<close>.
\<close>

abbreviation DIGEST_ROOM :: nat where
  "DIGEST_ROOM \<equiv> 2 * DIGEST_LENGTH + 1 + 7"

text \<open>
  \<open>digest\<close> is the block from the argument on; \<open>None\<close> is a write behind it, or a digest that is longer than
  \<open>md_value\<close>.  \<open>memset\<close> clears one byte more than the array has.
\<close>

fun digest_loop :: "buf \<Rightarrow> nat \<Rightarrow> string \<Rightarrow> buf option" where
  "digest_loop digest i [] = Some digest"
| "digest_loop digest i (c # md_value) =
     do { d \<leftarrow> wr_all digest (i * 2) (hex_byte c @ [NUL]); digest_loop d (Suc i) md_value }"

definition digest_string :: "libraries \<Rightarrow> string \<Rightarrow> string \<Rightarrow> buf \<Rightarrow> buf option" where
  "digest_string libs digestname s digest =
     do { d \<leftarrow> wr_all digest 0 (replicate (2 * DIGEST_LENGTH + 2) NUL);
          case lib_digest libs digestname of
            None \<Rightarrow> Some d
          | Some md \<Rightarrow> if length (md s) \<le> DIGEST_LENGTH then digest_loop d 0 (md s) else None }"

lemma length_hex_byte [simp]: "length (hex_byte c) = 2"
  by (simp add: hex_byte_def)

lemma length_hex_bytes: "length (concat (map hex_byte u)) = 2 * length u"
  by (induction u) simp_all

lemma digest_loop_eq:
  "2 * length md + 1 \<le> k \<Longrightarrow>
   digest_loop (concat (map hex_byte u) @ replicate k NUL @ r) (length u) md =
     Some (concat (map hex_byte (u @ md)) @ replicate (k - 2 * length md) NUL @ r)"
proof (induction md arbitrary: u k)
  case (Cons c md)
  let ?h = "concat (map hex_byte u)"
  have k: "replicate k NUL = replicate 3 NUL @ replicate (k - 3) NUL" "replicate (k - 2) NUL = NUL # replicate (k - 3) NUL"
    using Cons.prems by (simp_all add: replicate_add [symmetric] Suc_diff_le numeral_3_eq_3 flip: replicate_Suc)
  have "put (?h @ replicate k NUL @ r) (length u * 2) (hex_byte c @ [NUL]) =
      concat (map hex_byte (u @ [c])) @ replicate (k - 2) NUL @ r"
    by (simp add: put_def length_hex_bytes k)
  moreover have "wr_all (?h @ replicate k NUL @ r) (length u * 2) (hex_byte c @ [NUL]) =
      Some (put (?h @ replicate k NUL @ r) (length u * 2) (hex_byte c @ [NUL]))"
    using Cons.prems by (intro wr_all_put) (simp add: length_hex_bytes)
  ultimately show ?case using Cons.IH [of "k - 2" "u @ [c]"] Cons.prems by simp
qed simp

text \<open>
  Given the room \<open>memset\<close> takes, the hexadecimal digits of the digest are the string in the array; the array
  alone is too small for what is cleared.
\<close>

lemma digest_string_digits:
  assumes "2 * DIGEST_LENGTH + 2 \<le> length digest" "lib_digest libs name = Some md" "length (md s) \<le> DIGEST_LENGTH"
  shows "digest_string libs name s digest = Some (concat (map hex_byte (md s)) @
     replicate (2 * DIGEST_LENGTH + 2 - 2 * length (md s)) NUL @ drop (2 * DIGEST_LENGTH + 2) digest)"
  using digest_loop_eq [of "md s" "2 * DIGEST_LENGTH + 2" "[]" "drop (2 * DIGEST_LENGTH + 2) digest"] assms
  by (simp add: digest_string_def wr_all_put put_def)

lemma digest_string_past_array: "length digest = 2 * DIGEST_LENGTH + 1 \<Longrightarrow> digest_string libs name s digest = None"
  by (simp add: digest_string_def wr_all_None)

lemma digest_string_length:
  assumes "digest_string libs name s (replicate DIGEST_ROOM NUL) = Some digest"
  shows "length (cstr digest) < 2 * DIGEST_LENGTH + 1"
proof (cases "lib_digest libs name")
  case None
  then have "digest = replicate DIGEST_ROOM NUL" using assms by (simp add: digest_string_def wr_all_put put_def flip: replicate_add)
  then show ?thesis by (simp add: cstr_def)
next
  case (Some md)
  then have md: "length (md s) \<le> DIGEST_LENGTH"
    using assms by (auto simp: digest_string_def split: if_splits bind_splits)
  have "length (cstr (u @ NUL # t)) \<le> length u" for u t by (induction u) (simp_all add: cstr_def)
  from this [of "concat (map hex_byte (md s))"] have "length (cstr (concat (map hex_byte (md s)) @ NUL # t)) \<le> 2 * length (md s)" for t
    by (simp add: length_hex_bytes)
  moreover obtain t where "digest = concat (map hex_byte (md s)) @ NUL # t"
    using digest_string_digits [of "replicate DIGEST_ROOM NUL" libs name md s] Some md assms
    by (cases "2 * DIGEST_LENGTH + 2 - 2 * length (md s)") auto
  ultimately show ?thesis using md by (metis le_imp_less_Suc mult_le_mono2 order_trans Suc_eq_plus1)
qed

section \<open>The boundary of a multipart message\<close>

definition find_boundary :: "string \<Rightarrow> nat \<Rightarrow> string option" where
  "find_boundary buffer resultlen =
     (case strstr buffer ''boundary'' of
        None \<Rightarrow> None
      | Some i \<Rightarrow>
          let b1 = drop (i + 8) buffer;
              b2 = (if strncmp_eq b1 ''=3D'' 3 then drop 3 b1 else b1);
              b3 = dropWhile isspace b2;
              b4 = (if b3 \<noteq> [] \<and> hd b3 = CHR ''='' then tl b3 else b3);
              b5 = dropWhile isspace b4
          in if b5 \<noteq> [] \<and> hd b5 = DQUOTE
             then map_option (\<lambda>e. take (min e (resultlen - 1)) (tl b5)) (strchr (tl b5) DQUOTE)
             else Some (take (resultlen - 1) (takeWhile (\<lambda>c. \<not> isspace c \<and> c \<noteq> CHR '';'') b5)))"

section \<open>The headers\<close>

abbreviation HEADER_CONTENT_TYPE :: string where "HEADER_CONTENT_TYPE \<equiv> ''Content-Type:''"
abbreviation HEADER_CONTENT_TRANSFER_ENCODING :: string where
  "HEADER_CONTENT_TRANSFER_ENCODING \<equiv> ''Content-Transfer-Encoding:''"
abbreviation HEADER_RECEIVED :: string where "HEADER_RECEIVED \<equiv> ''Received:''"

text \<open>\<open>extract_header_value\<close> into an array that held \<open>old\<close>.\<close>

definition get_header :: "libraries \<Rightarrow> buf \<Rightarrow> nat \<Rightarrow> nat \<Rightarrow> string \<Rightarrow> nat \<Rightarrow> string \<Rightarrow> string option" where
  "get_header libs b p len name n old =
     map_option (\<lambda>r. case r of None \<Rightarrow> old | Some v \<Rightarrow> v) (extract_header_value (lib_iconv libs) b p len name n)"

lemma str_at_length: "str_at b p = Some s \<Longrightarrow> p + length s < length b"
  using terminated_length by (auto simp: str_at_def split: if_splits)

text \<open>The loop over the \<open>Received:\<close> lines; the offset \<open>p\<close> and the counter \<open>i\<close>.\<close>

function received_loop :: "libraries \<Rightarrow> int \<Rightarrow> buf \<Rightarrow> nat \<Rightarrow> int \<Rightarrow> string \<Rightarrow> string option" where
  "received_loop libs skip b p i old =
     do { s \<leftarrow> str_at b p;
          case strcasestr s HEADER_RECEIVED of
            None \<Rightarrow> Some old
          | Some k \<Rightarrow>
              do { r \<leftarrow> get_header libs b (p + k) (length s - k) HEADER_RECEIVED MAXBUFSIZE old;
                   if i = skip then Some r
                   else received_loop libs skip b (p + k + length HEADER_RECEIVED) (i + 1) r } }"
  by pat_completeness auto

termination
  by (relation "measure (\<lambda>(libs, skip, b, p, i, old). length b - p)") (auto dest: str_at_length)

declare received_loop.simps [simp del]

text \<open>The headers of the message at \<open>p\<close>, whose terminator has been put behind them.\<close>

definition parse_headers :: "libraries \<Rightarrow> config \<Rightarrow> buf \<Rightarrow> nat \<Rightarrow> nat \<Rightarrow> message \<Rightarrow> message option" where
  "parse_headers libs cfg b p len m =
     do { from \<leftarrow> get_header libs b p len HEADER_FROM SMALLBUFSIZE (m_from m);
          subject \<leftarrow> get_header libs b p len HEADER_SUBJECT (2 * SMALLBUFSIZE) (m_subject m);
          message_id \<leftarrow> get_header libs b p len ''Message-ID:'' (2 * SMALLBUFSIZE) (m_message_id m);
          content_type \<leftarrow> get_header libs b p len HEADER_CONTENT_TYPE SMALLBUFSIZE (m_content_type m);
          content_encoding \<leftarrow>
            get_header libs b p len HEADER_CONTENT_TRANSFER_ENCODING SMALLBUFSIZE (m_content_encoding m);
          envelope_from \<leftarrow> get_header libs b p len ''Kospam-Envelope-From: '' SMALLBUFSIZE (m_envelope_from m);
          envelope_recipient \<leftarrow>
            get_header libs b p len ''Kospam-Envelope-Recipient: '' MAXBUFSIZE (m_envelope_recipient m);
          xforward \<leftarrow> get_header libs b p len ''Kospam-Xforward: '' (2 * SMALLBUFSIZE) (m_xforward m);
          watermark \<leftarrow> get_header libs b p len ''X-Kospam-Watermark: '' SMALLBUFSIZE (m_watermark m);
          received \<leftarrow> received_loop libs (cfg_received_lines_to_skip cfg) b p 0 (m_received m);
          s \<leftarrow> str_at b p;
          let signo_check = (cfg_our_signo cfg \<noteq> [] \<and>
            (strstr envelope_from ''MAILER-DAEMON'' \<noteq> None \<or> strstr envelope_from ''<>'' \<noteq> None));
          Some (m\<lparr>m_from := from, m_subject := subject, m_message_id := message_id,
                  m_content_type := content_type, m_content_encoding := content_encoding,
                  m_envelope_from := envelope_from, m_envelope_recipient := envelope_recipient,
                  m_xforward := xforward, m_watermark := watermark, m_received := received,
                  m_need_signo_check := signo_check \<or> m_need_signo_check m,
                  m_found_our_signo := (signo_check \<and> strstr s (cfg_our_signo cfg) \<noteq> None) \<or> m_found_our_signo m\<rparr>) }"

section \<open>Bodies\<close>

text \<open>Undoing the transfer encoding of the text at \<open>p\<close>, in place.\<close>

definition decode_transfer :: "string \<Rightarrow> buf \<Rightarrow> nat \<Rightarrow> buf option" where
  "decode_transfer encoding b p =
     (if strcasestr encoding ''base64'' \<noteq> None then map_option snd (base64_decode b p)
      else if strcasestr encoding ''quoted-printable'' \<noteq> None then decodeQP b p
      else Some b)"

text \<open>
  Reading a text in place: the transfer encoding is undone, character references are decoded for one
  character set, and HTML is reduced to its text.
\<close>

definition read_body :: "string \<Rightarrow> string \<Rightarrow> bool \<Rightarrow> buf \<Rightarrow> nat \<Rightarrow> buf option" where
  "read_body encoding charset html b p =
     do { b1 \<leftarrow> decode_transfer encoding b p;
          b2 \<leftarrow> (if charset = ''windows-1251'' then decode_html_entities_utf8_inplace b1 p else Some b1);
          if html then normalize_html b2 p else Some b2 }"

text \<open>The body of a message that is not multipart.\<close>

definition single_body :: "buf \<Rightarrow> nat \<Rightarrow> message \<Rightarrow> (buf \<times> message) option" where
  "single_body b body m =
     (let ct = m_content_type m in
      if ct \<noteq> [] \<and> strstr ct ''text/plain'' = None \<and> strstr ct ''text/html'' = None then Some (b, m)
      else do {
        b1 \<leftarrow> read_body (m_content_encoding m) [] (strcasestr ct ''text/html'' \<noteq> None) b body;
        s \<leftarrow> str_at b1 body;
        Some (b1, append_to_body s m) })"

text \<open>
  What a part of a multipart message is found to be: without a content type, with a content type but
  no empty line, a multipart message of its own (with its boundary, if it has one), or a part with a
  body; then the contents of \<open>part_content_type_buf\<close>, \<open>charset\<close> and \<open>part_headers_buf\<close> and the
  string \<open>part_content_type\<close> are given.
\<close>

datatype mime_part =
    Untyped
  | Headers_only
  | Nested nat "string option"
  | Leaf nat string string string string

definition find_part_body :: "string \<Rightarrow> nat option" where
  "find_part_body s =
     (case strstr s [CR, LF, CR, LF] of
        Some k \<Rightarrow> Some (k + 4)
      | None \<Rightarrow> map_option (\<lambda>k. k + 2) (strstr s [LF, LF]))"

definition read_part :: "libraries \<Rightarrow> buf \<Rightarrow> nat \<Rightarrow> mime_part option" where
  "read_part libs b part =
     do { s \<leftarrow> str_at b part;
          case strcasestr s HEADER_CONTENT_TYPE of
            None \<Rightarrow> Some Untyped
          | Some ct \<Rightarrow>
              (case find_part_body s of
                 None \<Rightarrow> Some Headers_only
               | Some k \<Rightarrow>
                   do { v \<leftarrow> extract_header_value (lib_iconv libs) b part (length s) HEADER_CONTENT_TYPE (2 * SMALLBUFSIZE);
                        content_type \<leftarrow> v;
                        charset \<leftarrow> (if content_type \<noteq> []
                          then extract_token_from_header_line (lib_iconv libs) content_type ''charset'' SMALLBUFSIZE
                          else Some []);
                        if content_type \<noteq> [] \<and> strcasestr content_type ''multipart/'' \<noteq> None
                        then Some (Nested (part + k) (find_boundary content_type SMALLBUFSIZE))
                        else Some (Leaf (part + k) (snprintf_s (SMALLBUFSIZE - 1) content_type) charset
                               (snprintf_s (SMALLBUFSIZE - 1) (take k s)) (drop ct (if ct \<le> k then take k s else s))) }) }"

datatype leaf_type = Textual | Html_text | Rfc822 | Octet_stream | Image | Other

definition leaf_kind :: "string \<Rightarrow> leaf_type" where
  "leaf_kind ct =
     (if strcasestr ct ''text/plain'' \<noteq> None \<or> strcasestr ct ''text/calendar'' \<noteq> None \<or>
         strcasestr ct ''application/ics'' \<noteq> None then Textual
      else if strcasestr ct ''text/html'' \<noteq> None then Html_text
      else if strcasestr ct ''message/rfc822'' \<noteq> None then Rfc822
      else if strcasestr ct ''application/octet-stream'' \<noteq> None then Octet_stream
      else if strcasestr ct ''image/'' \<noteq> None then Image
      else Other)"

definition transfer_encoding :: "string \<Rightarrow> string" where
  "transfer_encoding headers =
     (case strcasestr headers HEADER_CONTENT_TRANSFER_ENCODING of None \<Rightarrow> [] | Some k \<Rightarrow> drop k headers)"

text \<open>A part with a text: decoded, unless it is an attachment of more than 30000 bytes.\<close>

definition textual_part :: "libraries \<Rightarrow> buf \<Rightarrow> nat \<Rightarrow> string \<Rightarrow> string \<Rightarrow> bool \<Rightarrow> message \<Rightarrow> (buf \<times> message) option" where
  "textual_part libs b body charset headers html m =
     do { filename \<leftarrow> extract_name_from_headers (lib_iconv libs) headers SMALLBUFSIZE;
          s \<leftarrow> str_at b body;
          if filename \<noteq> [] \<and> length s > 30000 then Some (b, m)
          else do {
            b1 \<leftarrow> read_body (transfer_encoding headers) charset html b body;
            t \<leftarrow> str_at b1 body;
            Some (b1, append_to_body t m) } }"

text \<open>Any other part is an attachment.\<close>

definition attachment_part :: "libraries \<Rightarrow> buf \<Rightarrow> nat \<Rightarrow> string \<Rightarrow> string \<Rightarrow> message \<Rightarrow> (buf \<times> message) option" where
  "attachment_part libs b body content_type headers m =
     do { filename \<leftarrow> extract_name_from_headers (lib_iconv libs) headers SMALLBUFSIZE;
          if length (m_attachments m) < MAX_ATTACHMENTS then do {
            let name = snprintf_s (TINYBUFSIZE - 1) (''ATT*'' @ convert_whitespace filename);
            s \<leftarrow> str_at b body;
            b1 \<leftarrow> chop_newlines b body (length s);
            t \<leftarrow> str_at b1 body;
            digest \<leftarrow> digest_string libs ''sha256'' t (replicate DIGEST_ROOM NUL);
            let ty = (case strchr content_type (CHR '';'') of None \<Rightarrow> []
                      | Some i \<Rightarrow> snprintf_s (TINYBUFSIZE - 1) (take i content_type));
            let m1 = append_to_body name m;
            Some (b1, m1\<lparr>m_attachments := m_attachments m1 @
              [\<lparr>at_size = length s, at_type = ty, at_filename = name, at_digest = cstr digest\<rparr>]\<rparr>) }
          else Some (b, m) }"

definition drop_header :: "message \<Rightarrow> message" where
  "drop_header m = m\<lparr>m_received := [], m_from := [], m_subject := [], m_message_id := [],
     m_content_type := [], m_content_encoding := [], m_watermark := []\<rparr>"

section \<open>The message and its parts\<close>

text \<open>A block keeps its size; this is said here for the termination of the definition and never fails.\<close>

definition keep_size :: "buf \<Rightarrow> buf \<Rightarrow> buf option" where
  "keep_size b b' = (if length b' = length b then Some b' else None)"

definition boundary_marker :: "string \<Rightarrow> string" where
  "boundary_marker boundary = snprintf_s (SMALLBUFSIZE - 1) (''--'' @ boundary)"

lemma boundary_marker_length: "2 \<le> length (boundary_marker boundary)"
  by (simp add: boundary_marker_def snprintf_s_def)

lemma find_headers_end_length: "find_headers_end s = Some k \<Longrightarrow> k + 2 \<le> length s"
  using strstr_length [of s "[CR, LF, CR, LF]"] strstr_length [of s "[LF, LF]"]
  by (auto simp: find_headers_end_def split: option.splits)

lemma find_part_body_ge: "find_part_body s = Some k \<Longrightarrow> 2 \<le> k \<and> k \<le> length s"
  using strstr_length [of s "[CR, LF, CR, LF]"] strstr_length [of s "[LF, LF]"]
  by (auto simp: find_part_body_def split: option.splits)

lemma read_part_body:
  "read_part libs b part = Some (Nested body bd) \<Longrightarrow> part < body"
  "read_part libs b part = Some (Leaf body ct cs hs pct) \<Longrightarrow> part < body"
  by (auto simp: read_part_def dest!: find_part_body_ge split: option.splits if_splits bind_splits)

definition cut_next :: "buf \<Rightarrow> nat \<Rightarrow> nat option \<Rightarrow> buf option" where
  "cut_next b part next_part = (case next_part of None \<Rightarrow> Some b | Some k \<Rightarrow> wr b (part + k) NUL)"

lemma cut_next_length: "cut_next b part next_part = Some b' \<Longrightarrow> length b' = length b"
  by (auto simp: cut_next_def dest: wr_length split: option.splits)

lemma keep_size_length: "keep_size b b' = Some b'' \<Longrightarrow> length b'' = length b"
  by (auto simp: keep_size_def split: if_splits)

lemma marker_advances:
  assumes "str_at b (marker + length (boundary_marker boundary)) = Some s"
  shows "marker + 2 \<le> marker + length (boundary_marker boundary)" "marker + length (boundary_marker boundary) < length b"
  using assms boundary_marker_length [of boundary] by (auto dest: str_at_length)

function (sequential)
  parse_eml_buffer :: "libraries \<Rightarrow> config \<Rightarrow> buf \<Rightarrow> nat \<Rightarrow> message \<Rightarrow> (int \<times> buf \<times> message) option"
and extract_mime_parts :: "libraries \<Rightarrow> config \<Rightarrow> buf \<Rightarrow> nat \<Rightarrow> string \<Rightarrow> message \<Rightarrow> (buf \<times> message) option"
and mime_loop :: "libraries \<Rightarrow> config \<Rightarrow> string \<Rightarrow> buf \<Rightarrow> nat \<Rightarrow> message \<Rightarrow> (buf \<times> message) option" where
  "parse_eml_buffer libs cfg b p m =
     do { s \<leftarrow> str_at b p;
          case find_headers_end s of
            None \<Rightarrow> map_option (\<lambda>m1. (1, b, m1)) (parse_headers libs cfg b p (length s) m)
          | Some k \<Rightarrow>
              do { b1 \<leftarrow> wr b (p + k) NUL;
                   m1 \<leftarrow> parse_headers libs cfg b1 p k m;
                   b2 \<leftarrow> wr b1 (p + k) LF;
                   let body = p + k + (if strstr s [CR, LF, CR, LF] \<noteq> None then 4 else 2);
                   if m_content_type m1 \<noteq> [] \<and> strstr (m_content_type m1) ''multipart/'' \<noteq> None
                   then (case find_boundary (m_content_type m1) SMALLBUFSIZE of
                           None \<Rightarrow> Some (1, b2, m1)
                         | Some boundary \<Rightarrow>
                             map_option (\<lambda>(b3, m3). (0, b3, m3)) (extract_mime_parts libs cfg b2 body boundary m1))
                   else map_option (\<lambda>(b3, m3). (0, b3, m3)) (single_body b2 body m1) } }"
| "extract_mime_parts libs cfg b body boundary m =
     do { s \<leftarrow> str_at b body;
          case strstr s (boundary_marker boundary) of
            None \<Rightarrow> Some (b, m)
          | Some k \<Rightarrow> mime_loop libs cfg boundary b (body + k) m }"
| "mime_loop libs cfg boundary b marker m =
     (let part = marker + length (boundary_marker boundary) in
      do { s \<leftarrow> str_at b part;
           b1 \<leftarrow> cut_next b part (strstr s (boundary_marker boundary));
           found \<leftarrow> read_part libs b1 part;
           if found = Headers_only then mime_loop libs cfg boundary b1 part m
           else if (case found of Nested body bd \<Rightarrow> bd = None | _ \<Rightarrow> False) then Some (b1, m)
           else do {
             (b2, m2) \<leftarrow>
               (case found of
                  Nested body bd \<Rightarrow> extract_mime_parts libs cfg b1 body (the bd) m
                | Leaf body ct charset headers part_ct \<Rightarrow>
                    (case leaf_kind part_ct of
                       Textual \<Rightarrow> textual_part libs b1 body charset headers False m
                     | Html_text \<Rightarrow> textual_part libs b1 body charset headers True m
                     | Rfc822 \<Rightarrow> map_option snd (parse_eml_buffer libs cfg b1 body (drop_header m))
                     | Octet_stream \<Rightarrow> attachment_part libs b1 body ct headers (m\<lparr>m_has_octet_stream := True\<rparr>)
                     | Image \<Rightarrow> attachment_part libs b1 body ct headers (m\<lparr>m_has_image := True\<rparr>)
                     | Other \<Rightarrow> attachment_part libs b1 body ct headers m)
                | _ \<Rightarrow> Some (b1, m));
             b3 \<leftarrow> keep_size b b2;
             (case strstr s (boundary_marker boundary) of
                None \<Rightarrow> Some (b3, m2)
              | Some k \<Rightarrow> mime_loop libs cfg boundary b3 (part + k) m2) } })"
  by pat_completeness auto

termination
proof (relation "measure (\<lambda>x. case x of Inl (libs, cfg, b, p, m) \<Rightarrow> 3 * (length b - p)
      | Inr (Inl (libs, cfg, b, body, boundary, m)) \<Rightarrow> 3 * (length b - body) + 1
      | Inr (Inr (libs, cfg, boundary, b, marker, m)) \<Rightarrow> 3 * (length b - marker))", goal_cases)
  case 1
  then show ?case by simp
next
  case (2 libs cfg b p m s k b1 m1 b2 x boundary)
  then show ?case
    using str_at_length [of b p s] find_headers_end_length [of s k] wr_length [of b "p + k" NUL b1] wr_length [of b1 "p + k" LF b2]
    by auto
next
  case (3 libs cfg b body boundary m s k)
  then show ?case using str_at_length [of b body s] by auto
next
  case (4 libs cfg boundary b marker m x s b1 found)
  then show ?case using marker_advances [of b marker boundary s] cut_next_length [of b x _ b1] by fastforce
next
  case (5 libs cfg boundary b marker m x s b1 found body bd)
  then show ?case
    using marker_advances [of b marker boundary s] cut_next_length [of b x _ b1] read_part_body(1) [of libs b1 x body bd]
    by auto
next
  case (6 libs cfg boundary b marker m x s b1 found body ct charset headers part_ct)
  then show ?case
    using marker_advances [of b marker boundary s] cut_next_length [of b x _ b1]
      read_part_body(2) [of libs b1 x body ct charset headers part_ct]
    by auto
next
  case (7 libs cfg boundary b marker m x s b1 found r b2 m2 b3 k)
  then show ?case
    using marker_advances [of b marker boundary s] keep_size_length [of b b2 b3] by auto
qed

declare parse_eml_buffer.simps [simp del] extract_mime_parts.simps [simp del] mime_loop.simps [simp del]

section \<open>Bodies are decoded in place\<close>

lemma overwrites_refl: "terminated b p \<Longrightarrow> overwrites p b b (cstr (drop p b))"
  by (simp add: overwrites_def cstr_id)

lemma overwrites_trans:
  assumes "overwrites p b b1 s" "overwrites p b1 b2 t"
  shows "overwrites p b b2 t"
proof -
  let ?n = "length (cstr (drop p b))" and ?m = "length (cstr (drop p b1))"
  have m: "?m \<le> ?n" using assms(1) unfolding overwrites_def by (elim conjE)
  have "drop (p + Suc ?n) b2 = drop (?n - ?m) (drop (p + Suc ?m) b2)" using m by (simp add: add.commute)
  also have "\<dots> = drop (?n - ?m) (drop (p + Suc ?m) b1)" using assms(2) by (simp add: overwrites_def)
  also have "\<dots> = drop (p + Suc ?n) b1" using m by (simp add: add.commute)
  also have "\<dots> = drop (p + Suc ?n) b" using assms(1) by (simp add: overwrites_def)
  finally show ?thesis using assms m unfolding overwrites_def by auto
qed

lemma overwrites_cstr: "overwrites p b b' s \<Longrightarrow> overwrites p b b' (cstr s)"
  by (erule overwrites_cong) (simp add: cstr_id)

lemma overwrites_str_at: "overwrites p b b' s \<Longrightarrow> str_at b' p = Some (cstr s)"
  by (simp add: overwrites_def str_at_def)

lemma str_at_terminated: "str_at b p = Some s \<longleftrightarrow> terminated b p \<and> s = cstr (drop p b)"
  by (auto simp: str_at_def)

definition transfer_text :: "string \<Rightarrow> string \<Rightarrow> string" where
  "transfer_text encoding s =
     (if strcasestr encoding ''base64'' \<noteq> None then word_text B64 s
      else if strcasestr encoding ''quoted-printable'' \<noteq> None then word_text QP s
      else s)"

lemma base64_decode_overwrites:
  assumes "terminated b p"
  shows "\<exists>n b'. base64_decode b p = Some (n, b') \<and> overwrites p b b' (word_text B64 (cstr (drop p b)))"
proof -
  let ?s = "cstr (drop p b)" and ?c = "filter valid_base64_char (cstr (drop p b))"
  let ?out = "if length ?c mod 4 = 0 then decode_spec ?c else ?c"
  obtain n b' where b: "base64_decode b p = Some (n, b')" "holds_data p b b' ?out"
    using base64_decode_spec [OF assms] by blast
  have c: "length ?c \<le> length ?s" by simp
  moreover have "length ?c div 4 * 3 \<le> length ?c" by simp
  moreover have "length (decode_spec ?c) \<le> length ?c div 4 * 3" by (simp add: length_decode_spec)
  ultimately have "length ?out \<le> length ?s" using c by (simp del: length_filter_le)
  then have "overwrites p b b' ?out" by (rule holds_data_overwrites [OF b(2) assms])
  then have "overwrites p b b' (word_text B64 ?s)"
    by (rule overwrites_cong) (simp add: word_text_def Let_def cstr_id)
  then show ?thesis using b(1) by blast
qed

lemma decode_transfer_overwrites:
  assumes "terminated b p"
  shows "\<exists>b'. decode_transfer encoding b p = Some b' \<and> overwrites p b b' (transfer_text encoding (cstr (drop p b)))"
proof -
  obtain n b1 where b: "base64_decode b p = Some (n, b1)" "overwrites p b b1 (word_text B64 (cstr (drop p b)))"
    using base64_decode_overwrites [OF assms] by blast
  obtain b2 where q: "decodeQP b p = Some b2" "overwrites p b b2 (qp_decode (cstr (drop p b)))"
    using decodeQP_total [OF assms] by blast
  have "overwrites p b b2 (word_text QP (cstr (drop p b)))"
    by (rule overwrites_cong [OF q(2)]) (simp add: word_text_def cstr_id)
  then show ?thesis
    using b q(1) overwrites_refl [OF assms] by (simp add: decode_transfer_def transfer_text_def)
qed

text \<open>What the program reads in a textual part.\<close>

definition readable_text :: "string \<Rightarrow> string \<Rightarrow> bool \<Rightarrow> string \<Rightarrow> string" where
  "readable_text encoding charset html s =
     (let t1 = transfer_text encoding s;
          t2 = (if charset = ''windows-1251'' then cstr (stream ent_step () (cstr t1)) else t1)
      in if html then cstr (html_text (cstr t2)) else t2)"

lemma html_step_overwrites:
  assumes "terminated b p" "1 \<le> p"
  shows "\<exists>b'. (if html then normalize_html b p else Some b) = Some b' \<and>
    overwrites p b b' (if html then cstr (html_text (cstr (drop p b))) else cstr (drop p b))"
  using normalize_html_total [OF assms] overwrites_refl [OF assms(1)]
  by (auto intro: overwrites_cstr)

lemma entities_step_overwrites:
  assumes "terminated b p"
  shows "\<exists>b'. (if c then decode_html_entities_utf8_inplace b p else Some b) = Some b' \<and>
    overwrites p b b' (if c then cstr (stream ent_step () (cstr (drop p b))) else cstr (drop p b))"
  using decode_entities_total [OF assms] overwrites_refl [OF assms]
  by (auto intro: overwrites_cstr)

lemma overwritesD: "overwrites p b b' s \<Longrightarrow> terminated b' p \<and> cstr (drop p b') = cstr s"
  by (simp add: overwrites_def)

lemma read_body_overwrites:
  assumes "terminated b p" "1 \<le> p"
  shows "\<exists>b'. read_body encoding charset html b p = Some b' \<and>
    overwrites p b b' (readable_text encoding charset html (cstr (drop p b)))"
proof -
  obtain b1 where 1: "decode_transfer encoding b p = Some b1" "overwrites p b b1 (transfer_text encoding (cstr (drop p b)))"
    using decode_transfer_overwrites [OF assms(1)] by blast
  note t1 = overwritesD [OF 1(2)]
  let ?c = "charset = ''windows-1251''"
  obtain b2 where 2: "(if ?c then decode_html_entities_utf8_inplace b1 p else Some b1) = Some b2"
    "overwrites p b1 b2 (if ?c then cstr (stream ent_step () (cstr (drop p b1))) else cstr (drop p b1))"
    using entities_step_overwrites [of b1 p ?c] t1 by blast
  note t2 = overwritesD [OF 2(2)]
  obtain b3 where 3: "(if html then normalize_html b2 p else Some b2) = Some b3"
    "overwrites p b2 b3 (if html then cstr (html_text (cstr (drop p b2))) else cstr (drop p b2))"
    using html_step_overwrites [of b2 p html] t2 assms(2) by blast
  have "cstr (if html then cstr (html_text (cstr (drop p b2))) else cstr (drop p b2)) =
      cstr (readable_text encoding charset html (cstr (drop p b)))"
    using t1 t2 by (auto simp: readable_text_def Let_def cstr_id)
  then have "overwrites p b b3 (readable_text encoding charset html (cstr (drop p b)))"
    using overwrites_cong overwrites_trans [OF overwrites_trans [OF 1(2) 2(2)] 3(2)] by blast
  then show ?thesis using 1(1) 2(1) 3(1) by (simp add: read_body_def)
qed

section \<open>What is written fits\<close>

text \<open>Every array of \<open>struct Message\<close> has room for its string.\<close>

definition message_ok :: "message \<Rightarrow> bool" where
  "message_ok m \<longleftrightarrow>
     length (m_envelope_from m) < SMALLBUFSIZE \<and> length (m_envelope_recipient m) < MAXBUFSIZE \<and>
     length (m_xforward m) < 2 * SMALLBUFSIZE \<and> length (m_received m) < MAXBUFSIZE \<and>
     length (m_from m) < SMALLBUFSIZE \<and> length (m_subject m) < 2 * SMALLBUFSIZE \<and>
     length (m_message_id m) < 2 * SMALLBUFSIZE \<and> length (m_content_type m) < SMALLBUFSIZE \<and>
     length (m_content_encoding m) < SMALLBUFSIZE \<and> length (m_watermark m) < SMALLBUFSIZE \<and>
     length (m_body m) + 1 < BIGBUFSIZE \<and> NUL \<notin> set (m_body m) \<and>
     length (m_attachments m) \<le> MAX_ATTACHMENTS \<and>
     (\<forall>a\<in>set (m_attachments m). length (at_type a) < TINYBUFSIZE \<and> length (at_filename a) < TINYBUFSIZE \<and>
       length (at_digest a) < 2 * DIGEST_LENGTH + 1)"

lemma message_ok_empty: "message_ok empty_message"
  by (simp add: message_ok_def empty_message_def)

lemma message_ok_append: "message_ok m \<Longrightarrow> NUL \<notin> set s \<Longrightarrow> message_ok (append_to_body s m)"
  by (simp add: message_ok_def append_to_body_def)

lemma message_ok_drop: "message_ok m \<Longrightarrow> message_ok (drop_header m)"
  by (simp add: message_ok_def drop_header_def)

lemma get_header_bound:
  assumes "get_header libs b p n name sz old = Some r" "length old < sz"
  shows "length r < sz"
proof (cases "\<exists>v. extract_header_value (lib_iconv libs) b p n name sz = Some (Some v)")
  case True
  then obtain v where v: "extract_header_value (lib_iconv libs) b p n name sz = Some (Some v)" by blast
  then obtain res where res: "length res < sz"
    "v = cstr res \<or> fixup_encoded_header (lib_iconv libs) (cstr res) (length res + 1) = Some v"
    by (auto simp: extract_header_value_def Let_def split: option.splits bind_splits if_splits)
  have "length (cstr res) \<le> length res" by (rule length_cstr_le)
  then have "length v \<le> length res"
    using res(2) fixup_encoded_header_total [of "cstr res" "lib_iconv libs" "length res + 1"]
    by (cases "5 \<le> length res + 1") (auto simp: fixup_encoded_header_def)
  then show ?thesis using assms(1) v res(1) by (auto simp: get_header_def)
next
  case False
  then show ?thesis using assms by (auto simp: get_header_def split: option.splits)
qed

lemma received_loop_bound:
  "received_loop libs skip b p i old = Some r \<Longrightarrow> length old < MAXBUFSIZE \<Longrightarrow> length r < MAXBUFSIZE"
proof (induction libs skip b p i old arbitrary: r rule: received_loop.induct)
  case (1 libs skip b p i old)
  from 1(2) obtain s where s: "str_at b p = Some s" by (subst (asm) received_loop.simps) (auto split: bind_splits)
  show ?case
  proof (cases "strcasestr s HEADER_RECEIVED")
    case None
    then show ?thesis using 1(2,3) s by (subst (asm) received_loop.simps) simp
  next
    case (Some k)
    then obtain r1 where r1: "get_header libs b (p + k) (length s - k) HEADER_RECEIVED MAXBUFSIZE old = Some r1"
      using 1(2) s by (subst (asm) received_loop.simps) (auto split: bind_splits)
    have l: "length r1 < MAXBUFSIZE" by (rule get_header_bound [OF r1 1(3)])
    show ?thesis
    proof (cases "i = skip")
      case True
      then show ?thesis using 1(2) s Some r1 l by (subst (asm) received_loop.simps) simp
    next
      case False
      then have "received_loop libs skip b (p + k + length HEADER_RECEIVED) (i + 1) r1 = Some r"
        using 1(2) s Some r1 by (subst (asm) received_loop.simps) simp
      then show ?thesis using 1(1) [OF s Some r1 False _ l] by simp
    qed
  qed
qed

lemma parse_headers_ok:
  assumes "parse_headers libs cfg b p n m = Some m'" "message_ok m"
  shows "message_ok m'"
  using assms received_loop_bound
  by (auto simp: parse_headers_def message_ok_def Let_def dest: get_header_bound split: bind_splits)

lemma parse_headers_body: "parse_headers libs cfg b p n m = Some m' \<Longrightarrow> m_body m' = m_body m \<and> m_attachments m' = m_attachments m"
  by (auto simp: parse_headers_def Let_def split: bind_splits)

text \<open>What every step on the block promises: its size and the bytes in front of it stay.\<close>

definition keeps :: "nat \<Rightarrow> buf \<Rightarrow> buf \<Rightarrow> bool" where
  "keeps p b b' \<longleftrightarrow> length b' = length b \<and> take p b' = take p b"

lemma keeps_refl [simp]: "keeps p b b"
  by (simp add: keeps_def)

lemma keeps_trans: "keeps p b b1 \<Longrightarrow> keeps p b1 b2 \<Longrightarrow> keeps p b b2"
  by (simp add: keeps_def)

lemma keeps_less: "keeps q b b1 \<Longrightarrow> p \<le> q \<Longrightarrow> keeps p b b1"
  unfolding keeps_def by (metis min.absorb2 min.commute take_take)

lemma keeps_overwrites: "overwrites p b b' s \<Longrightarrow> keeps p b b'"
  by (simp add: overwrites_def keeps_def)

lemma keeps_wr: "wr b i c = Some b' \<Longrightarrow> p \<le> i \<Longrightarrow> keeps p b b'"
  by (auto simp: wr_def keeps_def split: if_splits)

lemma keeps_cut_next: "cut_next b part k = Some b' \<Longrightarrow> p \<le> part \<Longrightarrow> keeps p b b'"
  by (auto simp: cut_next_def dest: keeps_wr [where p = p] split: option.splits)

lemma textual_part_ok:
  assumes "textual_part libs b body charset headers html m = Some (b', m')" "1 \<le> body" "message_ok m"
  shows "keeps body b b' \<and> message_ok m'"
proof -
  from assms(1) obtain s where s: "str_at b body = Some s" by (auto simp: textual_part_def split: bind_splits)
  then obtain b1 where "read_body (transfer_encoding headers) charset html b body = Some b1"
    "overwrites body b b1 (readable_text (transfer_encoding headers) charset html s)"
    using read_body_overwrites [OF _ assms(2)] unfolding str_at_terminated by blast
  then show ?thesis
    using assms(1,3) s by (auto simp: textual_part_def overwrites_str_at intro: keeps_overwrites message_ok_append
        split: bind_splits if_splits)
qed

lemma single_body_ok:
  assumes "single_body b body m = Some (b', m')" "1 \<le> body" "message_ok m" "terminated b body"
  shows "keeps body b b' \<and> message_ok m'"
proof -
  let ?h = "strcasestr (m_content_type m) ''text/html'' \<noteq> None"
  obtain b1 where "read_body (m_content_encoding m) [] ?h b body = Some b1"
    "overwrites body b b1 (readable_text (m_content_encoding m) [] ?h (cstr (drop body b)))"
    using read_body_overwrites [OF assms(4,2)] by blast
  then show ?thesis
    using assms(1,3) by (auto simp: single_body_def Let_def overwrites_str_at intro: keeps_overwrites message_ok_append
        split: if_splits)
qed

lemma chop_newlines_overwrites:
  "terminated b p \<Longrightarrow> \<exists>b'. chop_newlines b p (length (cstr (drop p b))) = Some b' \<and>
     overwrites p b b' (rstrip_newlines (cstr (drop p b)))"
  by (rule chop_newlines_correct)

lemma attachment_part_ok:
  assumes "attachment_part libs b body ct headers m = Some (b', m')" "message_ok m" "NUL \<notin> set headers"
  shows "keeps body b b' \<and> message_ok m'"
proof (cases "length (m_attachments m) < MAX_ATTACHMENTS")
  case False
  then show ?thesis using assms(1,2) by (auto simp: attachment_part_def split: bind_splits)
next
  case True
  obtain filename where f: "extract_name_from_headers (lib_iconv libs) headers SMALLBUFSIZE = Some filename" "NUL \<notin> set filename"
    using extract_name_total [OF assms(3)] by blast
  let ?name = "snprintf_s (TINYBUFSIZE - 1) (''ATT*'' @ convert_whitespace filename)"
  have "NUL \<notin> set (''ATT*'' @ convert_whitespace filename)" using f(2) by (auto simp: convert_whitespace_def)
  then have n: "NUL \<notin> set ?name" "length ?name < TINYBUFSIZE"
    using set_snprintf_s [of "TINYBUFSIZE - 1" "''ATT*'' @ convert_whitespace filename"]
      snprintf_s_length [of "TINYBUFSIZE - 1" "''ATT*'' @ convert_whitespace filename"] by (blast, simp)
  let ?ty = "case strchr ct (CHR '';'') of None \<Rightarrow> [] | Some i \<Rightarrow> snprintf_s (TINYBUFSIZE - 1) (take i ct)"
  obtain s b1 t digest where s: "str_at b body = Some s" "chop_newlines b body (length s) = Some b1" "str_at b1 body = Some t"
    "digest_string libs ''sha256'' t (replicate DIGEST_ROOM NUL) = Some digest"
    using assms(1) True f(1) by (auto simp: attachment_part_def Let_def split: bind_splits)
  have r: "b' = b1" "m' = append_to_body ?name m\<lparr>m_attachments := m_attachments (append_to_body ?name m) @
      [\<lparr>at_size = length s, at_type = ?ty, at_filename = ?name, at_digest = cstr digest\<rparr>]\<rparr>"
    using assms(1) s True f(1) by (simp_all add: attachment_part_def Let_def)
  have ty: "length ?ty < TINYBUFSIZE"
  proof (cases "strchr ct (CHR '';'')")
    case (Some i)
    then show ?thesis using snprintf_s_length [of 127 "take i ct"] by simp
  qed simp
  have "keeps body b b1"
    using chop_newlines_overwrites [of b body] s(1,2) keeps_overwrites by (auto simp: str_at_terminated)
  moreover have "message_ok (append_to_body ?name m)" by (rule message_ok_append [OF assms(2) n(1)])
  moreover have "m_attachments (append_to_body ?name m) = m_attachments m" by (simp add: append_to_body_def)
  ultimately show ?thesis using r ty n(2) True digest_string_length [OF s(4)] by (auto simp: message_ok_def)
qed

lemma read_part_leaf:
  assumes "read_part libs b part = Some (Leaf body ct charset headers part_ct)"
  shows "NUL \<notin> set headers" "1 \<le> body"
proof -
  obtain s k where s: "str_at b part = Some s" "find_part_body s = Some k" "body = part + k"
    "headers = snprintf_s (SMALLBUFSIZE - 1) (take k s)"
    using assms by (auto simp: read_part_def split: option.splits bind_splits if_splits)
  have "NUL \<notin> set (take k s)" using s(1) by (auto simp: str_at_terminated dest: in_set_takeD)
  then show "NUL \<notin> set headers" using s(4) set_snprintf_s by blast
  show "1 \<le> body" using find_part_body_ge [OF s(2)] s(3) by simp
qed

lemma message_ok_flags: "message_ok m \<Longrightarrow> message_ok (m\<lparr>m_has_octet_stream := x\<rparr>)" "message_ok m \<Longrightarrow> message_ok (m\<lparr>m_has_image := x\<rparr>)"
  by (simp_all add: message_ok_def)

lemma keep_size_keeps: "keeps p b b' \<Longrightarrow> keep_size b b' = Some b'"
  by (simp add: keeps_def keep_size_def)

lemma terminated_inside: "str_at b p = Some s \<Longrightarrow> j \<le> length s \<Longrightarrow> terminated b (p + j)"
proof -
  assume a: "str_at b p = Some s" "j \<le> length s"
  then obtain r where r: "drop p b = s @ NUL # r" unfolding str_at_terminated by (metis terminatedE)
  have "drop (p + j) b = drop j (drop p b)" by (simp add: add.commute)
  also have "\<dots> = drop j s @ NUL # r" using a(2) r by simp
  finally have "drop (p + j) b = drop j s @ NUL # r" .
  then show ?thesis by (simp add: terminated_def)
qed

lemma terminated_wr: "wr b i c = Some b' \<Longrightarrow> i < q \<Longrightarrow> terminated b q \<Longrightarrow> terminated b' q"
  by (auto simp: wr_def terminated_def split: if_splits)

lemma parser_keeps:
  shows "parse_eml_buffer libs cfg b p m = Some (rc, b', m') \<Longrightarrow> message_ok m \<Longrightarrow> keeps p b b' \<and> message_ok m'"
    and "extract_mime_parts libs cfg b body boundary m = Some (b', m') \<Longrightarrow> message_ok m \<Longrightarrow> keeps body b b' \<and> message_ok m'"
    and "mime_loop libs cfg boundary b marker m = Some (b', m') \<Longrightarrow> message_ok m \<Longrightarrow> keeps marker b b' \<and> message_ok m'"
proof (induction libs cfg b p m and libs cfg b body boundary m and libs cfg boundary b marker m
    arbitrary: rc b' m' and b' m' and b' m'
    rule: parse_eml_buffer_extract_mime_parts_mime_loop.induct)
  case (1 libs cfg b p m)
  obtain s where s: "str_at b p = Some s"
    using 1(2) by (subst (asm) parse_eml_buffer.simps) (auto split: bind_splits)
  show ?case
  proof (cases "find_headers_end s")
    case None
    then show ?thesis using 1(2,3) s parse_headers_ok
      by (subst (asm) parse_eml_buffer.simps) auto
  next
    case (Some k)
    let ?body = "p + k + (if strstr s [CR, LF, CR, LF] \<noteq> None then 4 else 2)"
    obtain b1 m1 b2 where b: "wr b (p + k) NUL = Some b1" "parse_headers libs cfg b1 p k m = Some m1" "wr b1 (p + k) LF = Some b2"
      using 1(2) s Some by (subst (asm) parse_eml_buffer.simps) (auto split: bind_splits)
    have m1: "message_ok m1" by (rule parse_headers_ok [OF b(2) 1(3)])
    have k: "keeps p b b2" by (rule keeps_trans [OF keeps_wr [OF b(1)] keeps_wr [OF b(3)]]) simp_all
    let ?multi = "m_content_type m1 \<noteq> [] \<and> strstr (m_content_type m1) ''multipart/'' \<noteq> None"
    show ?thesis
    proof (cases ?multi)
      case True
      show ?thesis
      proof (cases "find_boundary (m_content_type m1) SMALLBUFSIZE")
        case None
        then show ?thesis using 1(2) s Some b True m1 k by (subst (asm) parse_eml_buffer.simps) simp
      next
        case (Some boundary)
        then have e: "extract_mime_parts libs cfg b2 ?body boundary m1 = Some (b', m')"
          using 1(2) s \<open>find_headers_end s = Some k\<close> b True
          by (subst (asm) parse_eml_buffer.simps) (auto simp: Let_def)
        then have "keeps ?body b2 b' \<and> message_ok m'"
          using 1(1) [OF s \<open>find_headers_end s = Some k\<close> b refl True Some] m1 by blast
        then show ?thesis using keeps_trans [OF k keeps_less [of ?body]] by auto
      qed
    next
      case False
      then have e: "single_body b2 ?body m1 = Some (b', m')"
        using 1(2) s Some b by (subst (asm) parse_eml_buffer.simps) (auto simp: Let_def)
      have "?body \<le> p + length s"
        using Some strstr_length [of s "[CR, LF, CR, LF]"] strstr_length [of s "[LF, LF]"]
        by (auto simp: find_headers_end_def split: option.splits)
      then have "terminated b (p + (?body - p))" using s by (intro terminated_inside) auto
      moreover have "p + (?body - p) = ?body" by (simp only: add.assoc diff_add_inverse)
      ultimately have "terminated b ?body" by (simp only:)
      then have "terminated b2 ?body" using terminated_wr [OF b(1), of ?body] terminated_wr [OF b(3), of ?body] by auto
      then have "keeps ?body b2 b' \<and> message_ok m'" using single_body_ok [OF e _ m1] by simp
      then show ?thesis using keeps_trans [OF k keeps_less [of ?body]] by auto
    qed
  qed
next
  case (2 libs cfg b body boundary m)
  obtain s where s: "str_at b body = Some s"
    using 2(2) by (subst (asm) extract_mime_parts.simps) (auto split: bind_splits)
  show ?case
  proof (cases "strstr s (boundary_marker boundary)")
    case None
    then show ?thesis using 2(2,3) s by (subst (asm) extract_mime_parts.simps) simp
  next
    case (Some k)
    then have "mime_loop libs cfg boundary b (body + k) m = Some (b', m')"
      using 2(2) s by (subst (asm) extract_mime_parts.simps) simp
    then show ?thesis using 2(1) [OF s Some] 2(3) keeps_less [of "body + k" b b' body] by auto
  qed
next
  case (3 libs cfg boundary b marker m)
  let ?part = "marker + length (boundary_marker boundary)"
  obtain s b1 found where s: "str_at b ?part = Some s" "cut_next b ?part (strstr s (boundary_marker boundary)) = Some b1"
    "read_part libs b1 ?part = Some found"
    using 3(5) by (subst (asm) mime_loop.simps) (auto simp: Let_def split: bind_splits)
  have k: "keeps ?part b b1" by (rule keeps_cut_next [OF s(2)]) simp
  note k' = keeps_less [of ?part _ _ marker, OF _ le_add1]
  let ?stop = "case found of Nested body bd \<Rightarrow> bd = None | _ \<Rightarrow> False"
  show ?case
  proof (cases "found = Headers_only")
    case True
    then have "mime_loop libs cfg boundary b1 ?part m = Some (b', m')"
      using 3(5) s by (subst (asm) mime_loop.simps) (simp add: Let_def)
    then show ?thesis using 3(1) [OF refl s True] 3(6) keeps_trans [OF k] k' by blast
  next
    case no_headers: False
    show ?thesis
    proof (cases ?stop)
      case True
      then show ?thesis
        using 3(5,6) s no_headers k k' by (subst (asm) mime_loop.simps) (simp add: Let_def)
    next
      case False
      let ?r = "case found of
          Nested body bd \<Rightarrow> extract_mime_parts libs cfg b1 body (the bd) m
        | Leaf body ct charset headers part_ct \<Rightarrow>
            (case leaf_kind part_ct of
               Textual \<Rightarrow> textual_part libs b1 body charset headers False m
             | Html_text \<Rightarrow> textual_part libs b1 body charset headers True m
             | Rfc822 \<Rightarrow> map_option snd (parse_eml_buffer libs cfg b1 body (drop_header m))
             | Octet_stream \<Rightarrow> attachment_part libs b1 body ct headers (m\<lparr>m_has_octet_stream := True\<rparr>)
             | Image \<Rightarrow> attachment_part libs b1 body ct headers (m\<lparr>m_has_image := True\<rparr>)
             | Other \<Rightarrow> attachment_part libs b1 body ct headers m)
        | _ \<Rightarrow> Some (b1, m)"
      obtain b2 m2 where r: "?r = Some (b2, m2)"
        using 3(5) s no_headers False by (subst (asm) mime_loop.simps) (auto simp: Let_def split: bind_splits)
      have h: "keeps ?part b1 b2 \<and> message_ok m2"
      proof (cases found)
        case (Nested body bd)
        then have e: "extract_mime_parts libs cfg b1 body (the bd) m = Some (b2, m2)" using r by simp
        have "?part \<le> body" using read_part_body(1) [of libs b1 ?part body bd] s(3) Nested by simp
        then show ?thesis using 3(2) [OF refl s no_headers False Nested e 3(6)] keeps_less by blast
      next
        case (Leaf body ct charset headers part_ct)
        have l: "NUL \<notin> set headers" "1 \<le> body" "?part \<le> body"
          using read_part_leaf [of libs b1 ?part body ct charset headers part_ct]
            read_part_body(2) [of libs b1 ?part body ct charset headers part_ct] s(3) Leaf by auto
        have "keeps body b1 b2 \<and> message_ok m2"
        proof (cases "leaf_kind part_ct")
          case Rfc822
          then obtain rc where e: "parse_eml_buffer libs cfg b1 body (drop_header m) = Some (rc, b2, m2)"
            using r Leaf by auto
          show ?thesis
            by (rule 3(3) [OF refl s no_headers False Leaf Rfc822 e message_ok_drop [OF 3(6)]])
        qed (use r Leaf l textual_part_ok attachment_part_ok message_ok_flags 3(6) in auto)
        then show ?thesis using l(3) keeps_less by blast
      qed (use r 3(6) no_headers in auto)
      have k2: "keeps ?part b b2" using keeps_trans [OF k] h by blast
      then have ks: "keep_size b b2 = Some b2" by (rule keep_size_keeps)
      show ?thesis
      proof (cases "strstr s (boundary_marker boundary)")
        case None
        then have "b' = b2" "m' = m2"
          using 3(5) s no_headers False r ks by (subst (asm) mime_loop.simps; simp add: Let_def)+
        then show ?thesis using h k2 k' by blast
      next
        case (Some j)
        then have "mime_loop libs cfg boundary b2 (?part + j) m2 = Some (b', m')"
          using 3(5) s no_headers False r ks by (subst (asm) mime_loop.simps) (simp add: Let_def)
        then have "keeps (?part + j) b2 b' \<and> message_ok m'"
          using 3(4) [OF refl s no_headers False r refl ks Some] h by blast
        then show ?thesis using keeps_trans [OF k2] keeps_less [of "?part + j" b2 b' ?part] k' by auto
      qed
    qed
  qed
qed

section \<open>A message in one part\<close>

lemma find_headers_end_eol:
  assumes "find_headers_end (h @ eol @ eol @ body) = Some (length h)" "eol = [LF] \<or> eol = [CR, LF]"
  shows "(if strstr (h @ eol @ eol @ body) [CR, LF, CR, LF] \<noteq> None then 4 else 2) = 2 * length eol"
proof (cases "strstr (h @ eol @ eol @ body) [CR, LF, CR, LF]")
  case None
  then have "strstr (h @ eol @ eol @ body) [LF, LF] = Some (length h)"
    using assms(1) by (simp add: find_headers_end_def)
  then have "prefix [LF, LF] (eol @ eol @ body)" using strstr_SomeD by fastforce
  then show ?thesis using None assms(2) by auto
next
  case (Some k)
  then have "k = length h" using assms(1) by (simp add: find_headers_end_def)
  then have "prefix [CR, LF, CR, LF] (eol @ eol @ body)" using strstr_SomeD [OF Some] by simp
  then show ?thesis using Some assms(2) by auto
qed

lemma parse_single_message:
  assumes "str_at b p = Some (h @ eol @ eol @ body)" "eol = [LF] \<or> eol = [CR, LF]"
    and "find_headers_end (h @ eol @ eol @ body) = Some (length h)"
    and "parse_headers libs cfg (b[p + length h := NUL]) p (length h) m = Some m1"
    and "m_content_type m1 = [] \<or> strstr (m_content_type m1) ''text/plain'' \<noteq> None \<or> strstr (m_content_type m1) ''text/html'' \<noteq> None"
    and "strstr (m_content_type m1) ''multipart/'' = None"
  shows "\<exists>b'. parse_eml_buffer libs cfg b p m =
    Some (0, b', append_to_body
      (cstr (readable_text (m_content_encoding m1) [] (strcasestr (m_content_type m1) ''text/html'' \<noteq> None) body)) m1)"
proof -
  let ?s = "h @ eol @ eol @ body" and ?q = "p + length h + 2 * length eol"
  obtain r where r: "drop p b = ?s @ NUL # r" "p < length b"
    using assms(1) unfolding str_at_terminated by (metis terminatedE)
  have n: "NUL \<notin> set ?s" using assms(1) cstr_no_NUL unfolding str_at_terminated by metis
  have l: "p + length ?s < length b" by (rule str_at_length [OF assms(1)])
  let ?b1 = "b[p + length h := NUL]" and ?b2 = "b[p + length h := LF]"
  have b1: "wr b (p + length h) NUL = Some ?b1" "wr ?b1 (p + length h) LF = Some ?b2"
    using l by (simp_all add: wr_def)
  have "drop ?q b = body @ NUL # r"
    using drop_eq_appendD [of p b "h @ eol @ eol"] r(1) by (simp add: add.assoc mult_2)
  moreover have "drop ?q ?b2 = drop ?q b" using assms(2) by (auto simp: drop_update_cancel)
  ultimately have d: "drop ?q ?b2 = body @ NUL # r" by simp
  have t: "terminated ?b2 ?q" "cstr (drop ?q ?b2) = body"
    using n unfolding terminated_def d by (auto simp: cstr_append_NUL cstr_id)
  let ?h = "strcasestr (m_content_type m1) ''text/html'' \<noteq> None"
  obtain b3 where b3: "read_body (m_content_encoding m1) [] ?h ?b2 ?q = Some b3"
    "overwrites ?q ?b2 b3 (readable_text (m_content_encoding m1) [] ?h body)"
    using read_body_overwrites [OF t(1)] assms(2) unfolding t(2) by fastforce
  have "single_body ?b2 ?q m1 = Some (b3, append_to_body (cstr (readable_text (m_content_encoding m1) [] ?h body)) m1)"
    using assms(5) b3(1) overwrites_str_at [OF b3(2)] by (auto simp: single_body_def Let_def)
  then show ?thesis
    using find_headers_end_eol [OF assms(3,2)] assms(6)
    by (subst parse_eml_buffer.simps) (simp add: assms(1,3,4) b1 Let_def)
qed

section \<open>A message in several parts\<close>

lemma strstr_append: "strstr x n = Some k \<Longrightarrow> strstr (x @ y) n = Some k"
proof (induction x arbitrary: k)
  case (Cons c x)
  show ?case
  proof (cases "prefix n (c # x)")
    case True
    then have "prefix n (c # x @ y)" by (metis append_Cons prefix_prefix)
    then show ?thesis using Cons.prems True by simp
  next
    case False
    then obtain z where z: "strstr x n = Some z" "k = Suc z" using Cons.prems by auto
    have "length n \<le> length x" using strstr_length [OF z(1)] by simp
    then have "\<not> prefix n ((c # x) @ y)"
      using False prefix_length_prefix [of n "(c # x) @ y" "c # x"] by auto
    then show ?thesis using Cons.IH [OF z(1)] z(2) by simp
  qed
qed (simp split: if_splits)

lemma strcasestr_append: "strcasestr x n = Some k \<Longrightarrow> strcasestr (x @ y) n = Some k"
  by (simp add: strcasestr_def strstr_append)

text \<open>The header of a part with the content type \<open>v\<close>.\<close>

definition typed_header :: "string \<Rightarrow> string \<Rightarrow> bool" where
  "typed_header hs v \<longleftrightarrow>
     (\<exists>pre nm ws w cs tail. hs = pre @ nm @ ws @ w @ conts [CR, LF] cs @ tail \<and>
        length nm = length HEADER_CONTENT_TYPE \<and> strcasestr hs HEADER_CONTENT_TYPE = Some (length pre) \<and>
        (pre = [] \<or> last pre = LF) \<and> (\<forall>c\<in>set ws. isspace c) \<and> w \<noteq> [] \<and> \<not> isspace (hd w) \<and>
        plain_line w \<and> plain_conts cs \<and> ends_value [CR, LF] tail \<and> v = unfolded w cs \<and> length v < 2 * SMALLBUFSIZE)"

abbreviation blank_line :: string where
  "blank_line \<equiv> [CR, LF, CR, LF]"

definition part_headers :: "string \<Rightarrow> string" where
  "part_headers hs = snprintf_s (SMALLBUFSIZE - 1) (hs @ blank_line)"

definition type_from :: "string \<Rightarrow> string" where
  "type_from hs = (case strcasestr hs HEADER_CONTENT_TYPE of None \<Rightarrow> [] | Some k \<Rightarrow> drop k (hs @ blank_line))"

lemma unfolded_not_empty: "w \<noteq> [] \<Longrightarrow> unfolded w cs \<noteq> []"
proof (induction cs arbitrary: w)
  case (Cons c cs)
  then show ?case by (cases c) simp
qed simp

lemma read_part_typed:
  assumes "drop part b = (hs @ blank_line @ t) @ NUL # r" "NUL \<notin> set (hs @ blank_line @ t)"
    and "typed_header hs v" "strstr (hs @ blank_line) blank_line = Some (length hs)"
    and "strcasestr v ''multipart/'' = None"
    and "extract_token_from_header_line (lib_iconv libs) v ''charset'' SMALLBUFSIZE = Some charset"
  shows "read_part libs b part = Some (Leaf (part + length hs + 4) (snprintf_s (SMALLBUFSIZE - 1) v) charset
    (part_headers hs) (type_from hs))"
proof -
  let ?s = "hs @ blank_line @ t"
  have s: "str_at b part = Some ?s" by (rule str_at_drop [OF assms(1,2)])
  obtain pre nm ws w cs tail where h: "hs = pre @ nm @ ws @ w @ conts [CR, LF] cs @ tail"
    "length nm = length HEADER_CONTENT_TYPE" "strcasestr hs HEADER_CONTENT_TYPE = Some (length pre)"
    "pre = [] \<or> last pre = LF" "\<forall>c\<in>set ws. isspace c" "w \<noteq> []" "\<not> isspace (hd w)" "plain_line w" "plain_conts cs"
    "ends_value [CR, LF] tail" "v = unfolded w cs" "length v < 2 * SMALLBUFSIZE"
    using assms(3) unfolding typed_header_def by blast
  have ct: "strcasestr ?s HEADER_CONTENT_TYPE = Some (length pre)" by (rule strcasestr_append [OF h(3)])
  have e: "ends_value [CR, LF] (tail @ blank_line @ t)"
  proof (cases "tail = []")
    case False
    then obtain rest where "tail = [CR, LF] @ rest" "rest = [] \<or> hd rest \<noteq> SPACE \<and> hd rest \<noteq> TAB"
      using h(10) by (auto simp: ends_value_def)
    then show ?thesis by (cases rest) (auto simp: ends_value_def)
  qed (simp add: ends_value_def)
  have S: "?s = pre @ nm @ ws @ w @ conts [CR, LF] cs @ tail @ blank_line @ t" by (simp only: h(1) append_assoc)
  have d: "drop part b = pre @ nm @ ws @ w @ conts [CR, LF] cs @ (tail @ blank_line @ t) @ NUL # r"
    by (simp only: assms(1) h(1) append_assoc)
  have l: "length (unfolded w cs) < 2 * SMALLBUFSIZE" "(2::nat) \<le> 2 * SMALLBUFSIZE" using h(11,12) by simp_all
  have v: "extract_header_value (lib_iconv libs) b part (length ?s) HEADER_CONTENT_TYPE (2 * SMALLBUFSIZE) = Some (Some v)"
    using extract_header_value_value [OF d assms(2) [unfolded S] ct [unfolded S] h(2,4,5,6,7,8,9) disjI1 [OF refl] e l,
        of "lib_iconv libs"]
    unfolding S [symmetric] h(11) [symmetric] by simp
  have ne: "v \<noteq> []" using unfolded_not_empty [OF h(6), of cs] h(11) by simp
  have "strstr (hs @ blank_line @ t) blank_line = Some (length hs)"
    using strstr_append [OF assms(4), of t] by simp
  then have k: "find_part_body ?s = Some (length hs + 4)" by (simp add: find_part_body_def)
  have "length pre \<le> length hs + 4" using h(1) by simp
  moreover have "take (length hs + 4) ?s = hs @ blank_line" by simp
  ultimately show ?thesis
    unfolding read_part_def s Option.bind.bind_lunit ct option.case k v
    using ne assms(5,6) by (simp only: if_True if_False simp_thms not_None_eq option.simps Option.bind.bind_lunit
        part_headers_def type_from_def h(3) add.assoc Let_def)
qed

text \<open>A part with a text: its header, its content type and character set, and its text.\<close>

record text_part =
  tp_header :: string
  tp_type :: string
  tp_charset :: string
  tp_text :: string

definition part_source :: "text_part \<Rightarrow> string" where
  "part_source tp = tp_header tp @ blank_line @ tp_text tp"

definition good_part :: "libraries \<Rightarrow> string \<Rightarrow> text_part \<Rightarrow> bool" where
  "good_part libs marker tp \<longleftrightarrow>
     typed_header (tp_header tp) (tp_type tp) \<and>
     strstr (tp_header tp @ blank_line) blank_line = Some (length (tp_header tp)) \<and>
     strcasestr (tp_type tp) ''multipart/'' = None \<and>
     extract_token_from_header_line (lib_iconv libs) (tp_type tp) ''charset'' SMALLBUFSIZE = Some (tp_charset tp) \<and>
     leaf_kind (type_from (tp_header tp)) \<in> {Textual, Html_text} \<and>
     extract_name_from_headers (lib_iconv libs) (part_headers (tp_header tp)) SMALLBUFSIZE = Some [] \<and>
     NUL \<notin> set (part_source tp) \<and> strstr (part_source tp @ marker) marker = Some (length (part_source tp))"

definition part_text :: "text_part \<Rightarrow> string" where
  "part_text tp = cstr (readable_text (transfer_encoding (part_headers (tp_header tp))) (tp_charset tp)
     (leaf_kind (type_from (tp_header tp)) = Html_text) (tp_text tp))"

fun parts_source :: "string \<Rightarrow> text_part list \<Rightarrow> string \<Rightarrow> string" where
  "parts_source marker [] epilogue = epilogue"
| "parts_source marker (tp # tps) epilogue = part_source tp @ marker @ parts_source marker tps epilogue"

text \<open>One part: it is cut off, its text is read, and the bytes behind its end are as before.\<close>

lemma mime_part_step:
  assumes "good_part libs (boundary_marker boundary) tp" "part = marker + length (boundary_marker boundary)"
    and "drop part b = part_source tp @ boundary_marker boundary @ rest @ NUL # r" "NUL \<notin> set (boundary_marker boundary @ rest)"
  shows "\<exists>b2. mime_loop libs cfg boundary b marker m =
      mime_loop libs cfg boundary b2 (part + length (part_source tp)) (append_to_body (part_text tp) m) \<and>
    length b2 = length b \<and>
    drop (part + length (part_source tp) + length (boundary_marker boundary)) b2 = rest @ NUL # r"
proof -
  let ?mk = "boundary_marker boundary" and ?hs = "tp_header tp" and ?t = "tp_text tp"
  let ?n = "part + length (part_source tp)" and ?body = "part + length ?hs + 4"
  note g = assms(1) [unfolded good_part_def]
  have mk: "2 \<le> length ?mk" by (rule boundary_marker_length)
  have all: "NUL \<notin> set (part_source tp @ ?mk @ rest)" using g assms(4) by auto
  have s: "str_at b part = Some (part_source tp @ ?mk @ rest)"
    using assms(3) all by (intro str_at_drop [where r = r]) auto
  have st: "strstr (part_source tp @ ?mk @ rest) ?mk = Some (length (part_source tp))"
    using strstr_append [of "part_source tp @ ?mk" ?mk _ rest] g by simp
  have len: "length b = part + length (part_source tp) + length ?mk + length rest + Suc (length r)"
    using str_at_length [OF s] drop_eq_append_length [of part b "part_source tp @ ?mk @ rest" "NUL # r"] assms(3) by simp
  let ?b1 = "b[?n := NUL]"
  have b1: "cut_next b part (Some (length (part_source tp))) = Some ?b1"
    using len mk by (simp add: cut_next_def wr_def)
  have nb: "drop ?n b = ?mk @ rest @ NUL # r" using drop_eq_appendD [OF assms(3)] .
  have d1: "drop part ?b1 = part_source tp @ NUL # tl ?mk @ rest @ NUL # r"
  proof -
    have "drop part ?b1 = (drop part b)[length (part_source tp) := NUL]"
      using len by (simp add: drop_update_swap)
    also have "\<dots> = part_source tp @ (?mk @ rest @ NUL # r)[0 := NUL]" by (simp only: assms(3) list_update_length list_update_append) simp
    finally show ?thesis using mk by (cases ?mk) auto
  qed
  have f: "read_part libs ?b1 part = Some (Leaf ?body (snprintf_s (SMALLBUFSIZE - 1) (tp_type tp)) (tp_charset tp)
      (part_headers ?hs) (type_from ?hs))"
    using d1 g unfolding part_source_def by (intro read_part_typed [where t = ?t]) auto
  have db: "drop ?body ?b1 = ?t @ NUL # tl ?mk @ rest @ NUL # r"
    using drop_eq_appendD [of part ?b1 "?hs @ blank_line" "?t @ NUL # tl ?mk @ rest @ NUL # r"] d1
    by (simp add: part_source_def eval_nat_numeral)
  have t: "terminated ?b1 ?body" "cstr (drop ?body ?b1) = ?t"
    using g unfolding terminated_def db by (auto simp: cstr_append_NUL cstr_id part_source_def)
  let ?html = "leaf_kind (type_from ?hs) = Html_text"
  obtain b2 where b2: "read_body (transfer_encoding (part_headers ?hs)) (tp_charset tp) ?html ?b1 ?body = Some b2"
    "overwrites ?body ?b1 b2 (readable_text (transfer_encoding (part_headers ?hs)) (tp_charset tp) ?html ?t)"
    using read_body_overwrites [OF t(1)] unfolding t(2) by fastforce
  have name: "extract_name_from_headers (lib_iconv libs) (part_headers ?hs) SMALLBUFSIZE = Some []" using g by (elim conjE)
  have tp: "textual_part libs ?b1 ?body (tp_charset tp) (part_headers ?hs) ?html m = Some (b2, append_to_body (part_text tp) m)"
    using b2(1) overwrites_str_at [OF b2(2)] t name
    by (simp only: textual_part_def str_at_def if_True Option.bind.bind_lunit part_text_def simp_thms if_False prod.case)
  have l2: "length b2 = length b" using b2(2) by (simp add: overwrites_def)
  have "?body + Suc (length ?t) = Suc ?n" by (simp add: part_source_def)
  moreover have "drop (?body + Suc (length ?t)) b2 = drop (?body + Suc (length ?t)) ?b1"
    using b2(2) unfolding overwrites_def t(2) by (elim conjE)
  ultimately have "drop (Suc ?n) b2 = drop (Suc ?n) ?b1" by (simp only:)
  also have "\<dots> = drop (Suc ?n) b" by (simp add: drop_update_cancel)
  also have "\<dots> = tl ?mk @ rest @ NUL # r" using nb mk by (cases ?mk) (auto dest: drop_eq_ConsD)
  finally have d2: "drop (Suc ?n) b2 = tl ?mk @ rest @ NUL # r" .
  have "drop (?n + length ?mk) b2 = rest @ NUL # r"
    using drop_eq_appendD [OF d2] mk by (cases ?mk) auto
  moreover have "mime_loop libs cfg boundary b marker m = mime_loop libs cfg boundary b2 ?n (append_to_body (part_text tp) m)"
    using g tp by (subst mime_loop.simps)
      (auto simp: assms(2) [symmetric] s st b1 f l2 keep_size_def Let_def split: leaf_type.split)
  ultimately show ?thesis using l2 by blast
qed

lemma mime_loop_parts:
  assumes "\<forall>tp\<in>set tps. good_part libs (boundary_marker boundary) tp"
    and "NUL \<notin> set (boundary_marker boundary @ epilogue)" "strstr epilogue (boundary_marker boundary) = None"
    and "strcasestr epilogue HEADER_CONTENT_TYPE = None"
  shows "drop (marker + length (boundary_marker boundary)) b = parts_source (boundary_marker boundary) tps epilogue @ NUL # r \<Longrightarrow>
    \<exists>b'. mime_loop libs cfg boundary b marker m = Some (b', foldl (\<lambda>m tp. append_to_body (part_text tp) m) m tps)"
  using assms(1)
proof (induction tps arbitrary: b marker m)
  case Nil
  have s: "str_at b (marker + length (boundary_marker boundary)) = Some epilogue"
    using Nil(1) assms(2) by (intro str_at_drop [where r = r]) auto
  then show ?case
    using assms(3,4) by (subst mime_loop.simps) (simp add: Let_def cut_next_def read_part_def keep_size_def)
next
  case (Cons tp tps)
  let ?mk = "boundary_marker boundary"
  have n: "NUL \<notin> set (?mk @ parts_source ?mk tps epilogue)"
    using Cons.prems(2) assms(2) by (induction tps) (auto simp: good_part_def)
  obtain b2 where "mime_loop libs cfg boundary b marker m = mime_loop libs cfg boundary b2
      (marker + length ?mk + length (part_source tp)) (append_to_body (part_text tp) m)"
    "drop (marker + length ?mk + length (part_source tp) + length ?mk) b2 = parts_source ?mk tps epilogue @ NUL # r"
    using mime_part_step [OF _ refl _ n, of libs tp marker b r cfg m] Cons.prems by auto
  then show ?case using Cons.IH [of "marker + length ?mk + length (part_source tp)" b2] Cons.prems(2) by simp
qed


text \<open>
  C19: Parsing takes place inside the block: the block keeps its size, no byte in front of the message
  changes, and every array of the message record, the digests of the attachments included, keeps room for
  its terminator, for the message itself and all the parts and messages nested in it.  (The \<open>memset\<close> of a
  digest clears one byte behind that array, which is padding of \<open>struct attachment\<close>:
  \<open>digest_string_past_array\<close>.)
\<close>

theorem parse_eml_buffer_keeps:
  assumes "parse_eml_buffer libs cfg b p m = Some (rc, b', m')" "message_ok m"
  shows "length b' = length b \<and> take p b' = take p b \<and> message_ok m'"
  using parser_keeps(1) [OF assms] by (simp add: keeps_def)

text \<open>A message without any header the program looks for.\<close>

abbreviation known_headers :: "string list" where
  "known_headers \<equiv> [HEADER_FROM, HEADER_SUBJECT, ''Message-ID:'', HEADER_CONTENT_TYPE, HEADER_CONTENT_TRANSFER_ENCODING,
     ''Kospam-Envelope-From: '', ''Kospam-Envelope-Recipient: '', ''Kospam-Xforward: '', ''X-Kospam-Watermark: '', HEADER_RECEIVED]"

lemma get_header_missing:
  "str_at b p = Some s \<Longrightarrow> strcasestr s name = None \<Longrightarrow> get_header libs b p n name sz old = Some old"
  by (simp add: get_header_def extract_header_value_def find_header.simps)

lemma parse_headers_missing:
  assumes "str_at b p = Some s" "\<forall>name\<in>set known_headers. strcasestr s name = None" "cfg_our_signo cfg = []"
  shows "parse_headers libs cfg b p n m = Some m"
proof -
  have g: "get_header libs b p n name sz old = Some old" if "name \<in> set known_headers" for name sz old
    using get_header_missing assms(1,2) that by blast
  have r: "received_loop libs k b p i old = Some old" for k i old
    using assms(1,2) by (simp add: received_loop.simps)
  show ?thesis by (simp add: parse_headers_def g r assms(1,3))
qed

abbreviation no_libraries :: libraries where
  "no_libraries \<equiv> \<lparr>lib_iconv = (\<lambda>_. None), lib_digest = (\<lambda>_. None)\<rparr>"

text \<open>The smallest example: a header the program does not look for and a body.\<close>

abbreviation small_message :: string where
  "small_message \<equiv> ''A: b'' @ [LF, LF] @ ''Hello'' @ [NUL]"

lemma small_message_parts:
  "str_at small_message 0 = Some (''A: b'' @ [LF] @ [LF] @ ''Hello'')"
  "find_headers_end (''A: b'' @ [LF] @ [LF] @ ''Hello'') = Some (length ''A: b'')"
  "parse_headers libs (default_config []) (small_message[0 + length ''A: b'' := NUL]) 0 n m = Some m"
proof -
  show "str_at small_message 0 = Some (''A: b'' @ [LF] @ [LF] @ ''Hello'')"
    by (simp add: str_at_def terminated_def cstr_Cons)
  show "find_headers_end (''A: b'' @ [LF] @ [LF] @ ''Hello'') = Some (length ''A: b'')" by code_simp
  have u: "small_message[0 + length ''A: b'' := NUL] = ''A: b'' @ [NUL, LF] @ ''Hello'' @ [NUL]"
    by (simp add: eval_nat_numeral)
  have s1: "str_at (small_message[0 + length ''A: b'' := NUL]) 0 = Some ''A: b''"
    unfolding u by (simp add: str_at_def terminated_def cstr_Cons)
  have k: "\<forall>name\<in>set known_headers. strcasestr ''A: b'' name = None" by code_simp
  have c: "cfg_our_signo (default_config []) = []" by (simp add: default_config_def)
  show "parse_headers libs (default_config []) (small_message[0 + length ''A: b'' := NUL]) 0 n m = Some m"
    by (rule parse_headers_missing [OF s1 k c])
qed

lemma small_message_text:
  "strstr [] ''multipart/'' = None" "strcasestr [] ''text/html'' = None"
  "m_content_type empty_message = []" "m_content_encoding empty_message = []"
  "append_to_body (cstr (readable_text [] [] False ''Hello'')) empty_message = empty_message\<lparr>m_body := ''Hello''\<rparr>"
proof -
  have n: "strcasestr [] ''base64'' = None" "strcasestr [] ''quoted-printable'' = None" by code_simp+
  show "append_to_body (cstr (readable_text [] [] False ''Hello'')) empty_message = empty_message\<lparr>m_body := ''Hello''\<rparr>"
    by (simp add: readable_text_def transfer_text_def n append_to_body_def empty_message_def mem_simps)
qed (simp_all add: strcasestr_def empty_message_def)

lemma small_message_parsed:
  "\<exists>b'. parse_eml_buffer libs (default_config []) small_message 0 empty_message =
     Some (0, b', empty_message\<lparr>m_body := ''Hello''\<rparr>)"
  using parse_single_message [OF small_message_parts(1) disjI1 [OF refl] small_message_parts(2) small_message_parts(3) [of libs _ empty_message]]
  unfolding small_message_text by (simp add: small_message_text)

lemma parse_eml_buffer_keeps_witness:
  "\<exists>b'. parse_eml_buffer no_libraries (default_config []) small_message 0 empty_message =
     Some (0, b', empty_message\<lparr>m_body := ''Hello''\<rparr>) \<and>
    length b' = length small_message \<and> message_ok (empty_message\<lparr>m_body := ''Hello''\<rparr>)"
proof -
  obtain b' where b: "parse_eml_buffer no_libraries (default_config []) small_message 0 empty_message =
     Some (0, b', empty_message\<lparr>m_body := ''Hello''\<rparr>)" using small_message_parsed by blast
  show ?thesis using parse_eml_buffer_keeps [OF b message_ok_empty] b by blast
qed


text \<open>
  A message that is not multipart: when it has no content type or is plain or HTML text, its body,
  decoded from base64 or quoted-printable and freed of its HTML tags as its headers say, becomes the
  body of the message record, unless it does not fit.
\<close>

theorem parse_eml_buffer_text:
  assumes "str_at b p = Some (h @ eol @ eol @ body)" "eol = [LF] \<or> eol = [CR, LF]"
    and "find_headers_end (h @ eol @ eol @ body) = Some (length h)"
    and "parse_headers libs cfg (b[p + length h := NUL]) p (length h) m = Some m1"
    and "m_content_type m1 = [] \<or> strstr (m_content_type m1) ''text/plain'' \<noteq> None \<or> strstr (m_content_type m1) ''text/html'' \<noteq> None"
    and "strstr (m_content_type m1) ''multipart/'' = None"
  shows "\<exists>b' t. parse_eml_buffer libs cfg b p m = Some (0, b', m1\<lparr>m_body := m_body m1 @ t\<rparr>) \<and>
    (let u = cstr (readable_text (m_content_encoding m1) [] (strcasestr (m_content_type m1) ''text/html'' \<noteq> None) body)
     in t = (if length u + length (m_body m1) + 1 < BIGBUFSIZE then u else []))"
  using parse_single_message [OF assms] by (auto simp: append_to_body_def Let_def)

lemma parse_eml_buffer_text_witness:
  "\<exists>b'. parse_eml_buffer no_libraries (default_config []) small_message 0 empty_message =
     Some (0, b', empty_message\<lparr>m_body := m_body empty_message @ ''Hello''\<rparr>)"
proof -
  have n: "strcasestr [] ''base64'' = None" "strcasestr [] ''quoted-printable'' = None" by code_simp+
  have r: "cstr (readable_text [] [] False ''Hello'') = ''Hello''"
    by (simp add: readable_text_def transfer_text_def n mem_simps)
  have "m_body empty_message = []" by (simp add: empty_message_def)
  then show ?thesis
    using parse_eml_buffer_text [OF small_message_parts(1) disjI1 [OF refl] small_message_parts(2) small_message_parts(3) [of no_libraries _ empty_message]]
    unfolding small_message_text Let_def by (simp add: small_message_text(2) r)
qed

text \<open>
  C20: A multipart message: the preamble is skipped, the texts of the parts with a textual content type
  are decoded and appended to the body in their order, and the epilogue is ignored.
\<close>

theorem extract_mime_parts_texts:
  assumes "drop body b = (preamble @ boundary_marker boundary @ parts_source (boundary_marker boundary) tps epilogue) @ NUL # r"
    and "strstr (preamble @ boundary_marker boundary) (boundary_marker boundary) = Some (length preamble)"
    and "NUL \<notin> set (preamble @ boundary_marker boundary @ epilogue)" "\<forall>tp\<in>set tps. good_part libs (boundary_marker boundary) tp"
    and "strstr epilogue (boundary_marker boundary) = None" "strcasestr epilogue HEADER_CONTENT_TYPE = None"
  shows "\<exists>b'. extract_mime_parts libs cfg b body boundary m =
    Some (b', foldl (\<lambda>m tp. append_to_body (part_text tp) m) m tps)"
proof -
  let ?mk = "boundary_marker boundary"
  let ?s = "preamble @ ?mk @ parts_source ?mk tps epilogue"
  have "NUL \<notin> set (parts_source ?mk tps epilogue)" using assms(3,4) by (induction tps) (auto simp: good_part_def)
  then have s: "str_at b body = Some ?s" using assms(1,3) by (intro str_at_drop [where r = r]) auto
  have k: "strstr ?s ?mk = Some (length preamble)"
    using strstr_append [OF assms(2), of "parts_source ?mk tps epilogue"] by simp
  have d: "drop (body + length preamble + length ?mk) b = parts_source ?mk tps epilogue @ NUL # r"
    using drop_eq_appendD [of body b "preamble @ ?mk" "parts_source ?mk tps epilogue @ NUL # r"] assms(1) by (simp add: add.assoc)
  have n: "NUL \<notin> set (?mk @ epilogue)" using assms(3) by simp
  show ?thesis
    using mime_loop_parts [OF assms(4) n assms(5,6) d] by (subst extract_mime_parts.simps) (simp add: s k)
qed

abbreviation small_part :: text_part where
  "small_part \<equiv> \<lparr>tp_header = CR # LF # ''Content-Type: text/plain'', tp_type = ''text/plain'', tp_charset = [], tp_text = ''Hi''\<rparr>"

lemma small_part_good: "good_part libs ''--x'' small_part"
proof -
  let ?hs = "CR # LF # ''Content-Type: text/plain''"
  have "?hs = [CR, LF] @ ''Content-Type:'' @ '' '' @ ''text/plain'' @ conts [CR, LF] [] @ []" by simp
  moreover have "strcasestr ?hs HEADER_CONTENT_TYPE = Some (length [CR, LF])" by code_simp
  ultimately have th: "typed_header ?hs ''text/plain''"
    unfolding typed_header_def
    by (intro exI [of _ "[CR, LF]"] exI [of _ "''Content-Type:''"] exI [of _ "'' ''"] exI [of _ "''text/plain''"]
        exI [of _ "[]"] conjI) (simp_all add: isspace_def plain_line_def plain_conts_def ends_value_def)
  have c: "strstr ''text/plain'' ''charset'' = None" "strcasestr ''text/plain'' ''multipart/'' = None"
    "strstr (?hs @ blank_line) blank_line = Some (length ?hs)"
    "strcasestr (?hs @ blank_line) ''Content-Disposition:'' = None" "strstr (?hs @ blank_line) ''name'' = None"
    "strcasestr ?hs HEADER_CONTENT_TYPE = Some 2"
    "strstr ((?hs @ blank_line @ ''Hi'') @ ''--x'') ''--x'' = Some (length (?hs @ blank_line @ ''Hi''))" by code_simp+
  have p: "part_headers ?hs = ?hs @ blank_line" by (simp add: part_headers_def snprintf_s_fits)
  have k: "leaf_kind (''Content-Type: text/plain'' @ blank_line) = Textual" by code_simp
  have "type_from ?hs = ''Content-Type: text/plain'' @ blank_line" by (simp only: type_from_def c option.case) simp
  then have "leaf_kind (type_from ?hs) = Textual" using k by (simp only:)
  moreover have "extract_token_from_header_line (lib_iconv libs) ''text/plain'' ''charset'' SMALLBUFSIZE = Some []"
    by (simp only: extract_token_from_header_line_def) (simp add: snprintf_s_fits c(1) del: strstr.simps)
  moreover have "snprintf_s (SMALLBUFSIZE - 1) (?hs @ blank_line) = ?hs @ blank_line" by (simp add: snprintf_s_fits)
  then have "extract_name_from_headers (lib_iconv libs) (part_headers ?hs) SMALLBUFSIZE = Some []"
    unfolding p extract_name_from_headers_def c(4) option.case extract_token_from_header_line_def Let_def
    by (simp only: c(5) option.case)
  moreover have "NUL \<notin> set (part_source small_part)" by (simp add: part_source_def)
  ultimately show ?thesis
    unfolding good_part_def text_part.select_convs part_source_def using th c(2,3,7) by simp
qed

lemma small_part_text: "part_text small_part = ''Hi''"
proof -
  let ?hs = "CR # LF # ''Content-Type: text/plain''"
  have p: "part_headers ?hs = ?hs @ blank_line" by (simp add: part_headers_def snprintf_s_fits)
  have c: "strcasestr (?hs @ blank_line) HEADER_CONTENT_TRANSFER_ENCODING = None"
    "strcasestr ?hs HEADER_CONTENT_TYPE = Some 2" "leaf_kind (''Content-Type: text/plain'' @ blank_line) = Textual"
    "strcasestr [] ''base64'' = None" "strcasestr [] ''quoted-printable'' = None" by code_simp+
  have "type_from ?hs = ''Content-Type: text/plain'' @ blank_line" by (simp only: type_from_def c option.case) simp
  then have "leaf_kind (type_from ?hs) = Textual" using c(3) by (simp only:)
  moreover have "transfer_encoding (part_headers ?hs) = []" by (simp only: p transfer_encoding_def c option.case)
  ultimately show ?thesis
    by (simp add: part_text_def readable_text_def transfer_text_def c(4,5) mem_simps)
qed

lemma extract_mime_parts_texts_witness:
  "\<exists>b'. extract_mime_parts no_libraries (default_config [])
     (''pre--x'' @ part_source small_part @ ''--x'' @ part_source small_part @ ''--x--'' @ [NUL]) 0 ''x'' empty_message =
     Some (b', append_to_body ''Hi'' (append_to_body ''Hi'' empty_message))"
proof -
  have mk: "boundary_marker ''x'' = ''--x''" by (simp add: boundary_marker_def snprintf_s_fits)
  have s: "strstr (''pre'' @ ''--x'') ''--x'' = Some (length ''pre'')" "strstr ''--'' ''--x'' = None"
    "strcasestr ''--'' HEADER_CONTENT_TYPE = None" by code_simp+
  have "\<forall>tp\<in>set [small_part, small_part]. good_part no_libraries ''--x'' tp" using small_part_good by simp
  note * = this s
  show ?thesis
    using extract_mime_parts_texts [of 0 "''pre--x'' @ part_source small_part @ ''--x'' @ part_source small_part @ ''--x--'' @ [NUL]"
        "''pre''" "''x''" "[small_part, small_part]" "''--''" "[]" no_libraries "default_config []" empty_message]
    unfolding mk by (simp add: * small_part_text)
qed

text \<open>
  C23: A last part with a content type but no empty line is not left: the search goes on as many bytes
  into it as the boundary is long, and with a boundary longer than the part the parser reads behind the
  end of the block.
\<close>

theorem extract_mime_parts_overrun:
  assumes "drop body b = (preamble @ boundary_marker boundary @ s) @ [NUL]"
    and "strstr (preamble @ boundary_marker boundary) (boundary_marker boundary) = Some (length preamble)"
    and "NUL \<notin> set (preamble @ boundary_marker boundary @ s)" "strcasestr s HEADER_CONTENT_TYPE \<noteq> None"
    and "find_part_body s = None" "length s < length (boundary_marker boundary)"
  shows "extract_mime_parts libs cfg b body boundary m = None"
proof -
  let ?mk = "boundary_marker boundary"
  let ?marker = "body + length preamble"
  have st: "str_at b body = Some (preamble @ ?mk @ s)" using assms(1,3) by (intro str_at_drop [where r = "[]"]) auto
  have k: "strstr (preamble @ ?mk @ s) ?mk = Some (length preamble)" using strstr_append [OF assms(2), of s] by simp
  have d: "drop (?marker + length ?mk) b = s @ [NUL]"
    using drop_eq_appendD [of body b "preamble @ ?mk" "s @ [NUL]"] assms(1) by (simp add: add.assoc)
  have sp: "str_at b (?marker + length ?mk) = Some s" using d assms(3) by (intro str_at_drop [where r = "[]"]) auto
  have n: "strstr s ?mk = None" using strstr_length [of s ?mk] assms(6) by fastforce
  have h: "read_part libs b (?marker + length ?mk) = Some Headers_only"
    using assms(4,5) sp by (auto simp: read_part_def)
  have "length b = ?marker + length ?mk + length s + 1"
    using drop_eq_append_length [of "?marker + length ?mk" b s "[NUL]"] d str_at_length [OF sp] by simp
  then have "\<not> terminated b (?marker + length ?mk + length ?mk)" using assms(6) by (simp add: terminated_def)
  then have e: "mime_loop libs cfg boundary b (?marker + length ?mk) m = None"
    by (subst mime_loop.simps) (simp add: str_at_def)
  show ?thesis
    by (subst extract_mime_parts.simps, simp add: st k, subst mime_loop.simps)
      (simp add: sp n cut_next_def h e)
qed

lemma extract_mime_parts_overrun_witness:
  "extract_mime_parts no_libraries (default_config []) (''--------------------x'' @ ''Content-Type: a'' @ [NUL]) 0 ''------------------x'' empty_message = None"
proof -
  have mk: "boundary_marker ''------------------x'' = ''--------------------x''"
    by (simp add: boundary_marker_def snprintf_s_fits)
  have c: "strstr ([] @ ''--------------------x'') ''--------------------x'' = Some (length ([] :: string))"
    "strcasestr ''Content-Type: a'' HEADER_CONTENT_TYPE \<noteq> None" "find_part_body ''Content-Type: a'' = None" by code_simp+
  show ?thesis
    by (rule extract_mime_parts_overrun [where boundary = "''------------------x''" and preamble = "[]" and s = "''Content-Type: a''",
          unfolded mk, OF _ c(1) _ c(2,3)]) simp_all
qed

end
