(* ===== verification/Post_Parse.thy ===== *)
theory Post_Parse
  imports Parser
begin

text \<open>
  \<open>parse_message\<close> and \<open>post_parse\<close> of \<open>src/parser.c\<close>: from the parsed message to the parser state that is
  scored.  The array \<open>body.data\<close> is the text read so far followed by zeros; after \<open>parse_message\<close> the field
  \<open>m_body\<close> is the string it holds.
\<close>

section \<open>Addresses\<close>

text \<open>
  \<open>inet_aton\<close> of the C library: up to four numbers, in C notation (decimal, octal after \<open>0\<close>, hexadecimal
  after \<open>0x\<close>), separated by periods; all but the last are below 256, the last fills the bytes that are
  left; white space may follow.
\<close>

definition isodigit :: "char \<Rightarrow> bool" where
  "isodigit c \<longleftrightarrow> 48 \<le> byte c \<and> byte c \<le> 55"

definition c_number :: "string \<Rightarrow> nat \<times> string" where
  "c_number s =
     (if strncasecmp_eq s ''0x'' 2 \<and> length s > 2 \<and> isxdigit (s ! 2)
      then (digits_val 16 (takeWhile isxdigit (drop 2 s)), dropWhile isxdigit (drop 2 s))
      else if s \<noteq> [] \<and> hd s = CHR ''0'' then (digits_val 8 (takeWhile isodigit s), dropWhile isodigit s)
      else (digits_val 10 (takeWhile isdigit s), dropWhile isdigit s))"

text \<open>The last number has room for \<open>n + 1\<close> bytes.\<close>

fun inet_aton_at :: "nat \<Rightarrow> string \<Rightarrow> bool" where
  "inet_aton_at n s =
     (if s = [] \<or> \<not> isdigit (hd s) then False
      else
        (case c_number s of
           (x, []) \<Rightarrow> x < 256 ^ (n + 1)
         | (x, c # rest) \<Rightarrow>
             if c = CHR ''.'' then (case n of 0 \<Rightarrow> False | Suc k \<Rightarrow> x < 256 \<and> inet_aton_at k rest)
             else isspace c \<and> x < 256 ^ (n + 1)))"

definition is_dotted_ipv4_address :: "string \<Rightarrow> bool" where
  "is_dotted_ipv4_address s = inet_aton_at 3 s"

section \<open>parse_message\<close>

definition parse_message ::
  "(nat \<Rightarrow> bool) \<Rightarrow> bool \<Rightarrow> libraries \<Rightarrow> config \<Rightarrow> string option \<Rightarrow> parser_state \<Rightarrow> message \<Rightarrow>
   (int \<times> parser_state \<times> message) option" where
  "parse_message malloc readable libs cfg file state m =
     (case read_file malloc readable file of
        None \<Rightarrow> Some (1, state, m)
      | Some buffer \<Rightarrow>
          do { (rc, b, m1) \<leftarrow> parse_eml_buffer libs cfg buffer 0 empty_message;
               d1 \<leftarrow> utf8_tolower (m_body m1 @ replicate (BIGBUFSIZE - length (m_body m1)) NUL) 0;
               d2 \<leftarrow> normalize_buffer d1 0;
               Some (0, init_state\<lparr>ps_has_image_attachment := of_bool (m_has_image m1),
                                   ps_has_octet_stream_attachment := of_bool (m_has_octet_stream m1),
                                   ps_need_signo_check := m_need_signo_check m1,
                                   ps_found_our_signo := m_found_our_signo m1\<rparr>,
                     m1\<lparr>m_body := cstr d2\<rparr>) })"

section \<open>post_parse\<close>

text \<open>
  \<open>state->n_token += generate_tokens_from_string (...)\<close>: the language leaves open whether the old value
  is read before or after the call; as compilers do, the call comes first.
\<close>

definition subject_tokens :: "config \<Rightarrow> message \<Rightarrow> parser_state \<Rightarrow> parser_state option" where
  "subject_tokens cfg m state =
     (if m_subject m = [] then Some state
      else do {
        (s1, n1) \<leftarrow> generate_tokens_from_string state (Some (m_subject m)) ''SUBJ*'' cfg;
        (s2, n2) \<leftarrow> generate_tokens_from_string (s1\<lparr>ps_n_subject_token := int n1\<rparr>) (Some (m_subject m)) [] cfg;
        Some (s2\<lparr>ps_n_token := ps_n_token s2 + int n2, ps_b_subject := snprintf_s (MAXBUFSIZE - 1) (m_subject m)\<rparr>) })"

definition add_token :: "string \<Rightarrow> real \<Rightarrow> parser_state \<Rightarrow> parser_state" where
  "add_token t p state = state\<lparr>ps_token_hash := addnode (ps_token_hash state) t (Fin p)
     (if p = DEFAULT_SPAMICITY then Fin 0 else DEVIATION (Fin p))\<rparr>"

definition from_tokens :: "config \<Rightarrow> message \<Rightarrow> parser_state \<Rightarrow> parser_state option" where
  "from_tokens cfg m state =
     (if m_from m = [] then Some state
      else do {
        (s1, n1) \<leftarrow> generate_tokens_from_string state (Some (m_from m)) ''HEADER*'' cfg;
        let s2 = add_token (snprintf_s (SMALLBUFSIZE - 1) (''FROM*'' @ m_from m)) DEFAULT_SPAMICITY s1;
        (case strchr (m_from m) (CHR ''@'') of
           None \<Rightarrow> Some s2
         | Some i \<Rightarrow> map_option fst (generate_tokens_from_string s2 (Some (drop i (m_from m))) ''HEADER*'' cfg)) })"

definition envelope_recipient :: "config \<Rightarrow> string \<Rightarrow> parser_state \<Rightarrow> parser_state" where
  "envelope_recipient cfg v state =
     (let s1 = (if strstr v ''spam@'' \<noteq> None \<or> strstr v ''+spam@'' \<noteq> None \<or>
                   strstr v ''ham@'' \<noteq> None \<or> strstr v ''+ham@'' \<noteq> None
                then state\<lparr>ps_training_request := 1\<rparr> else state)
      in if cfg_blackhole_email_list cfg \<noteq> [] \<and> strcasestr (cfg_blackhole_email_list cfg) v \<noteq> None
         then s1\<lparr>ps_trapped := True\<rparr> else s1)"

definition envelope_recipients :: "config \<Rightarrow> message \<Rightarrow> parser_state \<Rightarrow> parser_state" where
  "envelope_recipients cfg m state =
     (if m_envelope_recipient m = [] then state
      else
        let vs = split_all (int (SMALLBUFSIZE - 1)) (CHR '','') (m_envelope_recipient m)
        in foldl (\<lambda>s v. envelope_recipient cfg v s)
             (state\<lparr>ps_envelope_recipient := snprintf_s (SMALLBUFSIZE - 1) (hd vs)\<rparr>) vs)"

definition forwarded_client :: "message \<Rightarrow> parser_state \<Rightarrow> parser_state" where
  "forwarded_client m state =
     (if m_xforward m = [] then state
      else
        let vs = split_all (int (SMALLBUFSIZE - 1)) (CHR '','') (m_xforward m);
            s1 = state\<lparr>ps_hostname := snprintf_s (SMALLBUFSIZE - 1) (hd vs)\<rparr>
        in if length vs > 1 then s1\<lparr>ps_ip := snprintf_s (SMALLBUFSIZE - 1) (vs ! 1)\<rparr> else s1)"

text \<open>
  One word of the \<open>Received:\<close> line; a word that turns out to be empty is read one byte in front of it,
  which is outside the array \<open>v\<close> when the word was a closing parenthesis at the start of \<open>v\<close>.
\<close>

definition received_word :: "config \<Rightarrow> string \<Rightarrow> parser_state \<Rightarrow> parser_state option" where
  "received_word cfg v state =
     (if strchr v (CHR ''.'') \<noteq> None
      then
        let q1 = (if hd v = CHR ''('' then tl v else v);
            q2 = (case strrchr q1 (CHR '')'') of None \<Rightarrow> q1 | Some k \<Rightarrow> take k q1);
            q3 = (if q2 \<noteq> [] \<and> hd q2 = CHR ''['' then tl q2 else q2);
            q = (if q3 \<noteq> [] \<and> last q3 = CHR '']'' then butlast q3 else q3)
        in if q2 = [] \<and> hd v \<noteq> CHR ''('' then None
           else if is_dotted_ipv4_address q
           then Some (if is_item_on_list (Some q) (Some (cfg_skipped_received_ips cfg)) = False \<and>
                         is_item_on_list (Some q) (Some ''127.,10.,192.168.,172.16.'') = False
                      then state\<lparr>ps_ip := snprintf_s (SMALLBUFSIZE - 1) q\<rparr> else state)
           else Some (state\<lparr>ps_hostname := snprintf_s (SMALLBUFSIZE - 1) q\<rparr>)
      else if v = ''unknown'' then Some (add_token ''UNKNOWN_CLIENT*'' REAL_SPAM_TOKEN_PROBABILITY state)
      else Some state)"

fun received_words :: "config \<Rightarrow> string list \<Rightarrow> parser_state \<Rightarrow> parser_state option" where
  "received_words cfg [] state = Some state"
| "received_words cfg (v # vs) state =
     do { s1 \<leftarrow> received_word cfg v state; received_words cfg vs s1 }"

definition received_cut :: "message \<Rightarrow> string" where
  "received_cut m = (case strstr (m_received m) '' by '' of None \<Rightarrow> m_received m | Some k \<Rightarrow> take k (m_received m))"

definition received_client :: "config \<Rightarrow> message \<Rightarrow> parser_state \<Rightarrow> (parser_state \<times> message) option" where
  "received_client cfg m state =
     (if m_xforward m = [] \<and> m_received m \<noteq> []
      then map_option (\<lambda>s. (s, m\<lparr>m_received := received_cut m\<rparr>))
             (received_words cfg (split_all (int (SMALLBUFSIZE - 1)) SPACE (received_cut m)) state)
      else Some (state, m))"

definition post_parse :: "parser_state \<Rightarrow> message \<Rightarrow> config \<Rightarrow> (int \<times> parser_state \<times> message) option" where
  "post_parse state m cfg =
     do { (s1, n1) \<leftarrow> generate_tokens_from_string state (Some (m_body m)) [] cfg;
          s2 \<leftarrow> subject_tokens cfg m (s1\<lparr>ps_n_token := int n1\<rparr>);
          let s3 = (if m_watermark m \<noteq> []
            then s2\<lparr>ps_kospam_watermark := snprintf_s (SMALLBUFSIZE - 1) (m_watermark m)\<rparr> else s2);
          s4 \<leftarrow> from_tokens cfg m s3;
          let s5 = (if m_message_id m = []
            then add_token ''NO_MESSAGE_ID*'' REAL_SPAM_TOKEN_PROBABILITY s4 else s4);
          let s6 = (if m_envelope_from m \<noteq> []
            then s5\<lparr>ps_envelope_from := snprintf_s (SMALLBUFSIZE - 1) (m_envelope_from m)\<rparr> else s5);
          (s7, m1) \<leftarrow> received_client cfg m (forwarded_client m (envelope_recipients cfg m s6));
          Some (0, s7, m1) }"


section \<open>The tokens of a message\<close>

text \<open>A run of insertions: the table stays well formed and has the keys of the tokens afterwards.\<close>

definition adds :: "hashtab \<Rightarrow> string set \<Rightarrow> hashtab \<Rightarrow> bool" where
  "adds h ts h' \<longleftrightarrow> wf_tab h' \<and> (\<forall>k. findkey h' k \<noteq> None \<longleftrightarrow> findkey h k \<noteq> None \<or> k \<in> xxh3_64 ` ts)"

lemma adds_refl: "wf_tab h \<Longrightarrow> adds h {} h"
  by (simp add: adds_def)

lemma adds_trans: "adds h ts h1 \<Longrightarrow> adds h1 us h2 \<Longrightarrow> adds h (ts \<union> us) h2"
  by (auto simp: adds_def image_Un)

lemma adds_wf: "adds h ts h' \<Longrightarrow> wf_tab h'"
  by (simp add: adds_def)

lemma adds_addnode: "wf_tab h \<Longrightarrow> adds h {t} (addnode h t p d)"
  using tokens.lookup_inserts_None_iff [of h "[(t, (p, d))]"] tokens.invar_inserts [of h "[(t, (p, d))]"]
  by (auto simp: adds_def)

abbreviation clean :: "string \<Rightarrow> bool" where
  "clean s \<equiv> [] \<notin> set (cut_at SPACE s)"

definition text_words :: "config \<Rightarrow> string \<Rightarrow> string \<Rightarrow> string list" where
  "text_words cfg label s = filter (accepted cfg label) (split_all 511 SPACE s)"

definition text_urls :: "string \<Rightarrow> string list" where
  "text_urls s = concat (map url_tokens (split_all 511 SPACE s))"

definition word_tokens :: "config \<Rightarrow> string \<Rightarrow> string \<Rightarrow> string list" where
  "word_tokens cfg label s = token_pairs label (text_words cfg label s) @ token_singles label (text_words cfg label s)"

definition text_tokens :: "config \<Rightarrow> string \<Rightarrow> string \<Rightarrow> string set" where
  "text_tokens cfg label s = set (text_urls s) \<union> set (word_tokens cfg label s)"

lemma generate_tokens_text:
  assumes "clean s" "wf_tab (ps_token_hash st)"
  shows "\<exists>h. generate_tokens_from_string st (Some s) label cfg =
      Some (st\<lparr>ps_token_hash := h, ps_n_token := ps_n_token st + int (length (text_urls s))\<rparr>, length (word_tokens cfg label s)) \<and>
    adds (ps_token_hash st) (text_tokens cfg label s) h"
proof -
  let ?ws = "split_all 511 SPACE s"
  let ?h = "add_tokens (run_tokens cfg label None ?ws) (ps_token_hash st)"
  have "set (run_tokens cfg label None ?ws) = text_tokens cfg label s"
    using arg_cong [OF mset_run_tokens [of cfg label None ?ws], of set_mset]
    by (simp add: text_tokens_def text_urls_def word_tokens_def text_words_def Un_assoc)
  then have "adds (ps_token_hash st) (text_tokens cfg label s) ?h"
    unfolding adds_def using wf_add_tokens [OF assms(2)] findkey_add_tokens_None_iff [OF assms(2)] by auto
  then show ?thesis
    using generate_tokens_run [OF assms(1), of st label cfg]
    by (auto simp: text_urls_def word_tokens_def text_words_def)
qed

definition subject_token_set :: "config \<Rightarrow> message \<Rightarrow> string set" where
  "subject_token_set cfg m =
     (if m_subject m = [] then {} else text_tokens cfg ''SUBJ*'' (m_subject m) \<union> text_tokens cfg [] (m_subject m))"

lemma subject_tokens_run:
  assumes "m_subject m = [] \<or> clean (m_subject m)" "wf_tab (ps_token_hash st)"
  shows "\<exists>h. subject_tokens cfg m st = Some (if m_subject m = [] then st\<lparr>ps_token_hash := h\<rparr>
      else st\<lparr>ps_token_hash := h,
        ps_n_token := ps_n_token st + int (2 * length (text_urls (m_subject m)) + length (word_tokens cfg [] (m_subject m))),
        ps_n_subject_token := int (length (word_tokens cfg ''SUBJ*'' (m_subject m))),
        ps_b_subject := snprintf_s (MAXBUFSIZE - 1) (m_subject m)\<rparr>) \<and>
    adds (ps_token_hash st) (subject_token_set cfg m) h"
proof (cases "m_subject m = []")
  case True
  then show ?thesis using adds_refl [OF assms(2)] by (intro exI [of _ "ps_token_hash st"]) (simp add: subject_tokens_def subject_token_set_def)
next
  case False
  then have c: "clean (m_subject m)" using assms(1) by blast
  obtain h1 where h1: "generate_tokens_from_string st (Some (m_subject m)) ''SUBJ*'' cfg =
      Some (st\<lparr>ps_token_hash := h1, ps_n_token := ps_n_token st + int (length (text_urls (m_subject m)))\<rparr>,
        length (word_tokens cfg ''SUBJ*'' (m_subject m)))"
    "adds (ps_token_hash st) (text_tokens cfg ''SUBJ*'' (m_subject m)) h1"
    using generate_tokens_text [OF c assms(2)] by blast
  let ?s1 = "st\<lparr>ps_token_hash := h1, ps_n_token := ps_n_token st + int (length (text_urls (m_subject m))),
    ps_n_subject_token := int (length (word_tokens cfg ''SUBJ*'' (m_subject m)))\<rparr>"
  have "wf_tab (ps_token_hash ?s1)" using adds_wf [OF h1(2)] by simp
  from generate_tokens_text [OF c this, of "[]" cfg]
  obtain h2 where h2: "generate_tokens_from_string ?s1 (Some (m_subject m)) [] cfg =
      Some (?s1\<lparr>ps_token_hash := h2, ps_n_token := ps_n_token ?s1 + int (length (text_urls (m_subject m)))\<rparr>,
        length (word_tokens cfg [] (m_subject m)))"
    "adds h1 (text_tokens cfg [] (m_subject m)) h2"
    by auto
  show ?thesis
    using adds_trans [OF h1(2) h2(2)] False
    by (intro exI [of _ h2]) (simp add: subject_tokens_def subject_token_set_def h1(1) h2(1))
qed

definition domain_of :: "string \<Rightarrow> string option" where
  "domain_of s = map_option (\<lambda>i. drop i s) (strchr s (CHR ''@''))"

lemma tl_cut_at_append: "set (tl (cut_at ch t)) \<subseteq> set (tl (cut_at ch (a @ t)))"
proof (induction a)
  case (Cons c a)
  have "set (tl (cut_at ch (a @ t))) \<subseteq> set (cut_at ch (a @ t))" by (cases "cut_at ch (a @ t)") auto
  then show ?case using Cons by auto
qed simp

lemma clean_domain:
  assumes "clean s" "domain_of s = Some t"
  shows "clean t"
proof -
  obtain i where i: "strchr s (CHR ''@'') = Some i" "t = drop i s" using assms(2) by (auto simp: domain_of_def)
  then obtain u where t: "t = CHR ''@'' # u" using strchr_SomeD [OF i(1)] by (metis Cons_nth_drop_Suc)
  have "s = take i s @ t" using i(2) by simp
  then have "set (tl (cut_at SPACE t)) \<subseteq> set (tl (cut_at SPACE s))" by (metis tl_cut_at_append)
  moreover have "set (tl (cut_at SPACE s)) \<subseteq> set (cut_at SPACE s)" by (cases "cut_at SPACE s") auto
  ultimately have "[] \<notin> set (tl (cut_at SPACE t))" using assms(1) by blast
  then show ?thesis by (simp add: t)
qed

definition from_token_set :: "config \<Rightarrow> message \<Rightarrow> string set" where
  "from_token_set cfg m =
     (if m_from m = [] then {}
      else text_tokens cfg ''HEADER*'' (m_from m) \<union> {snprintf_s (SMALLBUFSIZE - 1) (''FROM*'' @ m_from m)} \<union>
        (case domain_of (m_from m) of None \<Rightarrow> {} | Some d \<Rightarrow> text_tokens cfg ''HEADER*'' d))"

definition from_urls :: "message \<Rightarrow> nat" where
  "from_urls m = (if m_from m = [] then 0 else length (text_urls (m_from m)) +
     (case domain_of (m_from m) of None \<Rightarrow> 0 | Some d \<Rightarrow> length (text_urls d)))"

lemma from_tokens_run:
  assumes "m_from m = [] \<or> clean (m_from m)" "wf_tab (ps_token_hash st)"
  shows "\<exists>h. from_tokens cfg m st =
      Some (st\<lparr>ps_token_hash := h, ps_n_token := ps_n_token st + int (from_urls m)\<rparr>) \<and>
    adds (ps_token_hash st) (from_token_set cfg m) h"
proof (cases "m_from m = []")
  case True
  then show ?thesis
    using adds_refl [OF assms(2)]
    by (intro exI [of _ "ps_token_hash st"]) (simp add: from_tokens_def from_token_set_def from_urls_def)
next
  case False
  then have c: "clean (m_from m)" using assms(1) by blast
  let ?t = "snprintf_s (SMALLBUFSIZE - 1) (''FROM*'' @ m_from m)"
  obtain h1 where h1: "generate_tokens_from_string st (Some (m_from m)) ''HEADER*'' cfg =
      Some (st\<lparr>ps_token_hash := h1, ps_n_token := ps_n_token st + int (length (text_urls (m_from m)))\<rparr>,
        length (word_tokens cfg ''HEADER*'' (m_from m)))"
    "adds (ps_token_hash st) (text_tokens cfg ''HEADER*'' (m_from m)) h1"
    using generate_tokens_text [OF c assms(2)] by blast
  let ?h2 = "add_default h1 ?t"
  have h2: "adds h1 {?t} ?h2" by (rule adds_addnode [OF adds_wf [OF h1(2)]])
  note a = adds_trans [OF h1(2) h2]
  let ?s2 = "st\<lparr>ps_token_hash := ?h2, ps_n_token := ps_n_token st + int (length (text_urls (m_from m)))\<rparr>"
  have s2: "add_token ?t DEFAULT_SPAMICITY (st\<lparr>ps_token_hash := h1, ps_n_token := ps_n_token st + int (length (text_urls (m_from m)))\<rparr>) = ?s2"
    by (simp add: add_token_def)
  show ?thesis
  proof (cases "strchr (m_from m) (CHR ''@'')")
    case None
    then have "domain_of (m_from m) = None" by (simp add: domain_of_def)
    then show ?thesis using a False None
      by (intro exI [of _ ?h2]) (simp add: from_tokens_def from_token_set_def from_urls_def h1(1) s2 [simplified])
  next
    case (Some i)
    let ?d = "drop i (m_from m)"
    have d: "domain_of (m_from m) = Some ?d" using Some by (simp add: domain_of_def)
    have "wf_tab (ps_token_hash ?s2)" using adds_wf [OF h2] by simp
    from generate_tokens_text [OF clean_domain [OF c d] this, of "''HEADER*''" cfg]
    obtain h3 where h3: "generate_tokens_from_string ?s2 (Some ?d) ''HEADER*'' cfg =
        Some (?s2\<lparr>ps_token_hash := h3, ps_n_token := ps_n_token ?s2 + int (length (text_urls ?d))\<rparr>,
          length (word_tokens cfg ''HEADER*'' ?d))"
      "adds ?h2 (text_tokens cfg ''HEADER*'' ?d) h3"
      by auto
    have "from_tokens cfg m st = Some (?s2\<lparr>ps_token_hash := h3, ps_n_token := ps_n_token ?s2 + int (length (text_urls ?d))\<rparr>)"
      using False unfolding from_tokens_def h1(1) by (simp only: if_False Option.bind.bind_lunit prod.case Let_def s2 Some option.case h3(1)) simp
    then show ?thesis
      using adds_trans [OF a h3(2)] False
      by (intro exI [of _ h3]) (simp add: from_token_set_def from_urls_def d Un_assoc add.assoc)
  qed
qed

section \<open>The envelope\<close>

text \<open>Reference: a mail to \<open>spam@\<close> or \<open>ham@\<close> asks for training, one to an address in the list is trapped.\<close>

definition asks_training :: "string \<Rightarrow> bool" where
  "asks_training v \<longleftrightarrow> sublist ''spam@'' v \<or> sublist ''ham@'' v"

definition traps :: "config \<Rightarrow> string \<Rightarrow> bool" where
  "traps cfg v \<longleftrightarrow> cfg_blackhole_email_list cfg \<noteq> [] \<and> strcasestr (cfg_blackhole_email_list cfg) v \<noteq> None"

definition recipients :: "message \<Rightarrow> string list" where
  "recipients m = (if m_envelope_recipient m = [] then [] else map (take 510) (cut_at (CHR '','') (m_envelope_recipient m)))"

lemma envelope_recipient_eq:
  "envelope_recipient cfg v st = st\<lparr>ps_training_request := (if asks_training v then 1 else ps_training_request st),
     ps_trapped := traps cfg v \<or> ps_trapped st\<rparr>"
proof -
  have "sublist ''+spam@'' v \<Longrightarrow> sublist ''spam@'' v" "sublist ''+ham@'' v \<Longrightarrow> sublist ''ham@'' v"
    by (auto simp: sublist_def) (metis append_Cons append_assoc append_Nil)+
  then have "(strstr v ''spam@'' \<noteq> None \<or> strstr v ''+spam@'' \<noteq> None \<or> strstr v ''ham@'' \<noteq> None \<or> strstr v ''+ham@'' \<noteq> None)
      \<longleftrightarrow> asks_training v"
    unfolding asks_training_def strstr_None_iff by blast
  then show ?thesis by (simp only: envelope_recipient_def Let_def traps_def) simp
qed

lemma foldl_envelope_recipient:
  "foldl (\<lambda>s v. envelope_recipient cfg v s) st vs =
   st\<lparr>ps_training_request := (if \<exists>v\<in>set vs. asks_training v then 1 else ps_training_request st),
      ps_trapped := (\<exists>v\<in>set vs. traps cfg v) \<or> ps_trapped st\<rparr>"
proof (induction vs arbitrary: st)
  case (Cons v vs)
  show ?case
    unfolding foldl_Cons Cons.IH unfolding envelope_recipient_eq by (cases "asks_training v") (simp_all add: disj_ac)
qed simp

lemma envelope_recipients_eq:
  "envelope_recipients cfg m st =
   st\<lparr>ps_envelope_recipient := (case recipients m of [] \<Rightarrow> ps_envelope_recipient st | v # vs \<Rightarrow> v),
      ps_training_request := (if \<exists>v\<in>set (recipients m). asks_training v then 1 else ps_training_request st),
      ps_trapped := (\<exists>v\<in>set (recipients m). traps cfg v) \<or> ps_trapped st\<rparr>"
proof (cases "m_envelope_recipient m = []")
  case False
  then have r: "recipients m = split_all (int (SMALLBUFSIZE - 1)) (CHR '','') (m_envelope_recipient m)"
    by (simp add: recipients_def split_all_cut_at)
  obtain v vs where v: "recipients m = v # vs" using False by (cases "recipients m") (auto simp: recipients_def)
  then have "length v < 511" using False by (auto simp: recipients_def)
  then have "snprintf_s (SMALLBUFSIZE - 1) v = v" by (simp add: snprintf_s_fits)
  then show ?thesis
    unfolding envelope_recipients_def r [symmetric] v foldl_envelope_recipient Let_def using False by simp
qed (simp add: envelope_recipients_def recipients_def)

section \<open>The client\<close>

text \<open>The words of the \<open>Received:\<close> line that make the program read in front of its array.\<close>

definition bad_word :: "string \<Rightarrow> bool" where
  "bad_word v \<longleftrightarrow> prefix '')'' v \<and> CHR ''.'' \<in> set v \<and> CHR '')'' \<notin> set (tl v)"

definition client_tokens :: "string list \<Rightarrow> string set" where
  "client_tokens vs = (if ''unknown'' \<in> set vs then {''UNKNOWN_CLIENT*''} else {})"

lemma strrchr_0_iff: "strrchr (c # s) ch = Some 0 \<longleftrightarrow> c = ch \<and> ch \<notin> set s"
  by (auto simp: strrchr_None_iff [symmetric] split: option.splits)

lemma if_three:
  "(if c then Some (if d then y else x) else Some z) = Some x \<or>
   (if c then Some (if d then y else x) else Some z) = Some y \<or> (if c then Some (if d then y else x) else Some z) = Some z"
  by simp

lemma received_word_run:
  assumes "\<not> bad_word v" "wf_tab (ps_token_hash st)"
  shows "\<exists>ip host h. received_word cfg v st = Some (st\<lparr>ps_ip := ip, ps_hostname := host, ps_token_hash := h\<rparr>) \<and>
    adds (ps_token_hash st) (client_tokens [v]) h"
proof -
  have r: "adds (ps_token_hash st) {} (ps_token_hash st)" by (rule adds_refl [OF assms(2)])
  have same: "st = st\<lparr>ps_ip := ps_ip st, ps_hostname := ps_hostname st, ps_token_hash := ps_token_hash st\<rparr>" by simp
  show ?thesis
  proof (cases "CHR ''.'' \<in> set v")
    case True
    then have n: "strchr v (CHR ''.'') \<noteq> None" "v \<noteq> ''unknown''" by (auto simp: strchr_None_iff)
    let ?q1 = "if hd v = CHR ''('' then tl v else v"
    let ?q2 = "case strrchr ?q1 (CHR '')'') of None \<Rightarrow> ?q1 | Some k \<Rightarrow> take k ?q1"
    have q2: "\<not> (?q2 = [] \<and> hd v \<noteq> CHR ''('')"
    proof
      assume e: "?q2 = [] \<and> hd v \<noteq> CHR ''(''"
      obtain c u where v: "v = c # u" using True by (cases v) auto
      have "strrchr v (CHR '')'') = Some 0"
        using e True by (auto split: option.splits if_splits)
      then have "bad_word v" using True unfolding v strrchr_0_iff bad_word_def by auto
      then show False using assms(1) by blast
    qed
    let ?q3 = "if ?q2 \<noteq> [] \<and> hd ?q2 = CHR ''['' then tl ?q2 else ?q2"
    let ?q = "if ?q3 \<noteq> [] \<and> last ?q3 = CHR '']'' then butlast ?q3 else ?q3"
    let ?t = "snprintf_s (SMALLBUFSIZE - 1) ?q"
    have "received_word cfg v st = Some st \<or> received_word cfg v st = Some (st\<lparr>ps_ip := ?t\<rparr>) \<or>
        received_word cfg v st = Some (st\<lparr>ps_hostname := ?t\<rparr>)"
      unfolding received_word_def Let_def if_P [OF n(1)] if_not_P [OF q2] by (rule if_three)
    then obtain ip host where R: "received_word cfg v st = Some (st\<lparr>ps_ip := ip, ps_hostname := host, ps_token_hash := ps_token_hash st\<rparr>)"
    proof (elim disjE)
      assume "received_word cfg v st = Some st"
      then show ?thesis using that [where ip = "ps_ip st" and host = "ps_hostname st"] by simp
    next
      assume "received_word cfg v st = Some (st\<lparr>ps_ip := ?t\<rparr>)"
      then show ?thesis using that [where ip = ?t and host = "ps_hostname st"] by simp
    next
      assume "received_word cfg v st = Some (st\<lparr>ps_hostname := ?t\<rparr>)"
      then show ?thesis using that [where ip = "ps_ip st" and host = ?t] by simp
    qed
    have A: "adds (ps_token_hash st) (client_tokens [v]) (ps_token_hash st)" using r n(2) by (simp add: client_tokens_def)
    show ?thesis by (intro exI conjI, rule R, rule A)
  next
    case False
    then have n: "strchr v (CHR ''.'') = None" by (simp add: strchr_None_iff)
    show ?thesis
    proof (cases "v = ''unknown''")
      case True
      let ?h = "addnode (ps_token_hash st) ''UNKNOWN_CLIENT*'' (Fin REAL_SPAM_TOKEN_PROBABILITY) (DEVIATION (Fin REAL_SPAM_TOKEN_PROBABILITY))"
      have R: "received_word cfg v st = Some (st\<lparr>ps_ip := ps_ip st, ps_hostname := ps_hostname st, ps_token_hash := ?h\<rparr>)"
        using n by (simp add: received_word_def add_token_def True)
      have A: "adds (ps_token_hash st) (client_tokens [v]) ?h"
        using adds_addnode [OF assms(2)] unfolding client_tokens_def True by simp
      show ?thesis by (intro exI conjI, rule R, rule A)
    next
      case no: False
      have R: "received_word cfg v st = Some (st\<lparr>ps_ip := ps_ip st, ps_hostname := ps_hostname st, ps_token_hash := ps_token_hash st\<rparr>)"
        using n no by (simp add: received_word_def)
      have A: "adds (ps_token_hash st) (client_tokens [v]) (ps_token_hash st)" using r no by (simp add: client_tokens_def)
      show ?thesis by (intro exI conjI, rule R, rule A)
    qed
  qed
qed

lemma received_words_run:
  "\<forall>v\<in>set vs. \<not> bad_word v \<Longrightarrow> wf_tab (ps_token_hash st) \<Longrightarrow>
   \<exists>ip host h. received_words cfg vs st = Some (st\<lparr>ps_ip := ip, ps_hostname := host, ps_token_hash := h\<rparr>) \<and>
     adds (ps_token_hash st) (client_tokens vs) h"
proof (induction vs arbitrary: st)
  case Nil
  have "received_words cfg [] st = Some (st\<lparr>ps_ip := ps_ip st, ps_hostname := ps_hostname st, ps_token_hash := ps_token_hash st\<rparr>)"
    by simp
  moreover have "adds (ps_token_hash st) (client_tokens []) (ps_token_hash st)"
    using adds_refl [OF Nil(2)] by (simp add: client_tokens_def)
  ultimately show ?case by blast
next
  case (Cons v vs)
  then have "\<not> bad_word v" by simp
  from received_word_run [OF this Cons.prems(2)]
  obtain ip host h where 1: "received_word cfg v st = Some (st\<lparr>ps_ip := ip, ps_hostname := host, ps_token_hash := h\<rparr>)"
    "adds (ps_token_hash st) (client_tokens [v]) h"
    by blast
  let ?s = "st\<lparr>ps_ip := ip, ps_hostname := host, ps_token_hash := h\<rparr>"
  have "\<forall>v\<in>set vs. \<not> bad_word v" "wf_tab (ps_token_hash ?s)" using Cons.prems(1) adds_wf [OF 1(2)] by simp_all
  from Cons.IH [OF this] obtain ip' host' h' where 2:
    "received_words cfg vs ?s = Some (st\<lparr>ps_ip := ip', ps_hostname := host', ps_token_hash := h'\<rparr>)"
    "adds h (client_tokens vs) h'"
    by auto
  have u: "client_tokens [v] \<union> client_tokens vs = client_tokens (v # vs)" by (auto simp: client_tokens_def)
  have "received_words cfg (v # vs) st = Some (st\<lparr>ps_ip := ip', ps_hostname := host', ps_token_hash := h'\<rparr>)"
    by (simp add: 1(1) 2(1))
  then show ?case using adds_trans [OF 1(2) 2(2)] unfolding u by blast
qed

definition received_fields :: "message \<Rightarrow> string list" where
  "received_fields m = (if m_xforward m = [] \<and> m_received m \<noteq> [] then map (take 510) (cut_at SPACE (received_cut m)) else [])"

lemma received_client_run:
  assumes "\<forall>v\<in>set (received_fields m). \<not> bad_word v" "wf_tab (ps_token_hash st)"
  shows "\<exists>ip host h m'. received_client cfg m st = Some (st\<lparr>ps_ip := ip, ps_hostname := host, ps_token_hash := h\<rparr>, m') \<and>
    adds (ps_token_hash st) (client_tokens (received_fields m)) h"
proof (cases "m_xforward m = [] \<and> m_received m \<noteq> []")
  case True
  have "split_all (int (SMALLBUFSIZE - 1)) SPACE (received_cut m) = received_fields m"
    using True by (simp add: received_fields_def split_all_cut_at)
  then show ?thesis using received_words_run [OF assms, of cfg] True by (auto simp: received_client_def)
next
  case False
  then have "received_client cfg m st = Some (st\<lparr>ps_ip := ps_ip st, ps_hostname := ps_hostname st, ps_token_hash := ps_token_hash st\<rparr>, m)"
    by (auto simp: received_client_def)
  moreover have "received_fields m = []" using False by (simp add: received_fields_def)
  then have "adds (ps_token_hash st) (client_tokens (received_fields m)) (ps_token_hash st)"
    using adds_refl [OF assms(2)] by (simp add: client_tokens_def)
  ultimately show ?thesis by blast
qed

lemma forwarded_client_eq: "\<exists>ip host. forwarded_client m st = st\<lparr>ps_ip := ip, ps_hostname := host\<rparr>"
proof (cases "m_xforward m = []")
  case True
  then have "forwarded_client m st = st\<lparr>ps_ip := ps_ip st, ps_hostname := ps_hostname st\<rparr>" by (simp add: forwarded_client_def)
  then show ?thesis by blast
next
  case False
  let ?vs = "split_all (int (SMALLBUFSIZE - 1)) (CHR '','') (m_xforward m)"
  have "forwarded_client m st = st\<lparr>ps_ip := (if length ?vs > 1 then snprintf_s (SMALLBUFSIZE - 1) (?vs ! 1) else ps_ip st),
      ps_hostname := snprintf_s (SMALLBUFSIZE - 1) (hd ?vs)\<rparr>"
    using False by (simp add: forwarded_client_def Let_def)
  then show ?thesis by blast
qed

section \<open>post_parse as a whole\<close>

definition message_tokens :: "config \<Rightarrow> message \<Rightarrow> string set" where
  "message_tokens cfg m = text_tokens cfg [] (m_body m) \<union> subject_token_set cfg m \<union> from_token_set cfg m \<union>
     (if m_message_id m = [] then {''NO_MESSAGE_ID*''} else {}) \<union> client_tokens (received_fields m)"

text \<open>The texts leave no empty field for the tokenizer and no bad word.\<close>

definition clean_message :: "message \<Rightarrow> bool" where
  "clean_message m \<longleftrightarrow> clean (m_body m) \<and> (m_subject m = [] \<or> clean (m_subject m)) \<and>
     (m_from m = [] \<or> clean (m_from m)) \<and> (\<forall>v\<in>set (received_fields m). \<not> bad_word v)"

definition counted_tokens :: "config \<Rightarrow> message \<Rightarrow> nat" where
  "counted_tokens cfg m = length (word_tokens cfg [] (m_body m)) +
     (if m_subject m = [] then 0 else 2 * length (text_urls (m_subject m)) + length (word_tokens cfg [] (m_subject m))) +
     from_urls m"

lemma post_parse_run:
  assumes "clean_message m" "wf_tab (ps_token_hash st)"
  shows "\<exists>st' m'. post_parse st m cfg = Some (0, st', m') \<and>
    adds (ps_token_hash st) (message_tokens cfg m) (ps_token_hash st') \<and>
    ps_n_token st' = int (counted_tokens cfg m) \<and>
    ps_n_subject_token st' =
      (if m_subject m = [] then ps_n_subject_token st else int (length (word_tokens cfg ''SUBJ*'' (m_subject m)))) \<and>
    ps_training_request st' = (if \<exists>v\<in>set (recipients m). asks_training v then 1 else ps_training_request st) \<and>
    ps_trapped st' = ((\<exists>v\<in>set (recipients m). traps cfg v) \<or> ps_trapped st) \<and>
    ps_envelope_recipient st' = (case recipients m of [] \<Rightarrow> ps_envelope_recipient st | v # vs \<Rightarrow> v) \<and>
    ps_envelope_from st' = (if m_envelope_from m = [] then ps_envelope_from st
      else snprintf_s (SMALLBUFSIZE - 1) (m_envelope_from m)) \<and>
    ps_b_subject st' = (if m_subject m = [] then ps_b_subject st else snprintf_s (MAXBUFSIZE - 1) (m_subject m))"
proof -
  have c: "clean (m_body m)" "m_subject m = [] \<or> clean (m_subject m)" "m_from m = [] \<or> clean (m_from m)"
    "\<forall>v\<in>set (received_fields m). \<not> bad_word v"
    using assms(1) by (simp_all add: clean_message_def)
  obtain h1 where 1: "generate_tokens_from_string st (Some (m_body m)) [] cfg =
      Some (st\<lparr>ps_token_hash := h1, ps_n_token := ps_n_token st + int (length (text_urls (m_body m)))\<rparr>,
        length (word_tokens cfg [] (m_body m)))"
    "adds (ps_token_hash st) (text_tokens cfg [] (m_body m)) h1"
    using generate_tokens_text [OF c(1) assms(2)] by blast
  let ?s1 = "st\<lparr>ps_token_hash := h1, ps_n_token := int (length (word_tokens cfg [] (m_body m)))\<rparr>"
  have "wf_tab (ps_token_hash ?s1)" using adds_wf [OF 1(2)] by simp
  from subject_tokens_run [OF c(2) this, of cfg] obtain h2 where h2:
    "subject_tokens cfg m ?s1 = Some (if m_subject m = [] then ?s1\<lparr>ps_token_hash := h2\<rparr>
      else ?s1\<lparr>ps_token_hash := h2,
        ps_n_token := ps_n_token ?s1 + int (2 * length (text_urls (m_subject m)) + length (word_tokens cfg [] (m_subject m))),
        ps_n_subject_token := int (length (word_tokens cfg ''SUBJ*'' (m_subject m))),
        ps_b_subject := snprintf_s (MAXBUFSIZE - 1) (m_subject m)\<rparr>)"
    "adds (ps_token_hash ?s1) (subject_token_set cfg m) h2"
    by blast
  define s2 where "s2 = (if m_subject m = [] then ?s1\<lparr>ps_token_hash := h2\<rparr>
      else ?s1\<lparr>ps_token_hash := h2,
        ps_n_token := ps_n_token ?s1 + int (2 * length (text_urls (m_subject m)) + length (word_tokens cfg [] (m_subject m))),
        ps_n_subject_token := int (length (word_tokens cfg ''SUBJ*'' (m_subject m))),
        ps_b_subject := snprintf_s (MAXBUFSIZE - 1) (m_subject m)\<rparr>)"
  have 2: "subject_tokens cfg m ?s1 = Some s2" "adds h1 (subject_token_set cfg m) (ps_token_hash s2)"
    "ps_n_token s2 = int (length (word_tokens cfg [] (m_body m))) +
       (if m_subject m = [] then 0 else int (2 * length (text_urls (m_subject m)) + length (word_tokens cfg [] (m_subject m))))"
    "ps_n_subject_token s2 = (if m_subject m = [] then ps_n_subject_token st else int (length (word_tokens cfg ''SUBJ*'' (m_subject m))))"
    "ps_training_request s2 = ps_training_request st" "ps_trapped s2 = ps_trapped st"
    "ps_envelope_recipient s2 = ps_envelope_recipient st" "ps_envelope_from s2 = ps_envelope_from st"
    "ps_b_subject s2 = (if m_subject m = [] then ps_b_subject st else snprintf_s (MAXBUFSIZE - 1) (m_subject m))"
    using h2 by (simp_all add: s2_def)
  let ?s3 = "if m_watermark m \<noteq> [] then s2\<lparr>ps_kospam_watermark := snprintf_s (SMALLBUFSIZE - 1) (m_watermark m)\<rparr> else s2"
  have h3: "ps_token_hash ?s3 = ps_token_hash s2" by simp
  have "wf_tab (ps_token_hash ?s3)" using adds_wf [OF 2(2)] by simp
  from from_tokens_run [OF c(3) this, of cfg] obtain h4 where 4:
    "from_tokens cfg m ?s3 = Some (?s3\<lparr>ps_token_hash := h4, ps_n_token := ps_n_token ?s3 + int (from_urls m)\<rparr>)"
    "adds (ps_token_hash s2) (from_token_set cfg m) h4" unfolding h3 by blast
  let ?s4 = "?s3\<lparr>ps_token_hash := h4, ps_n_token := ps_n_token ?s3 + int (from_urls m)\<rparr>"
  let ?s5 = "if m_message_id m = [] then add_token ''NO_MESSAGE_ID*'' REAL_SPAM_TOKEN_PROBABILITY ?s4 else ?s4"
  have 5: "adds h4 (if m_message_id m = [] then {''NO_MESSAGE_ID*''} else {}) (ps_token_hash ?s5)"
    using adds_addnode [OF adds_wf [OF 4(2)], of "''NO_MESSAGE_ID*''"] adds_refl [OF adds_wf [OF 4(2)]]
    by (simp add: add_token_def)
  define s6 where "s6 = (if m_envelope_from m \<noteq> []
    then ?s5\<lparr>ps_envelope_from := snprintf_s (SMALLBUFSIZE - 1) (m_envelope_from m)\<rparr> else ?s5)"
  have 6: "ps_n_token s6 = int (counted_tokens cfg m)" "ps_n_subject_token s6 = ps_n_subject_token s2"
    "ps_training_request s6 = ps_training_request s2" "ps_trapped s6 = ps_trapped s2"
    "ps_envelope_recipient s6 = ps_envelope_recipient s2" "ps_b_subject s6 = ps_b_subject s2"
    "ps_envelope_from s6 = (if m_envelope_from m = [] then ps_envelope_from s2 else snprintf_s (SMALLBUFSIZE - 1) (m_envelope_from m))"
    "ps_token_hash s6 = ps_token_hash ?s5"
    using 2(3) by (simp_all add: s6_def add_token_def counted_tokens_def)
  obtain ip host where 7: "forwarded_client m (envelope_recipients cfg m s6) = (envelope_recipients cfg m s6)\<lparr>ps_ip := ip, ps_hostname := host\<rparr>"
    using forwarded_client_eq by blast
  let ?s7 = "(envelope_recipients cfg m s6)\<lparr>ps_ip := ip, ps_hostname := host\<rparr>"
  have h7: "ps_token_hash ?s7 = ps_token_hash ?s5" using 6(8) by (simp add: envelope_recipients_eq)
  then have "wf_tab (ps_token_hash ?s7)" using adds_wf [OF 5] by (simp only:)
  from received_client_run [OF c(4) this, of cfg] obtain ip' host' h m' where 8:
    "received_client cfg m ?s7 = Some (?s7\<lparr>ps_ip := ip', ps_hostname := host', ps_token_hash := h\<rparr>, m')"
    "adds (ps_token_hash ?s5) (client_tokens (received_fields m)) h"
    unfolding h7 by blast
  let ?s8 = "?s7\<lparr>ps_ip := ip', ps_hostname := host', ps_token_hash := h\<rparr>"
  have u: "st\<lparr>ps_token_hash := h1, ps_n_token := ps_n_token st + int (length (text_urls (m_body m)))\<rparr>
      \<lparr>ps_n_token := int (length (word_tokens cfg [] (m_body m)))\<rparr> = ?s1" by simp
  have p: "post_parse st m cfg = Some (0, ?s8, m')"
    unfolding post_parse_def 1(1) Option.bind.bind_lunit prod.case u 2(1) Let_def 4(1)
    unfolding s6_def [symmetric] 7 8(1) Option.bind.bind_lunit prod.case by (rule refl)
  have a: "adds (ps_token_hash st) (message_tokens cfg m) h"
    using adds_trans [OF adds_trans [OF adds_trans [OF adds_trans [OF 1(2) 2(2)] 4(2)] 5] 8(2)]
    unfolding message_tokens_def .
  have f: "ps_n_token ?s8 = ps_n_token s6" "ps_n_subject_token ?s8 = ps_n_subject_token s6"
    "ps_training_request ?s8 = (if \<exists>v\<in>set (recipients m). asks_training v then 1 else ps_training_request s6)"
    "ps_trapped ?s8 = ((\<exists>v\<in>set (recipients m). traps cfg v) \<or> ps_trapped s6)"
    "ps_envelope_recipient ?s8 = (case recipients m of [] \<Rightarrow> ps_envelope_recipient s6 | v # vs \<Rightarrow> v)"
    "ps_envelope_from ?s8 = ps_envelope_from s6" "ps_b_subject ?s8 = ps_b_subject s6" "ps_token_hash ?s8 = h"
    by (simp_all add: envelope_recipients_eq)
  show ?thesis
    by (intro exI [of _ ?s8] exI [of _ m'] conjI p) (simp_all only: f 6 2(4-9) a)
qed


text \<open>
  C21: For a message whose texts leave no empty field, \<open>post_parse\<close> puts exactly the tokens of the body,
  the subject (with and without its label), the sender and his domain, and the markers for a missing
  message id and an unknown client into the table; \<open>n_token\<close> counts the words and pairs of body and
  subject, the URLs of the subject twice and those of the sender, but not the URLs of the body nor any
  other token; training is asked for, and the mail trapped, exactly by its recipients.
\<close>

theorem post_parse_tokens:
  assumes "clean_message m" "wf_tab (ps_token_hash st)"
  shows "\<exists>st' m'. post_parse st m cfg = Some (0, st', m') \<and> wf_tab (ps_token_hash st') \<and>
    (\<forall>k. findkey (ps_token_hash st') k \<noteq> None \<longleftrightarrow>
       findkey (ps_token_hash st) k \<noteq> None \<or> k \<in> xxh3_64 ` message_tokens cfg m) \<and>
    ps_n_token st' = int (counted_tokens cfg m) \<and>
    ps_training_request st' = (if \<exists>v\<in>set (recipients m). asks_training v then 1 else ps_training_request st) \<and>
    ps_trapped st' = ((\<exists>v\<in>set (recipients m). traps cfg v) \<or> ps_trapped st)"
  using post_parse_run [OF assms, of cfg] unfolding adds_def by (elim exE conjE) (intro exI conjI; assumption)

abbreviation spam_report :: message where
  "spam_report \<equiv> empty_message\<lparr>m_body := ''free money'', m_envelope_recipient := ''joe+spam@example.com''\<rparr>"

lemma post_parse_tokens_witness:
  "\<exists>st' m'. post_parse init_state spam_report (default_config []) = Some (0, st', m') \<and>
     findkey (ps_token_hash st') (xxh3_64 ''NO_MESSAGE_ID*'') \<noteq> None \<and> ps_training_request st' = 1"
proof -
  have "cut_at SPACE ''free money'' = [''free'', ''money'']" by simp
  then have c: "clean_message spam_report"
    by (simp add: clean_message_def empty_message_def received_fields_def)
  have w: "wf_tab (ps_token_hash init_state)" by (simp add: init_state_def)
  have "CHR '','' \<notin> set ''joe+spam@example.com''" by simp
  then have "recipients spam_report = [''joe+spam@example.com'']"
    by (simp add: recipients_def cut_at_no_occurrence del: cut_at.simps)
  moreover have "asks_training ''joe+spam@example.com''" by code_simp
  ultimately have t: "\<exists>v\<in>set (recipients spam_report). asks_training v" by simp
  have "''NO_MESSAGE_ID*'' \<in> message_tokens (default_config []) spam_report" by (simp add: message_tokens_def empty_message_def)
  then have k: "xxh3_64 ''NO_MESSAGE_ID*'' \<in> xxh3_64 ` message_tokens (default_config []) spam_report" by (rule imageI)
  obtain st' m' where st: "post_parse init_state spam_report (default_config []) = Some (0, st', m')"
    "\<forall>k. findkey (ps_token_hash st') k \<noteq> None \<longleftrightarrow>
       findkey (ps_token_hash init_state) k \<noteq> None \<or> k \<in> xxh3_64 ` message_tokens (default_config []) spam_report"
    "ps_training_request st' = (if \<exists>v\<in>set (recipients spam_report). asks_training v then 1 else ps_training_request init_state)"
    using post_parse_tokens [OF c w, of "default_config []"] by (elim exE conjE) blast
  show ?thesis
    by (intro exI conjI, rule st(1)) (use st(2,3) t k in \<open>simp_all only: if_True simp_thms\<close>)
qed

section \<open>From the message to the tokens\<close>

text \<open>The text of the body after \<open>parse_message\<close>.\<close>

lemma parse_message_run:
  assumes "read_file malloc readable file = Some buffer" "parse_eml_buffer libs cfg buffer 0 empty_message = Some (rc, b, m1)"
    and "m_body m1 = concat cs" "\<forall>s\<in>set cs. complete s"
  shows "\<exists>st m'. parse_message malloc readable libs cfg file st0 m0 = Some (0, st, m') \<and>
    m' = m1\<lparr>m_body := join SPACE (words_of (concat (map lower cs)))\<rparr> \<and> ps_token_hash st = inithash \<and>
    ps_training_request st = 0 \<and> \<not> ps_trapped st"
proof -
  have ok: "message_ok m1" using parser_keeps(1) [OF assms(2) message_ok_empty] by simp
  then have n: "NUL \<notin> set (m_body m1)" "length (m_body m1) < BIGBUFSIZE" by (simp_all add: message_ok_def)
  let ?d = "m_body m1 @ replicate (BIGBUFSIZE - length (m_body m1)) NUL"
  obtain k where k: "BIGBUFSIZE - length (m_body m1) = Suc k" using n(2) by (metis Suc_diff_Suc)
  have t: "terminated ?d 0" "cstr (drop 0 ?d) = concat cs"
    using n(1) assms(3) unfolding k by (simp_all add: terminated_def cstr_append_NUL cstr_id)
  obtain d1 where d1: "utf8_tolower ?d 0 = Some d1" "overwrites 0 ?d d1 (concat (map lower cs))"
    using utf8_tolower_text [OF t assms(4)] by blast
  have nl: "NUL \<notin> set (concat (map lower cs))" using assms(4) lower_no_NUL by auto
  have t1: "terminated d1 0" "cstr (drop 0 d1) = concat (map lower cs)" using overwritesD [OF d1(2)] cstr_id [OF nl] by simp_all
  let ?o = "join SPACE (words_of (concat (map lower cs)))"
  obtain d2 where d2: "normalize_buffer d1 0 = Some d2" "overwrites 0 d1 d2 ?o"
    using normalize_buffer_emits [OF t1(1)] unfolding t1(2) by blast
  have "NUL \<notin> set ?o" using NUL_squeeze [OF nl, of True] unfolding chop_squeeze .
  then have "cstr d2 = ?o" using overwritesD [OF d2(2)] by (simp add: cstr_id)
  then show ?thesis
    using assms(1,2) d1(1) d2(1) by (simp add: parse_message_def init_state_def)
qed


lemma clean_join_words: "clean (join SPACE (words_of s)) \<longleftrightarrow> words_of s \<noteq> []"
proof (cases "words_of s = []")
  case False
  have w: "w \<noteq> [] \<and> SPACE \<notin> set w" if "w \<in> set (words_of s)" for w
    using words_of_nonempty [OF that] is_separator_SPACE by blast
  then have "cut_at SPACE (join SPACE (words_of s)) = words_of s" using False by (intro cut_at_join) auto
  then show ?thesis using w False by auto
qed simp

text \<open>The converse of \<open>post_parse_run\<close>: any empty field and any bad word takes the code out of an array.\<close>

lemma received_word_bad: "bad_word v \<Longrightarrow> received_word cfg v st = None"
proof -
  assume "bad_word v"
  then obtain t where v: "v = CHR '')'' # t" "CHR ''.'' \<in> set t" "CHR '')'' \<notin> set t"
    by (auto simp: bad_word_def prefix_def)
  then have "strrchr v (CHR '')'') = Some 0" by (simp only: strrchr_0_iff simp_thms)
  moreover have "strchr v (CHR ''.'') \<noteq> None" using v by (simp add: strchr_None_iff)
  ultimately show ?thesis using v(1) by (simp add: received_word_def Let_def)
qed

lemma received_words_bad: "\<exists>v\<in>set vs. bad_word v \<Longrightarrow> received_words cfg vs st = None"
proof (induction vs arbitrary: st)
  case (Cons v vs)
  then show ?case by (cases "received_word cfg v st") (auto simp: received_word_bad)
qed simp

lemma received_client_bad: "\<exists>v\<in>set (received_fields m). bad_word v \<Longrightarrow> received_client cfg m st = None"
  using received_words_bad [of "received_fields m" cfg st]
  by (auto simp: received_client_def received_fields_def split_all_cut_at split: if_splits)

lemma tokenized_clean: "generate_tokens_from_string st (Some s) label cfg = Some r \<Longrightarrow> clean s"
  using generate_tokens_None_iff [of st s label cfg] by auto

lemma post_parse_clean:
  assumes "post_parse st m cfg = Some r"
  shows "clean_message m"
proof -
  obtain s1 n1 s2 s4 where r: "generate_tokens_from_string st (Some (m_body m)) [] cfg = Some (s1, n1)"
    "subject_tokens cfg m (s1\<lparr>ps_n_token := int n1\<rparr>) = Some s2"
    "\<exists>s3. from_tokens cfg m s3 = Some s4" "\<exists>s6. received_client cfg m s6 \<noteq> None"
    using assms unfolding post_parse_def Let_def by (auto simp: bind_eq_Some_conv; blast)
  have "m_subject m = [] \<or> clean (m_subject m)"
    using r(2) tokenized_clean by (auto simp: subject_tokens_def bind_eq_Some_conv split: if_splits)
  moreover have "m_from m = [] \<or> clean (m_from m)"
    using r(3) tokenized_clean by (auto simp: from_tokens_def bind_eq_Some_conv split: if_splits)
  moreover have "\<forall>v\<in>set (received_fields m). \<not> bad_word v" using r(4) received_client_bad [of m cfg] by metis
  ultimately show ?thesis using tokenized_clean [OF r(1)] by (auto simp: clean_message_def)
qed

lemma post_parse_None_iff:
  assumes "wf_tab (ps_token_hash st)"
  shows "post_parse st m cfg = None \<longleftrightarrow> \<not> clean_message m"
  using post_parse_run [OF _ assms, of m cfg] post_parse_clean [of st m cfg] by (cases "post_parse st m cfg") auto

text \<open>
  C22: \<open>parse_message\<close> leaves the words of the lowered body with single spaces between them, and
  \<open>post_parse\<close> then leaves an array exactly for a message without any word in its body, with an empty
  field (a leading, trailing or double space) in its subject or sender, which are not normalized, or with a
  \<open>Received:\<close> word that a closing parenthesis empties.
\<close>

theorem parse_message_body:
  assumes "read_file malloc readable file = Some buffer" "parse_eml_buffer libs cfg buffer 0 empty_message = Some (rc, b, m1)"
    and "m_body m1 = concat cs" "\<forall>s\<in>set cs. complete s"
  shows "\<exists>st m'. parse_message malloc readable libs cfg file st0 m0 = Some (0, st, m') \<and>
    m' = m1\<lparr>m_body := join SPACE (words_of (concat (map lower cs)))\<rparr> \<and> wf_tab (ps_token_hash st) \<and>
    (post_parse st m' cfg = None \<longleftrightarrow>
       words_of (concat (map lower cs)) = [] \<or> m_subject m1 \<noteq> [] \<and> [] \<in> set (cut_at SPACE (m_subject m1)) \<or>
       m_from m1 \<noteq> [] \<and> [] \<in> set (cut_at SPACE (m_from m1)) \<or> (\<exists>v\<in>set (received_fields m1). bad_word v))"
proof -
  obtain st m' where p: "parse_message malloc readable libs cfg file st0 m0 = Some (0, st, m')"
    "m' = m1\<lparr>m_body := join SPACE (words_of (concat (map lower cs)))\<rparr>" "ps_token_hash st = inithash"
    using parse_message_run [OF assms] by blast
  have "received_fields m' = received_fields m1" by (simp add: p(2) received_fields_def received_cut_def split: option.split)
  then have b: "\<not> clean_message m' \<longleftrightarrow> words_of (concat (map lower cs)) = [] \<or>
      m_subject m1 \<noteq> [] \<and> \<not> clean (m_subject m1) \<or> m_from m1 \<noteq> [] \<and> \<not> clean (m_from m1) \<or>
      (\<exists>v\<in>set (received_fields m1). bad_word v)"
    using clean_join_words [of "concat (map lower cs)"] by (auto simp: p(2) clean_message_def)
  have "wf_tab (ps_token_hash st)" by (simp add: p(3))
  from post_parse_None_iff [OF this, of m' cfg] show ?thesis
    unfolding b by (intro exI [of _ st] exI [of _ m'] conjI p) (simp_all add: p(3))
qed

lemma parse_message_body_witness:
  "\<exists>st. parse_message (\<lambda>n. True) True no_libraries (default_config []) (Some (''A: b'' @ [LF, LF] @ ''Hello'')) init_state empty_message =
     Some (0, st, empty_message\<lparr>m_body := ''hello''\<rparr>)"
proof -
  obtain b where b: "parse_eml_buffer no_libraries (default_config []) small_message 0 empty_message =
      Some (0, b, empty_message\<lparr>m_body := ''Hello''\<rparr>)"
    using small_message_parsed by blast
  have r: "read_file (\<lambda>n. True) True (Some (''A: b'' @ [LF, LF] @ ''Hello'')) = Some small_message"
    by (simp add: read_file_def)
  let ?cs = "[''H'', ''e'', ''l'', ''l'', ''o'']"
  have c: "m_body (empty_message\<lparr>m_body := ''Hello''\<rparr>) = concat ?cs" "\<forall>s\<in>set ?cs. complete s"
    by (simp_all add: complete_def char_len_def)
  have w: "join SPACE (words_of (concat (map lower ?cs))) = ''hello''" by code_simp
  show ?thesis
    using parse_message_body [OF r b c, of init_state empty_message] unfolding w by auto
qed

end
