(* ===== verification/Mailer.thy ===== *)
theory Mailer
  imports Antispam Post_Parse Partition
begin

text \<open>
  \<open>process_email\<close> and \<open>process_dir\<close> of \<open>src/kospam.c\<close>: what a worker does with one message, from the parser
  to the file in the directory of the sender or the training of the table, and with its queue.

  The file system is the map of \<open>Message_File\<close>; time stamps and log messages are left out.  \<open>None\<close> is an
  access outside an array in one of the parts.
\<close>

section \<open>One message\<close>

text \<open>What a worker is given by its environment.\<close>

record ('w, 'r) site =
  s_my :: "'w mysql"
  s_malloc :: "nat \<Rightarrow> bool"
  s_readable :: bool
  s_libs :: libraries
  s_regexec :: "'r \<Rightarrow> string \<Rightarrow> bool"
  s_pregs :: "'r list"
  s_disk :: disk
  s_rename :: "string \<Rightarrow> string \<Rightarrow> bool"
  s_send_dir :: string
  s_now :: int

abbreviation (input) S_HAM :: "32 word" where "S_HAM \<equiv> 0"
abbreviation (input) S_SPAM :: "32 word" where "S_SPAM \<equiv> 1"
abbreviation (input) S_VIRUS :: "32 word" where "S_VIRUS \<equiv> 2"

definition no_counters :: counters where
  "no_counters = \<lparr>c_rcvd = 0, c_ham = 0, c_spam = 0, c_possible_spam = 0, c_unsure = 0, c_minefield = 0,
     c_virus = 0, c_zombie = 0, c_fp = 0, c_fn = 0, c_mynetwork = 0, c_size = 0\<rparr>"

definition move_file :: "(string \<Rightarrow> string \<Rightarrow> bool) \<Rightarrow> string \<Rightarrow> string \<Rightarrow> file_system \<Rightarrow> file_system" where
  "move_file rename old new fs = (if rename old new then rename_file old new fs else fs)"

text \<open>The verdict and its counters.\<close>

definition count_message :: "bool \<Rightarrow> config \<Rightarrow> real \<Rightarrow> counters \<Rightarrow> 32 word \<times> counters" where
  "count_message malware cfg p c =
     (if malware then (S_VIRUS, c\<lparr>c_virus := c_virus c + 1\<rparr>)
      else if p \<ge> cfg_spam_overall_limit cfg then (S_SPAM, c\<lparr>c_spam := c_spam c + 1\<rparr>)
      else
        let c1 = c\<lparr>c_ham := c_ham c + 1\<rparr>
        in (S_HAM,
            if p < cfg_spam_overall_limit cfg \<and> p > cfg_possible_spam_limit cfg
            then c1\<lparr>c_possible_spam := c_possible_spam c1 + 1\<rparr>
            else if p < cfg_possible_spam_limit cfg \<and> p > cfg_max_ham_spamicity cfg
            then c1\<lparr>c_unsure := c_unsure c1 + 1\<rparr> else c1))"

text \<open>What is left of a message: the local variables of \<open>process_email\<close>, the files and the database.\<close>

record 'w handled =
  hd_code :: int
  hd_sdata :: session_data
  hd_state :: parser_state
  hd_counters :: counters
  hd_files :: file_system
  hd_world :: 'w

text \<open>From the recording of the verdict to the removal or delivery of the message.\<close>

definition finish_message ::
  "('w, 'r) site \<Rightarrow> config \<Rightarrow> string \<Rightarrow> nat \<Rightarrow> bool \<Rightarrow> 'w handled \<Rightarrow> 'w handled option" where
  "finish_message s cfg filename conn malware r =
     (if ps_training_request (hd_state r) = 0
      then
        let w1 = write_history_to_sql (s_my s) conn (hd_sdata r) (hd_state r) (s_now s) (hd_world r);
            (status, c) = count_message malware cfg (sd_spaminess (hd_sdata r)) (hd_counters r);
            sd = (hd_sdata r)\<lparr>sd_status := status\<rparr>;
            r1 = r\<lparr>hd_sdata := sd, hd_counters := c, hd_world := w1\<rparr>
        in if hd_code r = MESSAGE_OK
           then do {
             (rc, fs1) \<leftarrow> fix_message_file (s_malloc s) (s_readable s) (s_disk s) sd cfg (hd_files r);
             Some (r1\<lparr>hd_files := move_file (s_rename s) filename
               (snprintf_s (SMALLBUFSIZE - 1) (s_send_dir s @ ''/'' @ sd_ttmpfile sd)) fs1\<rparr>)
           }
           else Some (r1\<lparr>hd_files := (hd_files r)(filename := None)\<rparr>)
      else Some (r\<lparr>hd_files := (hd_files r)(filename := None)\<rparr>))"

text \<open>The mark of a client of our own network, and the trap.\<close>

definition mark_mynetwork :: "config \<Rightarrow> parser_state \<Rightarrow> session_data \<Rightarrow> session_data" where
  "mark_mynetwork cfg st sd =
     (if cfg_mynetwork cfg \<noteq> [] \<and> is_item_on_list (Some (ps_ip st)) (Some (cfg_mynetwork cfg))
      then sd\<lparr>sd_mynetwork := 1\<rparr> else sd)"

definition store_trapped :: "('w, 'r) site \<Rightarrow> nat \<Rightarrow> parser_state \<Rightarrow> 'w \<Rightarrow> counters \<times> 'w" where
  "store_trapped s conn st w =
     (if ps_trapped st
      then (no_counters\<lparr>c_minefield := 1\<rparr>, store_minefield_ip (s_my s) conn (ps_ip st) (s_now s) w)
      else (no_counters, w))"

text \<open>\<open>state0\<close> and \<open>m0\<close> are what the uninitialised variables hold.\<close>

definition process_email ::
  "('w, 'r) site \<Rightarrow> config \<Rightarrow> string \<Rightarrow> nat \<Rightarrow> int \<Rightarrow> parser_state \<times> message \<Rightarrow> file_system \<Rightarrow> 'w \<Rightarrow> 'w handled option" where
  "process_email s cfg filename conn sz junk fs w = do {
     let sd0 = init_session_data\<lparr>sd_tot_len := sz, sd_ttmpfile := snprintf_s (SMALLBUFSIZE - 1) filename\<rparr>;
     (rc, st1, m1) \<leftarrow> parse_message (s_malloc s) (s_readable s) (s_libs s) cfg (fs filename) (fst junk) (snd junk);
     (rc, st2, m2) \<leftarrow> post_parse st1 m1 cfg;
     let (malware, w1) = has_known_bad_attachment (s_my s) conn (map at_digest (m_attachments m2)) w;
     let sd1 = mark_mynetwork cfg st2 sd0;
     let (c1, w2) = store_trapped s conn st2 w1;
     (code, sd2, st3, w3) \<leftarrow> check_spam (s_my s) (s_malloc s) (s_regexec s) sd1 conn st2 (s_pregs s) cfg w2;
     r \<leftarrow> finish_message s cfg filename conn malware \<lparr>hd_code = code, hd_sdata = sd2, hd_state = st3, hd_counters = c1,
            hd_files = fs, hd_world = w3\<rparr>;
     let c = (hd_counters r)\<lparr>c_rcvd := c_rcvd (hd_counters r) + 1\<rparr>;
     Some (r\<lparr>hd_state := (hd_state r)\<lparr>ps_token_hash := clearhash (ps_token_hash (hd_state r))\<rparr>, hd_counters := c,
            hd_world := update_counters (s_my s) conn c (hd_world r)\<rparr>)
   }"

section \<open>The queue\<close>

text \<open>
  The names that \<open>readdir\<close> returns, in its order.  A file that is not a regular one is moved as well, but
  that is outside the map; \<open>junk\<close> is what the variables hold at the call for a file.
\<close>

fun process_entries ::
  "('w, 'r) site \<Rightarrow> config \<Rightarrow> string \<Rightarrow> nat \<Rightarrow> (string \<Rightarrow> parser_state \<times> message) \<Rightarrow> string list \<Rightarrow> int \<Rightarrow>
   file_system \<Rightarrow> 'w \<Rightarrow> (int \<times> file_system \<times> 'w) option" where
  "process_entries s cfg directory conn junk [] tot_msgs fs w = Some (tot_msgs, fs, w)"
| "process_entries s cfg directory conn junk (d_name # names) tot_msgs fs w =
     (if d_name = ''.'' \<or> d_name = ''..'' then process_entries s cfg directory conn junk names tot_msgs fs w
      else
        let fname = snprintf_s (SMALLBUFSIZE - 1) (directory @ ''/'' @ d_name)
        in case fs fname of
             None \<Rightarrow> process_entries s cfg directory conn junk names tot_msgs fs w
           | Some content \<Rightarrow> do {
               r \<leftarrow> process_email s cfg d_name conn (to_int32 (int (length content))) (junk d_name)
                     (move_file (s_rename s) fname d_name fs) w;
               process_entries s cfg directory conn junk names (tot_msgs + 1) (hd_files r) (hd_world r)
             })"

definition process_dir ::
  "('w, 'r) site \<Rightarrow> config \<Rightarrow> string \<Rightarrow> nat \<Rightarrow> (string \<Rightarrow> parser_state \<times> message) \<Rightarrow> string list option \<Rightarrow>
   file_system \<Rightarrow> 'w \<Rightarrow> (int \<times> file_system \<times> 'w) option" where
  "process_dir s cfg directory conn junk entries fs w =
     (case entries of None \<Rightarrow> Some (0, fs, w) | Some names \<Rightarrow> process_entries s cfg directory conn junk names 0 fs w)"

section \<open>What the decision leaves alone\<close>

text \<open>The parts of the session and of the state that neither scoring nor training changes.\<close>

definition kept :: "session_data \<Rightarrow> parser_state \<Rightarrow> session_data \<Rightarrow> parser_state \<Rightarrow> bool" where
  "kept sd st sd' st' \<longleftrightarrow> sd_ttmpfile sd' = sd_ttmpfile sd \<and> sd_status sd' = sd_status sd \<and>
     sd_spaminessbuf sd' = sd_spaminessbuf sd \<and> ps_training_request st' = ps_training_request st \<and>
     ps_trapped st' = ps_trapped st"

lemma kept_refl [simp]: "kept sd st sd st"
  by (simp add: kept_def)

lemma kept_trans: "kept sd st sd1 st1 \<Longrightarrow> kept sd1 st1 sd2 st2 \<Longrightarrow> kept sd st sd2 st2"
  by (simp add: kept_def)

lemma get_tokens_kept: "get_tokens my malloc st type cfg w = Some (r, st', w') \<Longrightarrow> kept sd st sd st'"
  by (erule get_tokens_state) (simp add: kept_def)

interpretation request: scoring_relation my malloc "\<lambda>st w st' w'. kept sd st sd st'" for my malloc sd
  by unfold_locales (auto dest: get_tokens_kept [where sd = sd] simp: kept_def)

lemma run_statistical_check_kept:
  assumes "run_statistical_check my malloc sd st conn cfg w = Some (p, sd', st', w')"
  shows "kept sd st sd' st'"
proof -
  have "\<exists>h s b. sd' = sd\<lparr>sd_nham := h, sd_nspam := s, sd_statistically_whitelisted := b\<rparr>"
  proof -
    obtain te w1 where te: "get_ham_spam_counters my conn counters_stmt w = (te, w1)" by (metis surj_pair)
    let ?sd1 = "sd\<lparr>sd_nham := real (unat (te_nham te)), sd_nspam := real (unat (te_nspam te))\<rparr>"
    have "sd' = ?sd1 \<or> sd' = ?sd1\<lparr>sd_statistically_whitelisted := 1\<rparr>"
      using assms unfolding run_statistical_check_def te Let_def case_prod_conv
      by (auto simp: case_prod_beta split: if_splits option.splits)
    moreover have "?sd1 = ?sd1\<lparr>sd_statistically_whitelisted := sd_statistically_whitelisted sd\<rparr>" by simp
    ultimately show ?thesis by metis
  qed
  then show ?thesis using request.run_statistical_check_rel [OF assms, of sd] by (auto simp: kept_def)
qed

lemma introduce_tokens_kept: "introduce_tokens my malloc conn st cfg w = Some (r, st', w') \<Longrightarrow> kept sd st sd st'"
  by (auto simp: introduce_tokens_def Let_def split: if_splits option.splits dest: get_tokens_kept [where sd = sd])

lemma train_loop_kept:
  "train_loop my malloc rounds b sd st conn cfg w = Some (sd', st', w') \<Longrightarrow> kept sd st sd' st'"
proof (induction rounds arbitrary: sd st w)
  case (Suc rounds)
  let ?st0 = "st\<lparr>ps_token_hash := resetcounters (ps_token_hash st)\<rparr>"
  obtain p sd1 st1 w1 where r: "run_statistical_check my malloc sd ?st0 conn cfg w = Some (p, sd1, st1, w1)"
    using Suc.prems by (auto simp: Let_def split: option.splits)
  have k: "kept sd st (sd1\<lparr>sd_spaminess := p\<rparr>) st1" using run_statistical_check_kept [OF r] by (simp add: kept_def)
  have "(sd', st') = (sd1\<lparr>sd_spaminess := p\<rparr>, st1) \<or>
      (\<exists>w2. train_loop my malloc rounds b (sd1\<lparr>sd_spaminess := p\<rparr>) st1 conn cfg w2 = Some (sd', st', w'))"
    using Suc.prems unfolding train_loop.simps Let_def r option.case prod.case
    by (auto split: if_splits option.splits)
  then show ?case using k Suc.IH kept_trans by blast
qed simp

lemma do_training_kept:
  assumes "do_training my malloc sd st conn cfg w = Some (sd', st', w')"
  shows "kept sd st sd' st'"
proof (cases "\<exists>w'. do_training my malloc sd st conn cfg w = Some (sd, st, w')")
  case True
  then show ?thesis using assms by auto
next
  case False
  then obtain b sql v where "do_training my malloc sd st conn cfg w = train_known my malloc b sd st conn cfg sql v"
    using do_training_cases [of my malloc sd st conn cfg w] by blast
  then obtain r st1 w1 w2 where i: "introduce_tokens my malloc conn st cfg v = Some (r, st1, w1)"
    "train_loop my malloc 5 b sd st1 conn cfg w1 = Some (sd', st', w2)"
    using assms by (auto simp: train_known_def split: option.splits)
  show ?thesis by (rule kept_trans [OF introduce_tokens_kept [OF i(1)] train_loop_kept [OF i(2)]])
qed

lemma length_rstrip: "length (rstrip_newlines s) \<le> length s"
  using length_dropWhile_le [of _ "rev s"] by (simp add: rstrip_newlines_def)

text \<open>The same for the whole decision, which writes the result lines into their array.\<close>

definition decided_on :: "session_data \<Rightarrow> parser_state \<Rightarrow> session_data \<Rightarrow> parser_state \<Rightarrow> bool" where
  "decided_on sd st sd' st' \<longleftrightarrow> sd_ttmpfile sd' = sd_ttmpfile sd \<and> sd_status sd' = sd_status sd \<and>
     length (sd_spaminessbuf sd') < MAXBUFSIZE \<and> ps_training_request st' = ps_training_request st \<and>
     ps_trapped st' = ps_trapped st"

lemma check_spam_content_decided:
  assumes "check_spam_content my malloc sd conn st cfg w = Some (sd', st', w')" "length (sd_spaminessbuf sd) < MAXBUFSIZE"
  shows "decided_on sd st sd' st'"
proof -
  have "\<exists>sd1. kept sd st (sd1\<lparr>sd_spaminessbuf := sd_spaminessbuf sd\<rparr>) st' \<and> length (sd_spaminessbuf sd1) < MAXBUFSIZE \<and>
      sd' = sd1\<lparr>sd_spaminessbuf := rstrip_newlines (sd_spaminessbuf sd1)\<rparr>"
  proof (cases "cfg_max_message_size_to_filter cfg = 0 \<or> sd_tot_len sd < cfg_max_message_size_to_filter cfg")
    case True
    then obtain p sd1 w1 where r: "run_statistical_check my malloc sd st conn cfg w = Some (p, sd1, st', w1)"
      and s: "sd' = sd1\<lparr>sd_spaminess := p, sd_spaminessbuf := rstrip_newlines (snprintf_s 8191 (spaminess_lines (sd1\<lparr>sd_spaminess := p\<rparr>) cfg))\<rparr>"
      using assms(1) by (auto simp: check_spam_content_def Let_def bind_eq_Some_conv)
    have "length (snprintf_s 8191 x) < MAXBUFSIZE" for x using snprintf_s_length [of 8191 x] by simp
    then show ?thesis using run_statistical_check_kept [OF r] unfolding s
      by (intro exI [of _ "sd1\<lparr>sd_spaminess := p, sd_spaminessbuf := snprintf_s 8191 (spaminess_lines (sd1\<lparr>sd_spaminess := p\<rparr>) cfg)\<rparr>"])
        (simp add: kept_def)
  next
    case False
    then have "sd' = sd\<lparr>sd_spaminessbuf := rstrip_newlines (sd_spaminessbuf sd)\<rparr> \<and> st' = st"
      using assms(1) by (auto simp: check_spam_content_def bind_eq_Some_conv)
    then show ?thesis using assms(2) by (intro exI [of _ sd]) (simp add: kept_def)
  qed
  moreover have "length s < MAXBUFSIZE \<Longrightarrow> length (rstrip_newlines s) < MAXBUFSIZE" for s
    using length_rstrip [of s] by linarith
  ultimately show ?thesis by (auto simp: kept_def decided_on_def)
qed

lemma check_spam_decided:
  assumes "check_spam my malloc regexec sd conn st pregs cfg w = Some (code, sd', st', w')"
  shows "decided_on sd st sd' st' \<and> (code = MESSAGE_OK \<or> code = MESSAGE_DISCARD)"
proof -
  define S0 where "S0 = sd\<lparr>sd_spaminess := DEFAULT_SPAMICITY, sd_spaminessbuf := watermark_line sd\<rparr>"
  have len: "length (sd_spaminessbuf S0) < MAXBUFSIZE"
    by (simp add: S0_def watermark_line_def snprintf_s_def)
  show ?thesis
  proof (cases "ps_training_request st = 1")
    case True
    then obtain w1 where t: "do_training my malloc S0 st conn cfg w = Some (sd', st', w1)" "code = MESSAGE_DISCARD"
      using assms unfolding check_spam_def Let_def S0_def [symmetric] by (auto split: option.splits)
    then show ?thesis using do_training_kept [OF t(1)] len by (simp add: kept_def decided_on_def S0_def)
  next
    case False
    obtain white w1 where w1: "check_email_against_list my conn ''whitelist'' (ps_envelope_from st) w = (white, w1)" by (rule prod.exhaust)
    obtain black w2 where w2: "check_email_against_list my conn ''blacklist'' (ps_envelope_from st) w1 = (black, w2)" by (rule prod.exhaust)
    obtain t w3 where w3: "is_sender_on_minefield my conn (ps_ip st) w2 = (t, w3)" by (rule prod.exhaust)
    have c: "decided_on sd st (checked_session sd t b) (checked_state regexec pregs st)" for b
      by (simp add: decided_on_def checked_session_def checked_state_def watermark_line_def snprintf_s_def)
    show ?thesis
      using assms False w1 w2 w3
    proof (cases rule: check_spam_cases)
      case content
      then show ?thesis using check_spam_content_decided [OF content(7)] c by (fastforce simp: decided_on_def)
    qed (use len c in \<open>auto simp: decided_on_def S0_def\<close>)
  qed
qed

section \<open>The outcome for one message\<close>

lemma process_email_cases:
  assumes "process_email s cfg filename conn sz junk fs w = Some r"
  obtains st2 digests malware w1 c1 w2 code sd2 st3 w3 q where
    "has_known_bad_attachment (s_my s) conn digests w = (malware, w1)"
    "store_trapped s conn st2 w1 = (c1, w2)"
    "decided_on (init_session_data\<lparr>sd_tot_len := sz, sd_ttmpfile := snprintf_s (SMALLBUFSIZE - 1) filename\<rparr>) st2 sd2 st3"
    "code = MESSAGE_OK \<or> code = MESSAGE_DISCARD"
    "finish_message s cfg filename conn malware \<lparr>hd_code = code, hd_sdata = sd2, hd_state = st3, hd_counters = c1,
       hd_files = fs, hd_world = w3\<rparr> = Some q"
    "hd_code r = hd_code q" "hd_sdata r = hd_sdata q" "hd_files r = hd_files q"
    "hd_state r = (hd_state q)\<lparr>ps_token_hash := clearhash (ps_token_hash (hd_state q))\<rparr>"
    "hd_counters r = (hd_counters q)\<lparr>c_rcvd := c_rcvd (hd_counters q) + 1\<rparr>"
    "hd_world r = update_counters (s_my s) conn (hd_counters r) (hd_world q)"
proof -
  let ?sd0 = "init_session_data\<lparr>sd_tot_len := sz, sd_ttmpfile := snprintf_s (SMALLBUFSIZE - 1) filename\<rparr>"
  obtain rc1 st1 m1 rc2 st2 m2 where
    p: "parse_message (s_malloc s) (s_readable s) (s_libs s) cfg (fs filename) (fst junk) (snd junk) = Some (rc1, st1, m1)"
      "post_parse st1 m1 cfg = Some (rc2, st2, m2)"
    using assms unfolding process_email_def Let_def by (auto simp: bind_eq_Some_conv)
  obtain malware w1 where m: "has_known_bad_attachment (s_my s) conn (map at_digest (m_attachments m2)) w = (malware, w1)"
    by (rule prod.exhaust)
  obtain c1 w2 where t: "store_trapped s conn st2 w1 = (c1, w2)" by (rule prod.exhaust)
  obtain code sd2 st3 w3 q where
    c: "check_spam (s_my s) (s_malloc s) (s_regexec s) (mark_mynetwork cfg st2 ?sd0) conn st2 (s_pregs s) cfg w2 = Some (code, sd2, st3, w3)"
    and f: "finish_message s cfg filename conn malware \<lparr>hd_code = code, hd_sdata = sd2, hd_state = st3, hd_counters = c1,
       hd_files = fs, hd_world = w3\<rparr> = Some q"
    and r: "r = q\<lparr>hd_state := (hd_state q)\<lparr>ps_token_hash := clearhash (ps_token_hash (hd_state q))\<rparr>,
       hd_counters := (hd_counters q)\<lparr>c_rcvd := c_rcvd (hd_counters q) + 1\<rparr>,
       hd_world := update_counters (s_my s) conn ((hd_counters q)\<lparr>c_rcvd := c_rcvd (hd_counters q) + 1\<rparr>) (hd_world q)\<rparr>"
    using assms unfolding process_email_def Let_def p bind.bind_lunit case_prod_conv m t by (auto simp: bind_eq_Some_conv)
  have d: "decided_on ?sd0 st2 sd2 st3" "code = MESSAGE_OK \<or> code = MESSAGE_DISCARD"
    using check_spam_decided [OF c] by (auto simp: decided_on_def mark_mynetwork_def)
  show ?thesis
    by (rule that [of "map at_digest (m_attachments m2)" malware w1 st2 c1 w2 sd2 st3 code w3 q]) (use m t d f in \<open>simp_all add: r\<close>)
qed

lemma finish_message_cases:
  assumes "finish_message s cfg filename conn malware r = Some q"
  shows "hd_code q = hd_code r \<and> hd_state q = hd_state r \<and>
    (if ps_training_request (hd_state r) \<noteq> 0
     then q = r\<lparr>hd_files := (hd_files r)(filename := None)\<rparr>
     else
       (let (status, c) = count_message malware cfg (sd_spaminess (hd_sdata r)) (hd_counters r)
        in hd_sdata q = (hd_sdata r)\<lparr>sd_status := status\<rparr> \<and> hd_counters q = c \<and>
           hd_world q = write_history_to_sql (s_my s) conn (hd_sdata r) (hd_state r) (s_now s) (hd_world r) \<and>
           (if hd_code r \<noteq> MESSAGE_OK then hd_files q = (hd_files r)(filename := None)
            else \<exists>rc fs1. fix_message_file (s_malloc s) (s_readable s) (s_disk s) (hd_sdata q) cfg (hd_files r) = Some (rc, fs1) \<and>
              hd_files q = move_file (s_rename s) filename (snprintf_s (SMALLBUFSIZE - 1) (s_send_dir s @ ''/'' @ sd_ttmpfile (hd_sdata r))) fs1)))"
  using assms unfolding finish_message_def Let_def
  by (auto simp: bind_eq_Some_conv split: if_splits prod.splits)

text \<open>
  C33: A message that asks for training, or is discarded, is removed and no other file changes.  Any other
  message leaves the working directory and arrives under its name in the directory of the sender, with
  the program's result lines at the end of its header; its temporary copy is gone.
\<close>

theorem process_email_outcome:
  assumes "process_email s cfg filename conn sz junk fs w = Some r"
    and "fs filename = Some (h @ eol @ eol @ body)" "s_malloc s (length (h @ eol @ eol @ body) + 1)" "s_readable s"
    and "eol = [LF] \<or> eol = [CR, LF]" "find_headers_end (cstr (h @ eol @ eol @ body @ [NUL])) = Some (length h)" "NUL \<notin> set h"
    and "can_open (s_disk s)" "length (h @ eol @ eol @ body) + MAXBUFSIZE < disk.room (s_disk s)"
    and "\<forall>v\<in>set (cut_at LF h). length v < SMALLBUFSIZE" "length h < MAX_MAIL_HEADER_SIZE"
    and "length filename < 200" "length (s_send_dir s) < 200" "s_rename s filename (s_send_dir s @ ''/'' @ filename)"
  shows "hd_files r =
    (if ps_training_request (hd_state r) \<noteq> 0 \<or> hd_code r \<noteq> MESSAGE_OK then fs(filename := None)
     else (fs(filename @ ''.tmp'' := None, filename := None))(s_send_dir s @ ''/'' @ filename \<mapsto>
       lines_text (other_headers (cfg_kospam_header_field cfg) False (cut_at LF h)) @
         sd_spaminessbuf (hd_sdata r) @ LF # tl (eol @ eol) @ body))"
proof (rule process_email_cases [OF assms(1)])
  fix st2 m2 malware w1 c1 w2 code sd2 st3 w3 q
  assume d: "decided_on (init_session_data\<lparr>sd_tot_len := sz, sd_ttmpfile := snprintf_s (SMALLBUFSIZE - 1) filename\<rparr>) st2 sd2 st3"
    and f: "finish_message s cfg filename conn malware
      \<lparr>hd_code = code, hd_sdata = sd2, hd_state = st3, hd_counters = c1, hd_files = fs, hd_world = w3\<rparr> = Some q"
    and r: "hd_code r = hd_code q" "hd_sdata r = hd_sdata q" "hd_files r = hd_files q"
      "hd_state r = (hd_state q)\<lparr>ps_token_hash := clearhash (ps_token_hash (hd_state q))\<rparr>"
  note fin = finish_message_cases [OF f]
  have n: "sd_ttmpfile sd2 = filename" "length (sd_spaminessbuf sd2) < MAXBUFSIZE"
    using d assms(12) by (simp_all add: decided_on_def snprintf_s_def)
  have target: "snprintf_s (SMALLBUFSIZE - 1) (s_send_dir s @ ''/'' @ filename) = s_send_dir s @ ''/'' @ filename"
    using assms(12,13) by (simp add: snprintf_s_def)
  show ?thesis
  proof (cases "ps_training_request st3 \<noteq> 0 \<or> code \<noteq> MESSAGE_OK")
    case True
    then show ?thesis using fin r by (auto split: if_splits prod.splits)
  next
    case False
    then obtain status fs1 rc where q: "hd_sdata q = sd2\<lparr>sd_status := status\<rparr>"
      and fm: "fix_message_file (s_malloc s) (s_readable s) (s_disk s) (hd_sdata q) cfg fs = Some (rc, fs1)"
      and mv: "hd_files q = move_file (s_rename s) filename (s_send_dir s @ ''/'' @ filename) fs1"
      using fin n(1) target by (auto split: prod.splits)
    let ?new = "lines_text (other_headers (cfg_kospam_header_field cfg) False (cut_at LF h)) @
        sd_spaminessbuf (hd_sdata q) @ LF # tl (eol @ eol) @ body"
    have "fix_message_file (s_malloc s) True (s_disk s) (hd_sdata q) cfg fs =
        Some (0, (fs(sd_ttmpfile (hd_sdata q) @ ''.tmp'' := None))(sd_ttmpfile (hd_sdata q) \<mapsto> ?new))"
      by (rule fix_message_file_headers) (use assms(2-12) n q in simp_all)
    then have fs1: "fs1 = (fs(filename @ ''.tmp'' := None))(filename \<mapsto> ?new)"
      using fm assms(4) n(1) q by simp
    have "filename \<noteq> s_send_dir s @ ''/'' @ filename"
    proof
      assume "filename = s_send_dir s @ ''/'' @ filename"
      then have "length filename = length (s_send_dir s @ ''/'' @ filename)" by (rule arg_cong)
      then show False by simp
    qed
    then have "hd_files q = (fs(filename @ ''.tmp'' := None, filename := None))(s_send_dir s @ ''/'' @ filename \<mapsto> ?new)"
      unfolding mv fs1 move_file_def if_P [OF assms(14)] by (simp add: rename_file_def fun_upd_twist)
    then show ?thesis using False r fin by simp
  qed
qed

section \<open>A message in the demonstration server\<close>

definition demo_site :: "(demo, string) site" where
  "demo_site = \<lparr>s_my = demo_server, s_malloc = (\<lambda>_. True), s_readable = True, s_libs = no_libraries, s_regexec = (=), s_pregs = [],
     s_disk = \<lparr>can_open = True, room = 100000, close_ok = True\<rparr>, s_rename = (\<lambda>_ _. True), s_send_dir = ''/send'', s_now = 0\<rparr>"

lemma demo_bad_attachment_loop:
  "q_stmt sql \<noteq> None \<Longrightarrow> fst (bad_attachment_loop demo_server c sql ds rc w) = rc \<and>
   snd (snd (bad_attachment_loop demo_server c sql ds rc w)) = w"
proof (induction ds arbitrary: sql)
  case (Cons digest ds)
  let ?sql2 = "bind_len SNull TYPE_LONGLONG 8 (p_bind_init (bind (SStr digest) TYPE_STRING (p_bind_init sql)))"
  have q: "q_stmt ?sql2 \<noteq> None" using Cons.prems by (simp add: bind_len_def p_bind_init_def)
  have "bad_attachment_loop demo_server c sql (digest # ds) rc w = bad_attachment_loop demo_server c ?sql2 ds rc w"
    using Cons.prems by (auto simp: bind_len_def p_bind_init_def p_exec_stmt_def p_store_results_def p_fetch_results_def
        p_free_results_def fetched_int_def demo_server_def Let_def)
  then show ?case using Cons.IH [OF q] by simp
qed simp

lemma demo_attachments: "has_known_bad_attachment demo_server c ds w = (False, w)"
proof (cases "ds = []")
  case False
  define stmt where "stmt = ''SELECT counter FROM attach_digest WHERE digest=?''"
  obtain sql where p: "prepare_sql_statement demo_server c stmt w = (0, sql, w)" "q_stmt sql \<noteq> None"
    by (simp add: prepare_sql_statement_def demo_server_def)
  obtain rc q v where l: "bad_attachment_loop demo_server c sql ds False w = (rc, q, v)" by (metis surj_pair)
  have "rc = False" "v = w" using demo_bad_attachment_loop [OF p(2), of c ds False w] unfolding l by simp_all
  moreover have "close_prepared_statement demo_server q w = w"
    by (simp add: close_prepared_statement_def demo_server_def split: option.split)
  ultimately show ?thesis using False p(1) l unfolding stmt_def by (simp add: has_known_bad_attachment_def)
qed (simp add: has_known_bad_attachment_def)

lemma demo_history: "write_history_to_sql demo_server c sd st now w = w"
  by (simp add: write_history_to_sql_def prepare_sql_statement_def p_exec_stmt_def close_prepared_statement_def
      demo_server_def Let_def case_prod_beta split: option.split)

text \<open>A message of three hundred kilobytes is not looked at by the filter: it is delivered.\<close>

abbreviation demo_files :: file_system where
  "demo_files \<equiv> [''m'' \<mapsto> ''A: b'' @ [LF, LF] @ ''Hello'']"

lemma demo_files_headers:
  "find_headers_end (cstr (''A: b'' @ [LF] @ [LF] @ ''Hello'' @ [NUL])) = Some (length ''A: b'')"
  "cut_at LF ''A: b'' = [''A: b'']"
  "lines_text (other_headers (cfg_kospam_header_field (default_config [])) False [''A: b'']) = ''A: b'' @ [LF]"
proof -
  show "find_headers_end (cstr (''A: b'' @ [LF] @ [LF] @ ''Hello'' @ [NUL])) = Some (length ''A: b'')" by code_simp
  show "cut_at LF ''A: b'' = [''A: b'']" by (rule cut_at_no_occurrence) simp
qed (simp add: lines_text_def default_config_def)

lemma demo_parsed:
  "\<exists>st m' st2 m2. parse_message (\<lambda>_. True) True no_libraries (default_config []) (Some (''A: b'' @ [LF, LF] @ ''Hello'')) init_state empty_message =
     Some (0, st, m') \<and> post_parse st m' (default_config []) = Some (0, st2, m2) \<and>
     ps_training_request st2 = 0 \<and> \<not> ps_trapped st2 \<and> ps_n_token st2 \<le> 3"
proof -
  let ?cfg = "default_config []"
  obtain b where b: "parse_eml_buffer no_libraries ?cfg small_message 0 empty_message =
      Some (0, b, empty_message\<lparr>m_body := ''Hello''\<rparr>)"
    using small_message_parsed by blast
  have r: "read_file (\<lambda>_. True) True (Some (''A: b'' @ [LF, LF] @ ''Hello'')) = Some small_message"
    by (simp add: read_file_def)
  let ?cs = "[''H'', ''e'', ''l'', ''l'', ''o'']"
  have c: "m_body (empty_message\<lparr>m_body := ''Hello''\<rparr>) = concat ?cs" "\<forall>s\<in>set ?cs. complete s"
    by (simp_all add: complete_def char_len_def)
  have w: "join SPACE (words_of (concat (map lower ?cs))) = ''hello''" by code_simp
  let ?m = "empty_message\<lparr>m_body := ''hello''\<rparr>"
  obtain st where st: "parse_message (\<lambda>_. True) True no_libraries ?cfg (Some (''A: b'' @ [LF, LF] @ ''Hello'')) init_state empty_message = Some (0, st, ?m)"
    "ps_token_hash st = inithash" "ps_training_request st = 0" "\<not> ps_trapped st"
    using parse_message_run [OF r b c, of init_state empty_message] unfolding w by auto
  have "cut_at SPACE ''hello'' = [''hello'']" by (rule cut_at_no_occurrence) simp
  then have m: "clean_message ?m" "recipients ?m = []"
    by (simp_all add: clean_message_def empty_message_def received_fields_def recipients_def)
  have "length (word_tokens ?cfg [] ''hello'') \<le> 1" by code_simp
  then have n: "counted_tokens ?cfg ?m \<le> 3" by (simp add: counted_tokens_def empty_message_def from_urls_def)
  have "wf_tab (ps_token_hash st)" by (simp add: st(2))
  from post_parse_run [OF m(1) this, of ?cfg] obtain st2 m2 where
    "post_parse st ?m ?cfg = Some (0, st2, m2)" "ps_n_token st2 = int (counted_tokens ?cfg ?m)"
    "ps_training_request st2 = (if \<exists>v\<in>set (recipients ?m). asks_training v then 1 else ps_training_request st)"
    "ps_trapped st2 = ((\<exists>v\<in>set (recipients ?m). traps ?cfg v) \<or> ps_trapped st)"
    by (elim exE conjE)
  then show ?thesis using st m(2) n by (intro exI conjI) (assumption | simp)+
qed

lemma demo_decision:
  assumes "ps_training_request st = 0" "ps_n_token st \<le> 3" "sd_mynetwork sd = 0" "sd_blackhole sd = 0"
  shows "\<exists>sd'. check_spam demo_server (\<lambda>_. True) regexec sd conn st [] (default_config []) (demo_world (\<lambda>_. None)) =
    Some (MESSAGE_OK, sd', st, demo_world (\<lambda>_. None))"
proof -
  have "run_statistical_check demo_server (\<lambda>_. True) sd1 st conn (default_config []) (demo_world (\<lambda>_. None)) =
      Some (DEFAULT_SPAMICITY, sd1\<lparr>sd_nham := 0, sd_nspam := 0\<rparr>, st, demo_world (\<lambda>_. None))" for sd1
    by (simp add: run_statistical_check_def demo_no_counters Let_def)
  then have "\<exists>sd'. check_spam_content demo_server (\<lambda>_. True) sd1 conn st (default_config []) (demo_world (\<lambda>_. None)) =
      Some (sd', st, demo_world (\<lambda>_. None))" if "sd_blackhole sd1 = 0" for sd1
    using assms(2) that by (simp add: check_spam_content_def Let_def)
  from this [of "sd\<lparr>sd_spaminess := DEFAULT_SPAMICITY, sd_spaminessbuf := watermark_line sd, sd_trapped_client := 0\<rparr>"]
  show ?thesis using assms by (auto simp: check_spam_def Let_def demo_lists demo_minefield)
qed

lemma demo_processed:
  assumes "fs ''m'' = Some (''A: b'' @ [LF, LF] @ ''Hello'')"
  shows "\<exists>r. process_email demo_site (default_config []) ''m'' 0 sz (init_state, empty_message) fs (demo_world (\<lambda>_. None)) = Some r \<and>
     ps_training_request (hd_state r) = 0 \<and> hd_code r = MESSAGE_OK"
proof -
  let ?sd0 = "init_session_data\<lparr>sd_tot_len := sz, sd_ttmpfile := snprintf_s (SMALLBUFSIZE - 1) ''m''\<rparr>"
  let ?w = "demo_world (\<lambda>_. None)"
  obtain st m' st2 m2 where p: "parse_message (\<lambda>_. True) True no_libraries (default_config []) (Some (''A: b'' @ [LF, LF] @ ''Hello'')) init_state empty_message = Some (0, st, m')"
    "post_parse st m' (default_config []) = Some (0, st2, m2)" "ps_training_request st2 = 0" "\<not> ps_trapped st2" "ps_n_token st2 \<le> 3"
    using demo_parsed by (elim exE conjE)
  have sd0: "sd_mynetwork ?sd0 = 0" "sd_blackhole ?sd0 = 0" "sd_ttmpfile ?sd0 = ''m''"
    by (simp_all add: init_session_data_def snprintf_s_def)
  obtain sd2 where c: "check_spam demo_server (\<lambda>_. True) (=) ?sd0 0 st2 [] (default_config []) ?w = Some (MESSAGE_OK, sd2, st2, ?w)"
    using demo_decision [OF p(3,5) sd0(1,2)] by blast
  then have d: "sd_ttmpfile sd2 = ''m''" "length (sd_spaminessbuf sd2) < MAXBUFSIZE"
    using check_spam_decided [OF c] sd0(3) by (simp_all add: decided_on_def)
  have net: "mark_mynetwork (default_config []) st2 sd = sd" for sd by (simp add: mark_mynetwork_def default_config_def)
  have "\<exists>fs1. fix_message_file (\<lambda>_. True) True \<lparr>can_open = True, room = 100000, close_ok = True\<rparr> (sd2\<lparr>sd_status := x\<rparr>) (default_config []) fs = Some (0, fs1)" for x
    using fix_message_file_headers [of fs "sd2\<lparr>sd_status := x\<rparr>" "''A: b''" "[LF]" "''Hello''" "\<lambda>_. True" "\<lparr>can_open = True, room = 100000, close_ok = True\<rparr>"
        "default_config []"] d demo_files_headers(1,2) assms by auto
  then obtain q where f: "finish_message demo_site (default_config []) ''m'' 0 False \<lparr>hd_code = MESSAGE_OK, hd_sdata = sd2, hd_state = st2,
      hd_counters = no_counters, hd_files = fs, hd_world = ?w\<rparr> = Some q" "hd_state q = st2" "hd_code q = MESSAGE_OK"
    using p(3) by (fastforce simp: finish_message_def demo_site_def demo_history Let_def case_prod_beta bind_eq_Some_conv)
  have "\<exists>r. process_email demo_site (default_config []) ''m'' 0 sz (init_state, empty_message) fs ?w = Some r \<and>
      hd_state r = (hd_state q)\<lparr>ps_token_hash := clearhash (ps_token_hash (hd_state q))\<rparr> \<and> hd_code r = hd_code q"
    using f(1) p(1,2,4) c assms
    by (simp add: process_email_def demo_site_def demo_attachments net store_trapped_def Let_def)
  then show ?thesis using f(2,3) p(3) by auto
qed

lemma process_email_outcome_witness:
  "\<exists>r. process_email demo_site (default_config []) ''m'' 0 300000 (init_state, empty_message) demo_files (demo_world (\<lambda>_. None)) = Some r \<and>
     hd_files r ''m'' = None \<and> hd_files r ''/send/m'' = Some (''A: b'' @ [LF] @ sd_spaminessbuf (hd_sdata r) @ [LF, LF] @ ''Hello'')"
proof -
  obtain r where r: "process_email demo_site (default_config []) ''m'' 0 300000 (init_state, empty_message) demo_files (demo_world (\<lambda>_. None)) = Some r"
    "ps_training_request (hd_state r) = 0" "hd_code r = MESSAGE_OK"
    using demo_processed [of demo_files 300000] by auto
  have "hd_files r = (if ps_training_request (hd_state r) \<noteq> 0 \<or> hd_code r \<noteq> MESSAGE_OK then demo_files(''m'' := None)
     else (demo_files(''m'' @ ''.tmp'' := None, ''m'' := None))(s_send_dir demo_site @ ''/'' @ ''m'' \<mapsto>
       lines_text (other_headers (cfg_kospam_header_field (default_config [])) False (cut_at LF ''A: b'')) @
         sd_spaminessbuf (hd_sdata r) @ LF # tl ([LF] @ [LF]) @ ''Hello''))"
    by (rule process_email_outcome [OF r(1)]) (use demo_files_headers(1,2) in \<open>simp_all add: demo_site_def\<close>)
  then show ?thesis using r unfolding demo_files_headers by (simp add: demo_site_def)
qed

section \<open>The counters and the history\<close>

lemma count_message_counters:
  assumes "count_message malware cfg p (no_counters\<lparr>c_minefield := m\<rparr>) = (status, c)"
  shows "c_rcvd c = 0 \<and> c_minefield c = m \<and> c_zombie c = 0 \<and> c_fp c = 0 \<and> c_fn c = 0 \<and>
    c_mynetwork c = 0 \<and> c_size c = 0 \<and> (status = S_VIRUS \<longleftrightarrow> malware) \<and> c_virus c = of_bool malware \<and>
    c_spam c = of_bool (\<not> malware \<and> p \<ge> cfg_spam_overall_limit cfg) \<and>
    c_ham c = of_bool (\<not> malware \<and> p < cfg_spam_overall_limit cfg) \<and>
    c_possible_spam c = of_bool (\<not> malware \<and> p < cfg_spam_overall_limit cfg \<and> p > cfg_possible_spam_limit cfg) \<and>
    c_unsure c = of_bool (\<not> malware \<and> p < cfg_spam_overall_limit cfg \<and> p < cfg_possible_spam_limit cfg \<and> p > cfg_max_ham_spamicity cfg)"
  using assms
  by (cases malware; cases "p \<ge> cfg_spam_overall_limit cfg"; cases "p > cfg_possible_spam_limit cfg";
      cases "p < cfg_possible_spam_limit cfg"; cases "p > cfg_max_ham_spamicity cfg")
    (auto simp: count_message_def no_counters_def Let_def not_le not_less)

text \<open>
  C34: Every message counts once as received, and, unless it asks for training, exactly once as malware,
  spam or ham, by its digest and its spaminess; possible spam and unsure are among the ham and exclude each
  other; a trapped message counts for the minefield.  The other counters are never touched: messages of
  zombies, of our own network and the size are not counted.
\<close>

theorem process_email_counters:
  assumes "process_email s cfg filename conn sz junk fs w = Some r"
  shows "let c = hd_counters r; p = sd_spaminess (hd_sdata r); malware = (sd_status (hd_sdata r) = S_VIRUS)
    in c_rcvd c = 1 \<and> c_minefield c = of_bool (ps_trapped (hd_state r)) \<and>
       (if ps_training_request (hd_state r) \<noteq> 0 then c_virus c = 0 \<and> c_spam c = 0 \<and> c_ham c = 0 \<and> c_possible_spam c = 0 \<and> c_unsure c = 0
        else c_virus c = of_bool malware \<and>
          c_spam c = of_bool (\<not> malware \<and> p \<ge> cfg_spam_overall_limit cfg) \<and>
          c_ham c = of_bool (\<not> malware \<and> p < cfg_spam_overall_limit cfg) \<and>
          c_possible_spam c = of_bool (\<not> malware \<and> p < cfg_spam_overall_limit cfg \<and> p > cfg_possible_spam_limit cfg) \<and>
          c_unsure c = of_bool (\<not> malware \<and> p < cfg_spam_overall_limit cfg \<and> p < cfg_possible_spam_limit cfg \<and> p > cfg_max_ham_spamicity cfg)) \<and>
       c_zombie c = 0 \<and> c_fp c = 0 \<and> c_fn c = 0 \<and> c_mynetwork c = 0 \<and> c_size c = 0 \<and>
       (\<exists>v. hd_world r = update_counters (s_my s) conn c v)"
proof (rule process_email_cases [OF assms])
  fix st2 digests malware w1 c1 w2 code sd2 st3 w3 q
  assume t: "store_trapped s conn st2 w1 = (c1, w2)"
    and d: "decided_on (init_session_data\<lparr>sd_tot_len := sz, sd_ttmpfile := snprintf_s (SMALLBUFSIZE - 1) filename\<rparr>) st2 sd2 st3"
    and f: "finish_message s cfg filename conn malware
      \<lparr>hd_code = code, hd_sdata = sd2, hd_state = st3, hd_counters = c1, hd_files = fs, hd_world = w3\<rparr> = Some q"
    and r: "hd_sdata r = hd_sdata q" "hd_state r = (hd_state q)\<lparr>ps_token_hash := clearhash (ps_token_hash (hd_state q))\<rparr>"
      "hd_counters r = (hd_counters q)\<lparr>c_rcvd := c_rcvd (hd_counters q) + 1\<rparr>"
      "hd_world r = update_counters (s_my s) conn (hd_counters r) (hd_world q)"
  note fin = finish_message_cases [OF f]
  have st: "sd_status sd2 = 0" "ps_trapped st3 = ps_trapped st2" using d by (simp_all add: decided_on_def init_session_data_def)
  have c1: "c1 = no_counters\<lparr>c_minefield := of_bool (ps_trapped st2)\<rparr>"
    using t by (auto simp: store_trapped_def no_counters_def split: if_splits)
  have q: "hd_state q = st3" using fin by simp
  show ?thesis
  proof (cases "ps_training_request st3 \<noteq> 0")
    case True
    then have "hd_counters q = c1" "hd_sdata q = sd2" using fin by simp_all
    then show ?thesis using True r q st c1 by (auto simp: no_counters_def Let_def)
  next
    case False
    obtain status c where c: "count_message malware cfg (sd_spaminess sd2) c1 = (status, c)" by (rule prod.exhaust)
    have "hd_sdata q = sd2\<lparr>sd_status := status\<rparr>" "hd_counters q = c" using fin False c by simp_all
    then have rr: "sd_status (hd_sdata r) = status" "sd_spaminess (hd_sdata r) = sd_spaminess sd2" "hd_counters r = c\<lparr>c_rcvd := c_rcvd c + 1\<rparr>"
        "ps_training_request (hd_state r) = 0" "ps_trapped (hd_state r) = ps_trapped st2"
      using False r q st by simp_all
    have "\<exists>v. hd_world r = update_counters (s_my s) conn (hd_counters r) v" using r by blast
    moreover have "c_rcvd c = 0 \<and> c_minefield c = of_bool (ps_trapped st2) \<and> c_zombie c = 0 \<and> c_fp c = 0 \<and> c_fn c = 0 \<and>
        c_mynetwork c = 0 \<and> c_size c = 0 \<and> (status = S_VIRUS \<longleftrightarrow> malware) \<and> c_virus c = of_bool malware \<and>
        c_spam c = of_bool (\<not> malware \<and> sd_spaminess sd2 \<ge> cfg_spam_overall_limit cfg) \<and>
        c_ham c = of_bool (\<not> malware \<and> sd_spaminess sd2 < cfg_spam_overall_limit cfg) \<and>
        c_possible_spam c = of_bool (\<not> malware \<and> sd_spaminess sd2 < cfg_spam_overall_limit cfg \<and> sd_spaminess sd2 > cfg_possible_spam_limit cfg) \<and>
        c_unsure c = of_bool (\<not> malware \<and> sd_spaminess sd2 < cfg_spam_overall_limit cfg \<and> sd_spaminess sd2 < cfg_possible_spam_limit cfg \<and>
          sd_spaminess sd2 > cfg_max_ham_spamicity cfg)"
      by (rule count_message_counters [OF c [unfolded c1]])
    ultimately show ?thesis unfolding Let_def rr by simp
  qed
qed

lemma process_email_counters_witness:
  "\<exists>r. process_email demo_site (default_config []) ''m'' 0 300000 (init_state, empty_message) demo_files (demo_world (\<lambda>_. None)) = Some r \<and>
     c_rcvd (hd_counters r) = 1 \<and> c_virus (hd_counters r) + c_spam (hd_counters r) + c_ham (hd_counters r) = 1"
proof -
  obtain r where r: "process_email demo_site (default_config []) ''m'' 0 300000 (init_state, empty_message) demo_files (demo_world (\<lambda>_. None)) = Some r"
    "ps_training_request (hd_state r) = 0" using demo_processed [of demo_files 300000] by auto
  show ?thesis using process_email_counters [OF r(1)] r by (intro exI [of _ r]) (auto simp: Let_def)
qed

text \<open>
  C35: The history is written before the verdict is known to the session: the column for spam of every
  message is 0, also for a message that is counted as spam or malware.
\<close>

theorem history_loses_verdict:
  assumes "process_email s cfg filename conn sz junk fs w = Some r" "ps_training_request (hd_state r) = 0"
  shows "\<exists>sd st v. hd_world r = update_counters (s_my s) conn (hd_counters r) (write_history_to_sql (s_my s) conn sd st (s_now s) v) \<and>
      history_values sd st (s_now s) ! 2 = (TYPE_LONG, SInt 0) \<and> sd_ttmpfile sd = snprintf_s (SMALLBUFSIZE - 1) filename \<and>
      hd_sdata r = sd\<lparr>sd_status := sd_status (hd_sdata r)\<rparr>"
proof (rule process_email_cases [OF assms(1)])
  fix st2 digests malware w1 c1 w2 code sd2 st3 w3 q
  assume d: "decided_on (init_session_data\<lparr>sd_tot_len := sz, sd_ttmpfile := snprintf_s (SMALLBUFSIZE - 1) filename\<rparr>) st2 sd2 st3"
    and f: "finish_message s cfg filename conn malware
      \<lparr>hd_code = code, hd_sdata = sd2, hd_state = st3, hd_counters = c1, hd_files = fs, hd_world = w3\<rparr> = Some q"
    and r: "hd_sdata r = hd_sdata q" "hd_state r = (hd_state q)\<lparr>ps_token_hash := clearhash (ps_token_hash (hd_state q))\<rparr>"
      "hd_world r = update_counters (s_my s) conn (hd_counters r) (hd_world q)"
  note fin = finish_message_cases [OF f]
  have "ps_training_request st3 = 0" using assms(2) r(2) fin by simp
  then have "\<exists>status. hd_sdata q = sd2\<lparr>sd_status := status\<rparr>" "hd_world q = write_history_to_sql (s_my s) conn sd2 st3 (s_now s) w3"
    using fin by (auto split: prod.splits)
  moreover have "sd_status sd2 = 0" "sd_ttmpfile sd2 = snprintf_s (SMALLBUFSIZE - 1) filename"
    using d by (simp_all add: decided_on_def init_session_data_def)
  ultimately show ?thesis using r by (intro exI [of _ sd2] exI [of _ st3] exI [of _ w3]) (auto simp: history_values_def)
qed

lemma history_loses_verdict_witness:
  "\<exists>r sd st v. process_email demo_site (default_config []) ''m'' 0 300000 (init_state, empty_message) demo_files (demo_world (\<lambda>_. None)) = Some r \<and>
     hd_world r = update_counters demo_server 0 (hd_counters r) (write_history_to_sql demo_server 0 sd st 0 v) \<and>
     history_values sd st 0 ! 2 = (TYPE_LONG, SInt 0)"
proof -
  obtain r where r: "process_email demo_site (default_config []) ''m'' 0 300000 (init_state, empty_message) demo_files (demo_world (\<lambda>_. None)) = Some r"
    "ps_training_request (hd_state r) = 0" using demo_processed [of demo_files 300000] by auto
  then show ?thesis using history_loses_verdict [OF r] by (auto simp: demo_site_def)
qed

section \<open>The queue is emptied\<close>

lemma fix_message_file_frame:
  "fix_message_file malloc readable d sd cfg fs = Some (rc, fs') \<Longrightarrow> p \<noteq> sd_ttmpfile sd \<Longrightarrow>
   p \<noteq> snprintf_s (SMALLBUFSIZE - 1) (sd_ttmpfile sd @ ''.tmp'') \<Longrightarrow> fs' p = fs p"
  by (auto simp: fix_message_file_def write_buffers_to_file_def rename_file_def Let_def split: option.splits if_splits)

lemma process_email_frame:
  assumes "process_email s cfg filename conn sz junk fs w = Some r" "length filename < 200" "length (s_send_dir s) < 200"
    and "p \<noteq> filename" "p \<noteq> filename @ ''.tmp''" "p \<noteq> s_send_dir s @ ''/'' @ filename"
  shows "hd_files r p = fs p"
proof (rule process_email_cases [OF assms(1)])
  fix st2 digests malware w1 c1 w2 code sd2 st3 w3 q
  assume d: "decided_on (init_session_data\<lparr>sd_tot_len := sz, sd_ttmpfile := snprintf_s (SMALLBUFSIZE - 1) filename\<rparr>) st2 sd2 st3"
    and f: "finish_message s cfg filename conn malware
      \<lparr>hd_code = code, hd_sdata = sd2, hd_state = st3, hd_counters = c1, hd_files = fs, hd_world = w3\<rparr> = Some q"
    and r: "hd_files r = hd_files q"
  note fin = finish_message_cases [OF f]
  have n: "sd_ttmpfile sd2 = filename" using d assms(2) by (simp add: decided_on_def snprintf_s_def)
  have t: "snprintf_s (SMALLBUFSIZE - 1) (s_send_dir s @ ''/'' @ filename) = s_send_dir s @ ''/'' @ filename"
    "snprintf_s (SMALLBUFSIZE - 1) (filename @ ''.tmp'') = filename @ ''.tmp''"
    using assms(2,3) by (simp_all add: snprintf_s_def)
  show ?thesis
  proof (cases "ps_training_request st3 \<noteq> 0 \<or> code \<noteq> MESSAGE_OK")
    case True
    then show ?thesis using fin r assms(4) by (auto split: if_splits prod.splits)
  next
    case False
    then obtain rc fs1 status where "fix_message_file (s_malloc s) (s_readable s) (s_disk s) (sd2\<lparr>sd_status := status\<rparr>) cfg fs = Some (rc, fs1)"
      "hd_files q = move_file (s_rename s) filename (s_send_dir s @ ''/'' @ filename) fs1"
      using fin n t(1) by (auto split: prod.splits)
    then show ?thesis
      using fix_message_file_frame [of _ _ _ "sd2\<lparr>sd_status := status\<rparr>" _ _ _ _ p] assms(4-6) n t(2) r
      by (auto simp: move_file_def rename_file_def split: option.split)
  qed
qed

lemma slash_path_inject:
  "CHR ''/'' \<notin> set x \<Longrightarrow> CHR ''/'' \<notin> set y \<Longrightarrow> a @ ''/'' @ x = b @ ''/'' @ y \<Longrightarrow> a = b \<and> x = y"
proof (induction a arbitrary: b)
  case Nil
  then show ?case by (cases b) auto
next
  case (Cons c a)
  then show ?case by (cases b) auto
qed

abbreviation queued :: "string \<Rightarrow> string \<Rightarrow> string" where
  "queued directory name \<equiv> directory @ ''/'' @ name"

lemma process_entries_run:
  assumes "\<forall>d\<in>set names. CHR ''/'' \<notin> set d \<and> length d < 200" "length directory < 200" "length (s_send_dir s) < 200"
    and "s_send_dir s \<noteq> directory" "\<forall>d. s_rename s (queued directory d) d"
  shows "process_entries s cfg directory conn junk names n fs w = Some (n', fs', w') \<Longrightarrow> distinct names \<Longrightarrow>
    n' = n + int (length (filter (\<lambda>d. d \<noteq> ''.'' \<and> d \<noteq> ''..'' \<and> fs (queued directory d) \<noteq> None) names)) \<and>
    (\<forall>x. CHR ''/'' \<notin> set x \<longrightarrow> fs' (queued directory x) =
       (if x \<in> set names \<and> x \<noteq> ''.'' \<and> x \<noteq> ''..'' then None else fs (queued directory x)))"
  using assms(1)
proof (induction names arbitrary: n fs w)
  case (Cons d names)
  have d: "CHR ''/'' \<notin> set d" "length d < 200" "d \<notin> set names" using Cons.prems(2,3) by auto
  have ds: "distinct names" "\<forall>d\<in>set names. CHR ''/'' \<notin> set d \<and> length d < 200" using Cons.prems(2,3) by auto
  have fname: "snprintf_s (SMALLBUFSIZE - 1) (queued directory d) = queued directory d"
    using d(2) assms(2) by (simp add: snprintf_s_def)
  show ?case
  proof (cases "d = ''.'' \<or> d = ''..''")
    case True
    then have "process_entries s cfg directory conn junk names n fs w = Some (n', fs', w')" using Cons.prems(1) by auto
    from Cons.IH [OF this ds] True d(3) show ?thesis by auto
  next
    case False
    show ?thesis
    proof (cases "fs (queued directory d)")
      case None
      then have "process_entries s cfg directory conn junk names n fs w = Some (n', fs', w')"
        using Cons.prems(1) False unfolding process_entries.simps Let_def fname by simp
      from Cons.IH [OF this ds] None d(3) show ?thesis by auto
    next
      case (Some content)
      let ?fs1 = "move_file (s_rename s) (queued directory d) d fs"
      obtain r where r: "process_email s cfg d conn (to_int32 (int (length content))) (junk d) ?fs1 w = Some r"
        "process_entries s cfg directory conn junk names (n + 1) (hd_files r) (hd_world r) = Some (n', fs', w')"
        using Cons.prems(1) False Some unfolding process_entries.simps Let_def fname by (auto simp: bind_eq_Some_conv)
      have fs1: "?fs1 = (fs(queued directory d := None))(d \<mapsto> content)"
        using assms(5) Some by (simp add: move_file_def rename_file_def)
      have q: "hd_files r (queued directory x) = (if x = d then None else fs (queued directory x))" if x: "CHR ''/'' \<notin> set x" for x
      proof -
        have sl: "CHR ''/'' \<in> set (queued directory x)" "CHR ''/'' \<notin> set (d @ ''.tmp'')" using d(1) by simp_all
        then have ne: "queued directory x \<noteq> d" "queued directory x \<noteq> d @ ''.tmp''" using d(1) by metis+
        have "queued directory x \<noteq> s_send_dir s @ ''/'' @ d" using slash_path_inject [OF x d(1)] assms(4) by metis
        from process_email_frame [OF r(1) d(2) assms(3) ne this]
        have "hd_files r (queued directory x) = ((fs(queued directory d := None))(d \<mapsto> content)) (queued directory x)" unfolding fs1 .
        then show ?thesis using ne(1) by (cases "x = d") simp_all
      qed
      have "filter (\<lambda>e. e \<noteq> ''.'' \<and> e \<noteq> ''..'' \<and> hd_files r (queued directory e) \<noteq> None) names =
          filter (\<lambda>e. e \<noteq> ''.'' \<and> e \<noteq> ''..'' \<and> fs (queued directory e) \<noteq> None) names"
        using q ds(2) d(3) by (intro filter_cong) auto
      with Cons.IH [OF r(2) ds] q False Some show ?thesis by auto
    qed
  qed
qed simp

text \<open>
  C36: One pass over the queue of a worker handles every regular file in it exactly once: the result is their
  number, none of them is left, and a file that came while the directory was read stays for the next pass.
\<close>

theorem process_dir_empties_queue:
  assumes "process_dir s cfg directory conn junk (Some names) fs w = Some (n, fs', w')" "distinct names"
    and "\<forall>d\<in>set names. CHR ''/'' \<notin> set d \<and> length d < 200" "length directory < 200" "length (s_send_dir s) < 200"
    and "s_send_dir s \<noteq> directory" "\<forall>d. s_rename s (queued directory d) d"
  shows "n = int (card {d \<in> set names. d \<noteq> ''.'' \<and> d \<noteq> ''..'' \<and> fs (queued directory d) \<noteq> None}) \<and>
    (\<forall>x. CHR ''/'' \<notin> set x \<longrightarrow> fs' (queued directory x) =
       (if x \<in> set names \<and> x \<noteq> ''.'' \<and> x \<noteq> ''..'' then None else fs (queued directory x)))"
proof -
  have "process_entries s cfg directory conn junk names 0 fs w = Some (n, fs', w')"
    using assms(1) by (simp add: process_dir_def)
  from process_entries_run [OF assms(3-7) this assms(2)] show ?thesis
    using distinct_length_filter [OF assms(2)] by (auto simp: Int_def conj_commute conj_left_commute)
qed

lemma process_dir_empties_queue_witness:
  "\<exists>fs' w'. process_dir demo_site (default_config []) ''0'' 0 (\<lambda>_. (init_state, empty_message)) (Some [''.'', ''..'', ''m''])
     [''0/m'' \<mapsto> ''A: b'' @ [LF, LF] @ ''Hello'', ''0/new'' \<mapsto> ''x''] (demo_world (\<lambda>_. None)) = Some (1, fs', w') \<and>
     fs' ''0/m'' = None \<and> fs' ''0/new'' = Some ''x''"
proof -
  let ?fs = "[''0/m'' \<mapsto> ''A: b'' @ [LF, LF] @ ''Hello'', ''0/new'' \<mapsto> ''x''] :: file_system"
  have "s_rename demo_site a b" for a b by (simp add: demo_site_def)
  then have "move_file (s_rename demo_site) ''0/m'' ''m'' ?fs ''m'' = Some (''A: b'' @ [LF, LF] @ ''Hello'')"
    by (simp add: move_file_def rename_file_def)
  then have "\<exists>r. process_email demo_site (default_config []) ''m'' 0 (to_int32 11) (init_state, empty_message)
      (move_file (s_rename demo_site) ''0/m'' ''m'' ?fs) (demo_world (\<lambda>_. None)) = Some r"
    using demo_processed [of "move_file (s_rename demo_site) ''0/m'' ''m'' ?fs" "to_int32 11"] by blast
  then obtain n fs' w' where
    p: "process_dir demo_site (default_config []) ''0'' 0 (\<lambda>_. (init_state, empty_message)) (Some [''.'', ''..'', ''m''])
       ?fs (demo_world (\<lambda>_. None)) = Some (n, fs', w')"
    by (auto simp: process_dir_def snprintf_s_def)
  have r: "n = int (card {d \<in> set [''.'', ''..'', ''m'']. d \<noteq> ''.'' \<and> d \<noteq> ''..'' \<and> ?fs (queued ''0'' d) \<noteq> None}) \<and>
    (\<forall>x. CHR ''/'' \<notin> set x \<longrightarrow> fs' (queued ''0'' x) =
       (if x \<in> set [''.'', ''..'', ''m''] \<and> x \<noteq> ''.'' \<and> x \<noteq> ''..'' then None else ?fs (queued ''0'' x)))"
    by (rule process_dir_empties_queue [OF p]) (simp_all add: demo_site_def)
  then have "fs' (queued ''0'' ''new'') = Some ''x''" "fs' (queued ''0'' ''m'') = None" by simp_all
  moreover have "{d \<in> set [''.'', ''..'', ''m'']. d \<noteq> ''.'' \<and> d \<noteq> ''..'' \<and> ?fs (queued ''0'' d) \<noteq> None} = {''m''}" by auto
  then have "n = 1" using r by simp
  ultimately show ?thesis using p by auto
qed

end
