(* ===== verification/Tools.thy ===== *)
theory Tools
  imports Mailer Startup
begin

text \<open>
  The command line tools: \<open>src/splitmbox.c\<close>, which cuts a mailbox into messages, and \<open>src/spamdrop.c\<close>, which
  scores one message or trains the table with it.  The options are given as \<open>getopt\<close> returns them, one by
  one; messages on the terminal are left out, except for the tokens \<open>spamdrop\<close> lists.
\<close>

section \<open>splitmbox.c\<close>

text \<open>The state of the loop: the number of messages, the file that is written to, and the files.\<close>

type_synonym mbox_state = "nat \<times> string option \<times> file_system"

definition mbox_line :: "(string \<Rightarrow> bool) \<Rightarrow> string \<Rightarrow> mbox_state \<Rightarrow> string \<Rightarrow> mbox_state" where
  "mbox_line writable basename st line =
     (case st of (tot_msgs, f, fs) \<Rightarrow>
        let buf = chop_string (cstr line)
        in if strncmp_eq buf ''From '' 5
           then
             let n = tot_msgs + 1;
                 fname = snprintf_s 200 (basename @ ''-'' @ show_nat n)
             in if writable fname then (n, Some fname, fs(fname \<mapsto> [])) else (n, None, fs)
           else (case f of
                   None \<Rightarrow> st
                 | Some name \<Rightarrow> (tot_msgs, f, fs(name := map_option (\<lambda>s. s @ buf @ [CR, LF]) (fs name)))))"

definition splitmbox :: "(string \<Rightarrow> bool) \<Rightarrow> string option \<Rightarrow> string \<Rightarrow> file_system \<Rightarrow> int \<times> file_system" where
  "splitmbox writable mbox basename fs =
     (case mbox of
        None \<Rightarrow> (1, fs)
      | Some s \<Rightarrow>
          (case foldl (mbox_line writable basename) (0, None, fs) (fgets_lines (MAXBUFSIZE - 2) s) of
             (tot_msgs, f, fs') \<Rightarrow> (0, fs')))"

text \<open>A mailbox of messages: the rest of the separator line, and the lines.\<close>

definition mbox_text :: "(string \<times> string list) list \<Rightarrow> string" where
  "mbox_text ms = concat (map (\<lambda>(sep, ls). lines_text ((''From '' @ sep) # ls)) ms)"

definition crlf_text :: "string list \<Rightarrow> string" where
  "crlf_text ls = concat (map (\<lambda>l. l @ [CR, LF]) ls)"

definition mbox_text_line :: "string \<Rightarrow> bool" where
  "mbox_text_line l \<longleftrightarrow> LF \<notin> set l \<and> NUL \<notin> set l \<and> length l < MAXBUFSIZE - 2 \<and> rstrip_newlines l = l"

lemma mbox_line_text:
  assumes "mbox_text_line l"
  shows "fgets_lines (MAXBUFSIZE - 2) (l @ LF # s) = (l @ [LF]) # fgets_lines (MAXBUFSIZE - 2) s"
    and "chop_string (cstr (l @ [LF])) = l"
proof -
  have l: "LF \<notin> set l" "NUL \<notin> set l" "length l < MAXBUFSIZE - 2" "rstrip_newlines l = l"
    using assms by (simp_all add: mbox_text_line_def)
  show "fgets_lines (MAXBUFSIZE - 2) (l @ LF # s) = (l @ [LF]) # fgets_lines (MAXBUFSIZE - 2) s"
    by (rule fgets_lines_Cons [OF l(1,3)])
  have "cstr (l @ [LF]) = l @ [LF]" using l(2) by (simp add: cstr_id)
  moreover have "chop_string (l @ [LF]) = rstrip_newlines l" using l(2) by (simp add: chop_string_rstrip rstrip_newlines_def)
  ultimately show "chop_string (cstr (l @ [LF])) = l" using l(4) by simp
qed

lemma mbox_body:
  assumes "\<forall>l\<in>set ls. mbox_text_line l \<and> \<not> prefix ''From '' l" "fs name = Some s0"
  shows "foldl (mbox_line writable base) (n, Some name, fs) (fgets_lines (MAXBUFSIZE - 2) (lines_text ls @ rest)) =
    foldl (mbox_line writable base) (n, Some name, fs(name \<mapsto> s0 @ crlf_text ls)) (fgets_lines (MAXBUFSIZE - 2) rest)"
  using assms
proof (induction ls arbitrary: fs s0)
  case Nil
  then show ?case by (simp add: lines_text_def crlf_text_def map_upd_triv)
next
  case (Cons l ls)
  have l: "mbox_text_line l" "\<not> strncmp_eq l ''From '' 5"
    using Cons.prems(1) strncmp_field_prefix [of l "''From ''"] by (simp_all add: eval_nat_numeral)
  let ?fs = "fs(name \<mapsto> s0 @ l @ [CR, LF])"
  have "lines_text (l # ls) @ rest = l @ LF # lines_text ls @ rest" by (simp add: lines_text_def)
  then have "foldl (mbox_line writable base) (n, Some name, fs) (fgets_lines (MAXBUFSIZE - 2) (lines_text (l # ls) @ rest)) =
      foldl (mbox_line writable base) (n, Some name, ?fs) (fgets_lines (MAXBUFSIZE - 2) (lines_text ls @ rest))"
    using Cons.prems(2) l(2) by (simp only: mbox_line_text [OF l(1)]) (simp add: mbox_line_def mbox_line_text [OF l(1)])
  also have "\<dots> = foldl (mbox_line writable base) (n, Some name, ?fs(name \<mapsto> (s0 @ l @ [CR, LF]) @ crlf_text ls)) (fgets_lines (MAXBUFSIZE - 2) rest)"
    by (rule Cons.IH) (use Cons.prems(1) in auto)
  moreover have "?fs(name \<mapsto> (s0 @ l @ [CR, LF]) @ crlf_text ls) = fs(name \<mapsto> s0 @ crlf_text (l # ls))"
    by (simp add: crlf_text_def fun_eq_iff)
  ultimately show ?case by (simp only:)
qed

definition mbox_name :: "string \<Rightarrow> nat \<Rightarrow> string" where
  "mbox_name base n = base @ ''-'' @ show_nat n"

text \<open>The files the messages of a mailbox should end up in, from number \<open>k\<close> on.\<close>

primrec number_files :: "string \<Rightarrow> nat \<Rightarrow> (string \<times> string list) list \<Rightarrow> file_system \<Rightarrow> file_system" where
  "number_files base k [] fs = fs"
| "number_files base k (m # ms) fs = number_files base (Suc k) ms (fs(mbox_name base k \<mapsto> crlf_text (snd m)))"

lemma mbox_messages:
  assumes "length base < 150" "\<forall>f. writable f"
  shows "\<forall>(sep, ls)\<in>set ms. mbox_text_line (''From '' @ sep) \<and> (\<forall>l\<in>set ls. mbox_text_line l \<and> \<not> prefix ''From '' l) \<Longrightarrow>
    n + length ms < 10 ^ 9 \<Longrightarrow>
    \<exists>f'. foldl (mbox_line writable base) (n, f, fs) (fgets_lines (MAXBUFSIZE - 2) (mbox_text ms)) =
      (n + length ms, f', number_files base (Suc n) ms fs)"
proof (induction ms arbitrary: n f fs)
  case Nil
  then show ?case by (simp add: mbox_text_def)
next
  case (Cons m ms)
  obtain sep ls where m: "m = (sep, ls)" by (rule prod.exhaust)
  have p: "mbox_text_line (''From '' @ sep)" "\<forall>l\<in>set ls. mbox_text_line l \<and> \<not> prefix ''From '' l"
    using Cons.prems(1) m by auto
  have "length (show_nat (Suc n)) \<le> 9" using Cons.prems(2) by (intro length_show_nat) simp_all
  then have name: "snprintf_s 200 (base @ ''-'' @ show_nat (n + 1)) = mbox_name base (Suc n)"
    using assms(1) by (simp add: snprintf_s_def mbox_name_def)
  let ?fs = "fs(mbox_name base (Suc n) \<mapsto> [])"
  have t: "mbox_text (m # ms) = (''From '' @ sep) @ LF # lines_text ls @ mbox_text ms"
    by (simp add: m mbox_text_def lines_text_def)
  have "strncmp_eq (''From '' @ sep) ''From '' 5" by (simp add: strncmp_eq_def)
  then have "mbox_line writable base (n, f, fs) ((''From '' @ sep) @ [LF]) = (Suc n, Some (mbox_name base (Suc n)), ?fs)"
    using assms(2) unfolding mbox_line_def prod.case Let_def mbox_line_text(2) [OF p(1)] name by simp
  then have "foldl (mbox_line writable base) (n, f, fs) (fgets_lines (MAXBUFSIZE - 2) (mbox_text (m # ms))) =
      foldl (mbox_line writable base) (Suc n, Some (mbox_name base (Suc n)), ?fs) (fgets_lines (MAXBUFSIZE - 2) (lines_text ls @ mbox_text ms))"
    unfolding t mbox_line_text(1) [OF p(1)] foldl_Cons by (rule arg_cong)
  also have "\<dots> = foldl (mbox_line writable base) (Suc n, Some (mbox_name base (Suc n)), ?fs(mbox_name base (Suc n) \<mapsto> [] @ crlf_text ls))
      (fgets_lines (MAXBUFSIZE - 2) (mbox_text ms))"
    by (rule mbox_body [OF p(2)]) simp
  finally have e: "foldl (mbox_line writable base) (n, f, fs) (fgets_lines (MAXBUFSIZE - 2) (mbox_text (m # ms))) =
      foldl (mbox_line writable base) (Suc n, Some (mbox_name base (Suc n)), fs(mbox_name base (Suc n) \<mapsto> crlf_text ls))
      (fgets_lines (MAXBUFSIZE - 2) (mbox_text ms))" by simp
  show ?case
    unfolding e using Cons.IH [of "Suc n" "Some (mbox_name base (Suc n))" "fs(mbox_name base (Suc n) \<mapsto> crlf_text ls)"] Cons.prems m by (simp add: fun_upd_def)
qed

lemma mbox_name_inject [simp]: "mbox_name base i = mbox_name base j \<longleftrightarrow> i = j"
  by (simp add: mbox_name_def)

lemma number_files_other: "\<forall>i. p \<noteq> mbox_name base (k + i) \<Longrightarrow> number_files base k ms fs p = fs p"
proof (induction ms arbitrary: k fs)
  case (Cons m ms)
  have "\<forall>i. p \<noteq> mbox_name base (Suc k + i)" using Cons.prems by (metis add_Suc_right add_Suc)
  moreover have "p \<noteq> mbox_name base k" using Cons.prems by (metis add_0_right)
  ultimately show ?case using Cons.IH [of "Suc k"] by simp
qed simp

lemma number_files_nth:
  "i < length ms \<Longrightarrow> number_files base k ms fs (mbox_name base (k + i)) = Some (crlf_text (snd (ms ! i)))"
proof (induction ms arbitrary: i k fs)
  case (Cons m ms)
  show ?case
  proof (cases i)
    case 0
    then show ?thesis
      using number_files_other [of "mbox_name base k" base "Suc k" ms "fs(mbox_name base k \<mapsto> crlf_text (snd m))"] by simp
  next
    case (Suc j)
    then show ?thesis using Cons.IH [of j "Suc k"] Cons.prems by simp
  qed
qed simp

text \<open>
  C40: Cutting a mailbox gives its messages back: the file with number \<open>i\<close> holds the lines of the
  \<open>i\<close>-th message with line ends of two bytes, and no other file is touched, as long as no line starts
  with \<open>From \<close>, has 8190 bytes or more, or ends in a carriage return.
\<close>

theorem splitmbox_round_trip:
  assumes "\<forall>(sep, ls)\<in>set ms. mbox_text_line (''From '' @ sep) \<and> (\<forall>l\<in>set ls. mbox_text_line l \<and> \<not> prefix ''From '' l)"
    and "length base < 150" "length ms < 10 ^ 8" "\<forall>f. writable f" "splitmbox writable (Some (mbox_text ms)) base fs = (rc, fs')"
  shows "rc = 0 \<and> (\<forall>i<length ms. fs' (mbox_name base (Suc i)) = Some (crlf_text (snd (ms ! i)))) \<and>
    (\<forall>p. (\<forall>i. p \<noteq> mbox_name base (Suc i)) \<longrightarrow> fs' p = fs p)"
proof -
  have "0 + length ms < 10 ^ 9" using assms(3) by simp
  from mbox_messages [OF assms(2,4,1) this] obtain f' where
    "foldl (mbox_line writable base) (0, None, fs) (fgets_lines (MAXBUFSIZE - 2) (mbox_text ms)) =
      (0 + length ms, f', number_files base (Suc 0) ms fs)"
    by blast
  then have r: "rc = 0" "fs' = number_files base (Suc 0) ms fs"
    using assms(5) by (simp_all add: splitmbox_def)
  have "fs' (mbox_name base (Suc i)) = Some (crlf_text (snd (ms ! i)))" if "i < length ms" for i
    using number_files_nth [OF that, where k = "Suc 0"] unfolding r(2) by simp
  moreover have "fs' p = fs p" if "\<forall>i. p \<noteq> mbox_name base (Suc i)" for p
    unfolding r(2) by (rule number_files_other) (use that in simp)
  ultimately show ?thesis using r(1) by blast
qed

lemma splitmbox_round_trip_witness:
  "\<exists>fs'. splitmbox (\<lambda>_. True) (Some (mbox_text [(''a'', [''A: b'', ''hi'']), (''b'', [''x''])])) ''m'' (\<lambda>_. None) = (0, fs') \<and>
     fs' (mbox_name ''m'' 1) = Some (''A: b'' @ [CR, LF] @ ''hi'' @ [CR, LF]) \<and> fs' (mbox_name ''m'' 2) = Some (''x'' @ [CR, LF])"
proof -
  let ?ms = "[(''a'', [''A: b'', ''hi'']), (''b'', [''x''])]"
  obtain rc fs' where s: "splitmbox (\<lambda>_. True) (Some (mbox_text ?ms)) ''m'' (\<lambda>_. None) = (rc, fs')" by (rule prod.exhaust)
  have "\<forall>(sep, ls)\<in>set ?ms. mbox_text_line (''From '' @ sep) \<and> (\<forall>l\<in>set ls. mbox_text_line l \<and> \<not> prefix ''From '' l)"
    by (simp add: mbox_text_line_def rstrip_newlines_def)
  from splitmbox_round_trip [OF this _ _ _ s] have "rc = 0" "\<forall>i<2. fs' (mbox_name ''m'' (Suc i)) = Some (crlf_text (snd (?ms ! i)))" by simp_all
  then have "rc = 0" "fs' (mbox_name ''m'' (Suc 0)) = Some (crlf_text (snd (?ms ! 0)))" "fs' (mbox_name ''m'' (Suc 1)) = Some (crlf_text (snd (?ms ! 1)))"
    by (simp_all only: One_nat_def less_2_cases_iff) simp_all
  then show ?thesis using s by (simp add: crlf_text_def numeral_2_eq_2)
qed

section \<open>kospamconf.c\<close>

record conf_options =
  co_config :: string
  co_query :: "string option"
  co_from_file :: bool

definition conf_option :: "conf_options \<Rightarrow> char \<times> string \<Rightarrow> conf_options" where
  "conf_option co opt =
     (case opt of (c, optarg) \<Rightarrow>
        if c = CHR ''c'' then co\<lparr>co_config := optarg\<rparr>
        else if c = CHR ''n'' then co\<lparr>co_from_file := True\<rparr>
        else if c = CHR ''q'' then co\<lparr>co_query := Some optarg\<rparr>
        else co)"

text \<open>What the program prints; \<open>CONFIG_FILE\<close> is the name that is built in.\<close>

definition kospamconf :: "string \<Rightarrow> string \<Rightarrow> (char \<times> string) list \<Rightarrow> file_system \<Rightarrow> string" where
  "kospamconf datadir CONFIG_FILE opts fs =
     (let co = foldl conf_option \<lparr>co_config = CONFIG_FILE, co_query = None, co_from_file = False\<rparr> opts;
          cfg = read_config datadir (fs (co_config co))
      in if co_from_file co then fst (print_config (config_parse_rules datadir) (fs (co_config co)) cfg)
         else fst (print_config_all (config_parse_rules datadir) cfg (co_query co)))"

section \<open>spamdrop.c\<close>

record drop_options =
  do_config :: string
  do_message :: "string option"
  do_ham :: bool
  do_spam :: bool
  do_tokens :: bool
  do_debug :: bool

text \<open>\<open>usage\<close> exits: no options are left.\<close>

definition drop_option :: "drop_options option \<Rightarrow> char \<times> string \<Rightarrow> drop_options option" where
  "drop_option res opt =
     (case res of
        None \<Rightarrow> None
      | Some d \<Rightarrow>
          (case opt of (c, optarg) \<Rightarrow>
             if c = CHR ''c'' then Some (d\<lparr>do_config := optarg\<rparr>)
             else if c = CHR ''S'' then Some (d\<lparr>do_spam := True\<rparr>)
             else if c = CHR ''H'' then Some (d\<lparr>do_ham := True\<rparr>)
             else if c = CHR ''t'' then Some (d\<lparr>do_tokens := True\<rparr>)
             else if c = CHR ''D'' then Some (d\<lparr>do_debug := True\<rparr>)
             else if c = CHR ''m'' then Some (d\<lparr>do_message := Some optarg\<rparr>)
             else if c = CHR ''h'' \<or> c = CHR ''?'' then None
             else Some d))"

text \<open>The exit status, the tokens that are listed, the spaminess that is printed, and the database.\<close>

record 'w dropped =
  dr_status :: int
  dr_tokens :: "string list"
  dr_score :: "real option"
  dr_world :: 'w

text \<open>From the parser to the clean-up; \<open>junk\<close> is what the uninitialised variables hold.\<close>

definition drop_message ::
  "('w, 'r) site \<Rightarrow> drop_options \<Rightarrow> config \<Rightarrow> string \<Rightarrow> nat \<Rightarrow> int \<Rightarrow> parser_state \<times> message \<Rightarrow> file_system \<Rightarrow> 'w \<Rightarrow>
   (string list \<times> real option \<times> 'w) option" where
  "drop_message s d cfg message conn sz junk fs w = do {
     let sdata = init_session_data\<lparr>sd_tot_len := sz, sd_ttmpfile := snprintf_s (SMALLBUFSIZE - 1) message\<rparr>;
     (rc, st1, m1) \<leftarrow> parse_message (s_malloc s) (s_readable s) (s_libs s) cfg (fs message) (fst junk) (snd junk);
     (rc, st2, m2) \<leftarrow> post_parse st1 m1 cfg;
     if do_tokens d then Some (printhash (ps_token_hash st2), None, w)
     else if do_ham d \<or> do_spam d then do {
       (r1, st3, w1) \<leftarrow> introduce_tokens (s_my s) (s_malloc s) conn st2 cfg w;
       (r2, w2) \<leftarrow> train_message (s_my s) (s_malloc s) st3 (if do_spam d then ''nspam'' else ''nham'') cfg w1;
       Some ([], None, w2)
     }
     else do {
       (p, sd, st3, w1) \<leftarrow> run_statistical_check (s_my s) (s_malloc s) sdata (check_zombie_sender (s_regexec s) (s_pregs s) st2) conn cfg w;
       Some ([], Some p, w1)
     }
   }"

definition spamdrop ::
  "('w, 'r) site \<Rightarrow> string \<Rightarrow> string \<Rightarrow> (char \<times> string) list \<Rightarrow> parser_state \<times> message \<Rightarrow> file_system \<Rightarrow> 'w \<Rightarrow> 'w dropped option" where
  "spamdrop s datadir CONFIG_FILE opts junk fs w =
     (let failed = \<lambda>rc w. Some \<lparr>dr_status = rc, dr_tokens = [], dr_score = None, dr_world = w\<rparr>
      in case foldl drop_option (Some \<lparr>do_config = CONFIG_FILE, do_message = None, do_ham = False, do_spam = False,
                do_tokens = False, do_debug = False\<rparr>) opts of
           None \<Rightarrow> failed 1 w
         | Some d \<Rightarrow>
             (case do_message d of
                None \<Rightarrow> failed 1 w
              | Some message \<Rightarrow>
                  if do_spam d \<and> do_ham d then failed 1 w
                  else
                    (case fs message of
                       None \<Rightarrow> failed 1 w
                     | Some content \<Rightarrow>
                         let cfg0 = read_config datadir (fs (do_config d));
                             cfg = (if do_debug d then cfg0\<lparr>cfg_verbosity := 0, cfg_debug := 1\<rparr> else cfg0)
                         in (case open_database (s_my s) cfg w of
                               (None, w1) \<Rightarrow> failed 0 w1
                             | (Some conn, w1) \<Rightarrow> do {
                                 (tokens, score, w2) \<leftarrow> drop_message s d cfg message conn (to_int32 (int (length content))) junk fs w1;
                                 Some \<lparr>dr_status = 0, dr_tokens = tokens, dr_score = score,
                                       dr_world = close_database (s_my s) conn w2\<rparr>
                               }))))"

section \<open>The connections of spamdrop\<close>

lemma get_tokens_opens:
  "conn_laws my opens \<Longrightarrow> get_tokens my malloc st type cfg w = Some (r, st', w') \<Longrightarrow> opens w' = opens w"
  using queries_close_their_connection [where my = my and opens = opens and malloc = malloc and st = st and type = type and cfg = cfg and w = w] by simp

lemma counters_opens:
  "conn_laws my opens \<Longrightarrow> opens (snd (get_ham_spam_counters my conn stmt w)) = opens w"
  by (auto simp: get_ham_spam_counters_def Let_def case_prod_beta conn_laws_steps split: option.split prod.split)

interpretation opened: scoring_relation my malloc "\<lambda>st w st' w'. conn_laws my opens \<longrightarrow> opens w' = opens w" for my malloc opens
  by unfold_locales (auto dest: get_tokens_opens simp: counters_opens)

lemma introduce_tokens_opens:
  assumes "conn_laws my opens" "introduce_tokens my malloc conn st cfg w = Some (r, st', w')" "\<forall>n. malloc n"
  shows "opens w' = opens w"
  using assms(2,3) get_tokens_opens [OF assms(1)] conn_laws_steps(2) [OF assms(1)]
  by (auto simp: introduce_tokens_def Let_def case_prod_beta split: if_splits option.splits)

lemma train_message_opens:
  assumes "conn_laws my opens" "train_message my malloc st column cfg w = Some (r, w')"
  shows "opens w' = opens w"
proof (cases "open_temp_table my cfg w")
  case (Pair oc w1)
  show ?thesis
    using assms(2) open_temp_table_opens [OF assms(1), where cfg = cfg and w = w, unfolded Pair] conn_laws_steps [OF assms(1)]
    by (cases oc) (auto simp: train_message_def Pair Let_def case_prod_beta p_query_def split: if_splits option.splits)
qed

text \<open>
  Whatever \<open>spamdrop\<close> does with a message it can open the database for, it closes its connection and
  leaves no other open; it lists tokens, trains or scores, but never two of these; with a status other
  than 0 it has done nothing.
\<close>

theorem spamdrop_connections:
  assumes "spamdrop s datadir CONFIG_FILE opts junk fs w = Some r" "conn_laws (s_my s) opens" "stmt_laws (s_my s) opens"
    and "\<forall>n. s_malloc s n" "\<forall>w. fst (mysql_init (s_my s) w) \<noteq> None" "\<forall>cfg w. fst (open_database (s_my s) cfg w) \<noteq> None"
  shows "opens (dr_world r) = opens w \<and> (dr_tokens r = [] \<or> dr_score r = None) \<and>
    (dr_status r \<noteq> 0 \<longrightarrow> dr_world r = w \<and> dr_tokens r = [] \<and> dr_score r = None)"
proof -
  have "(\<exists>rc. rc \<noteq> 0 \<and> r = \<lparr>dr_status = rc, dr_tokens = [], dr_score = None, dr_world = w\<rparr>) \<or>
      (\<exists>d cfg message sz conn w1 tokens score w2. open_database (s_my s) cfg w = (Some conn, w1) \<and>
         drop_message s d cfg message conn sz junk fs w1 = Some (tokens, score, w2) \<and>
         r = \<lparr>dr_status = 0, dr_tokens = tokens, dr_score = score, dr_world = mysql_close (s_my s) conn w2\<rparr>)"
    using assms(1) assms(6) unfolding spamdrop_def Let_def close_database_def
    by (auto split: option.splits if_splits prod.splits simp: bind_eq_Some_conv) (metis fst_conv not_None_eq)+
  then show ?thesis
  proof (elim disjE exE conjE)
    fix d cfg message sz conn w1 tokens score w2
    assume o: "open_database (s_my s) cfg w = (Some conn, w1)"
      and m: "drop_message s d cfg message conn sz junk fs w1 = Some (tokens, score, w2)"
      and r: "r = \<lparr>dr_status = 0, dr_tokens = tokens, dr_score = score, dr_world = mysql_close (s_my s) conn w2\<rparr>"
    have c: "conn \<notin> opens w" "opens w1 = insert conn (opens w)"
      using open_database_opens [OF assms(2,3) spec [OF assms(5)] o] by auto
    have "opens w2 = opens w1 \<and> (tokens = [] \<or> score = None)"
      using m unfolding drop_message_def Let_def
      by (auto simp: bind_eq_Some_conv split: if_splits
          dest: opened.run_statistical_check_rel [where opens = opens, rule_format, OF _ assms(2)] introduce_tokens_opens [OF assms(2) _ assms(4)] train_message_opens [OF assms(2)])
    then show ?thesis using c r conn_laws_steps(4) [OF assms(2)] by simp
  qed simp
qed

lemma spamdrop_connections_witness:
  "\<exists>r. spamdrop demo_site [] ''kospam.conf'' [(CHR ''m'', ''m''), (CHR ''t'', [])] (init_state, empty_message) demo_files (demo_world (\<lambda>_. None)) = Some r \<and>
     set (d_conns (dr_world r)) = {}"
proof -
  have c: "read_config [] (demo_files ''kospam.conf'') = default_config []"
    by (simp add: read_config_def parse_config_file_def load_default_config)
  obtain w1 where o: "open_database demo_server (default_config []) (demo_world (\<lambda>_. None)) = (Some 1, w1)"
    by (simp add: open_database_def demo_server_def demo_world_def Let_def)
  obtain st m' st2 m2 where p: "parse_message (\<lambda>_. True) True no_libraries (default_config []) (Some (''A: b'' @ [LF, LF] @ ''Hello'')) init_state empty_message = Some (0, st, m')"
    "post_parse st m' (default_config []) = Some (0, st2, m2)"
    using demo_parsed by (elim exE conjE)
  obtain r where r: "spamdrop demo_site [] ''kospam.conf'' [(CHR ''m'', ''m''), (CHR ''t'', [])] (init_state, empty_message) demo_files (demo_world (\<lambda>_. None)) = Some r"
    using c o p by (simp add: spamdrop_def drop_option_def drop_message_def demo_site_def Let_def)
  have "conn_laws (s_my demo_site) (\<lambda>w. set (d_conns w))" "stmt_laws (s_my demo_site) (\<lambda>w. set (d_conns w))"
    using demo_conn_laws demo_stmt_laws by (simp_all add: demo_site_def)
  moreover have "\<forall>n. s_malloc demo_site n" "\<forall>w. fst (mysql_init (s_my demo_site) w) \<noteq> None"
    by (simp_all add: demo_site_def demo_server_def)
  moreover have "\<forall>cfg w. fst (open_database (s_my demo_site) cfg w) \<noteq> None"
    by (simp add: demo_site_def open_database_def demo_server_def Let_def)
  ultimately have "set (d_conns (dr_world r)) = set (d_conns (demo_world (\<lambda>_. None)))"
    using spamdrop_connections [OF r] by blast
  then show ?thesis using r by (auto simp: demo_world_def)
qed

end
