(* ===== verification/Spec2Isabelle.thy ===== *)
theory Spec2Isabelle
  imports Base64 Quoted_Printable Html Utf8 Process_Pool Partition Startup Mailer Tools
begin

text \<open>
  A model of kospam, a statistical spam filter that stands between two mail servers: a receiver puts
  messages into queues, one directory for each worker process; a worker parses a message, asks a database
  about its tokens, decides, adds result lines to the header, and moves the message into the directory from
  which it is sent on.  All file names below are those of \<open>src/src/\<close>; a function keeps its name in the model.


  THE PARTS AND HOW THEY MEET

  \<^item> The daemon (\<open>kospam.c\<close>, \<open>child.c\<close>, \<open>dirs.c\<close>, \<open>misc.c\<close>, \<open>partition.c\<close>): \<open>main\<close> reads the configuration, gives
    up its privileges, creates the directories, maintains the partitions of the history and forks the workers;
    its signal handler restarts workers that end.  Theories \<open>Startup\<close>, \<open>Process_Pool\<close>, \<open>Partition\<close>.
  \<^item> The worker (\<open>child_main\<close>, \<open>process_dir\<close>, \<open>process_email\<close> of \<open>kospam.c\<close>): one pass over its queue for each
    connection to the database.  Theories \<open>Process_Pool\<close> (the loop) and \<open>Mailer\<close> (queue and message).
  \<^item> The parser (\<open>parser.c\<close>, \<open>header.c\<close>, \<open>base64.c\<close>, \<open>qp.c\<close>, \<open>html.c\<close>, \<open>entities.c\<close>, \<open>utf8.c\<close>, \<open>digest.c\<close>): takes the
    message apart inside one block of memory.  Theories \<open>Parser\<close>, \<open>Header\<close>, \<open>Base64\<close>, \<open>Quoted_Printable\<close>,
    \<open>Html\<close>, \<open>Utf8\<close>.
  \<^item> Tokens (\<open>post_parse\<close> of \<open>parser.c\<close>, \<open>tokenizer.c\<close>, \<open>strings.c\<close>, \<open>hash.c\<close>, \<open>xxh3_64.c\<close>): the texts of the
    message become a table of tokens.  Theories \<open>Post_Parse\<close>, \<open>Tokenizer\<close>, \<open>Kospam_Strings\<close>, \<open>Token_Hash\<close>, \<open>Xxh3\<close>.
  \<^item> The engine (\<open>qqq.c\<close>, \<open>spam.c\<close>, \<open>chi.c\<close>, \<open>antispam.c\<close>, \<open>train.c\<close>, \<open>zombie.c\<close>): counters of the tokens from the
    database, their probabilities, the combination of these, the decision and the training.  Theories
    \<open>Token_Query\<close>, \<open>Spam_Score\<close>, \<open>Chi_Square\<close>, \<open>Antispam\<close>, \<open>Startup\<close> (the loading of \<open>zombie.c\<close>).
  \<^item> The database layer (\<open>mysql.c\<close>, \<open>sql.h\<close>) and the single statements (\<open>wbl.c\<close>, \<open>minefield.c\<close>, \<open>attachment.c\<close>,
    \<open>counters.c\<close>, \<open>history.c\<close>).  Theories \<open>Mysql\<close> and \<open>Partition\<close>.
  \<^item> Files and configuration (\<open>file.c\<close>, \<open>cfg.c\<close>).  Theories \<open>Message_File\<close>, \<open>Kospam_Config\<close>, \<open>Kospam_Cfg\<close>.
  \<^item> The tools (\<open>spamdrop.c\<close>, \<open>splitmbox.c\<close>, \<open>kospamconf.c\<close>), which use the same parts.  Theory \<open>Tools\<close>.

  \<open>Kospam_Prelude\<close>, \<open>C_Strings\<close>, \<open>C_Numbers\<close>, \<open>C_Float\<close> and \<open>C_Buffer\<close> hold what the components share: bytes
  and strings, the functions of the C library the program uses, numbers in text, floating point values
  with NaN, and blocks of memory with checked accesses.


  HOW STATE AND OPERATIONS CORRESPOND

  A struct is a record with a prefix for its fields (\<open>struct node\<close>: \<open>node\<close>, \<open>n_key\<close>; \<open>struct parser_state\<close>:
  \<open>parser_state\<close>, \<open>ps_ip\<close>; \<open>struct Message\<close>: \<open>message\<close>, \<open>m_body\<close>; \<open>struct session_data\<close>: \<open>session_data\<close>,
  \<open>sd_status\<close>; \<open>struct config\<close>: \<open>config\<close>, \<open>cfg_workdir\<close>; \<open>struct query\<close>, \<open>struct counters\<close>, \<open>struct child\<close>).  A
  function that changes its arguments returns them.  \<open>char\<close> arrays that hold a string are the string, cut where
  the code cuts it (\<open>snprintf_s n\<close> is \<open>snprintf\<close> with size \<open>n\<close>); where a function works inside a block with
  pointers, the block is a list of bytes, pointers are offsets, and an access outside is the result \<open>None\<close>.
  \<open>None\<close> is also a write behind an allocated query (\<open>Token_Query\<close>, \<open>Antispam\<close>) and behind the header array
  (\<open>Message_File\<close>).  Errors that the code returns are numbers, as in the code.  64 bit keys and 32 or 64 bit
  counters are words; an \<open>int\<close> that is only compared or stored is an integer, with \<open>to_int32\<close> where the code
  narrows, and for the size of a query (\<open>query_len\<close>), whose overflow is taken to wrap around.  Where C leaves a
  choice, that of the usual 64 bit compilers is taken: seven bytes of padding behind the digest of a
  \<open>struct attachment\<close>, and in \<open>n_token += f (...)\<close> the call before the old value is read.  The chained hash table is a function from buckets to lists; hash collisions are therefore those of
  the code.  A \<open>float\<close> or \<open>double\<close> is a real number, or NaN where a quotient can be 0/0; rounding is not modelled.

  Code that is not in the repository is a parameter: the record \<open>mysql\<close> of the functions of the client library,
  which act on any type of worlds; \<open>iconv\<close> and the digests of OpenSSL (record \<open>libraries\<close>); \<open>regcomp\<close> and
  \<open>regexec\<close>; \<open>malloc\<close>, as the sizes it grants; \<open>fork\<close>, \<open>mkdir\<close>, \<open>rename\<close>, \<open>setuid\<close> and \<open>setgid\<close>, the password
  database, the clock and the time zone.  What a theorem relies on of them is a named hypothesis: \<open>answers\<close> (the
  server returns the rows of the keys it was given), \<open>conn_laws\<close> and \<open>stmt_laws\<close> (which calls open and close
  connections), \<open>fork_ok\<close> (a new process has a new number).  \<open>demo_server\<close>, \<open>next_pid\<close> and \<open>demo_host\<close> are
  functions for which they hold; the witnesses run on them.


  WHAT THE LEMMAS SHOW

  \<^item> Blocks (\<open>C_Buffer\<close>): a locale for the loops of the decoders, which read ahead of where they write, with
    the one theorem that such a loop stays in its block and leaves exactly what it emits.  The decoders of
    \<open>Quoted_Printable\<close> and \<open>Html\<close> and \<open>normalize_buffer\<close> are interpretations of it; \<open>Base64\<close> and
    \<open>Utf8\<close> have lemmas of their own.  Each has a specification of its output, and the inverse of
    an encoder where there is one.
  \<^item> Parser: the size of the block and the room in every array of the record are invariants of all mutually
    recursive functions (\<open>parse_eml_buffer_keeps\<close>); the text of single and multipart messages is decoded and
    joined in order; the inputs that make it leave its block are characterised, not excluded.
  \<^item> Tokens: the table has each key once and in its bucket, and no operation changes that; the tokenizer adds
    exactly the tokens of its reference (the locale \<open>token_map\<close> states the table as a map) and
    stays inside its array exactly on texts without empty fields;
    \<open>post_parse\<close> composes these.
  \<^item> Engine: \<open>chi2inv\<close> is the survival function of the chi-square distribution, the combined value is a
    probability, depends on the multiset of the tokens only and grows with each; \<open>run_statistical_check\<close>
    returns a probability whatever the server answers; the locale \<open>scoring_relation\<close> (what its steps preserve,
    it preserves) is interpreted for clamped tables, the kept fields of the session and the open
    connections; \<open>check_spam\<close> follows its decision table and stays inside its query blocks when \<open>n_token\<close>
    counts all tokens (which \<open>post_parse\<close> does not guarantee) and the sizes of the blocks fit an \<open>int\<close>.
  \<^item> Pool: a step relation of signals and ends of children; its invariant, and the refinement of an abstract
    supervisor by an interpretation of the locale \<open>step_refinement\<close>; what a failed \<open>fork\<close> does.
  \<^item> Worker: the outcome of a message, its counters, the emptied queue, and the history that misses the verdict.
  \<^item> Daemon: what holds in the idle loop and when it is not reached, thirty days of history (less a change of the
    local clock), the connections that are left open.


  BOUNDS AND FUEL

  No definition takes fuel.  Recursion is structural, on the text that is left, or on the length of a block from
  an offset, with its termination proved.  The rounds of \<open>child_main\<close>, whose loop need not end, are a list of
  what each round finds, and \<open>None\<close> is a loop that is still running when the list ends; \<open>child_main_ends\<close>
  says how long a list suffices.  \<open>reap_children\<close> ends because each round takes one child from those to be
  waited for.  The training runs at most \<open>MAX_ITERATIVE_TRAIN_LOOPS\<close> rounds, as in the code.  Hypotheses on lengths
  (a name under 200 bytes, a header line under 512) are those under which a fixed array of the code does not cut.


  NOT MODELLED

  Log and debug messages; time measurements (\<open>tvdiff\<close> and the delays); \<open>getopt\<close> itself (the tools take its
  results) and the options of the daemon; file modes; the wrappers of \<open>sigaction\<close> and \<open>sigprocmask\<close> in \<open>sig.c\<close>
  (signals are steps of \<open>Process_Pool\<close>, and their handlers are not interrupted by others); the build with the GSL library; \<open>tests.c\<close> and the files under
  \<open>obsoleted/\<close>, which are not built.  The receiving and sending daemons of the repository are not in C.
\<close>

end
